(* ===== verification/Prelude.thy ===== *)
theory Prelude
  imports Main "HOL-Library.Word"
begin

text \<open>
  Shared vocabulary of the development: the machine integer types the Rust sources use, Rust's
  \<^verbatim>\<open>Result\<close> as the sum type \<open>'e + 'a\<close> (\<open>Inl\<close> the error), panics as a value of the type
  \<open>outcome\<close>, and the lemmas on words, results and outcomes that the components share.
\<close>

section \<open>Machine integers\<close>

type_synonym u8 = "8 word"
type_synonym u16 = "16 word"
type_synonym u32 = "32 word"
type_synonym u64 = "64 word"
type_synonym u128 = "128 word"
type_synonym bytes = "u8 list"

text \<open>Facts that move word arithmetic to natural numbers.\<close>

named_theorems to_nat_simps \<open>rewrite guarded word operations into facts about their numeric values\<close>

text \<open>Signed facts are stated over \<open>int (unat w)\<close>, which the arithmetic provers know to be non-negative.\<close>

declare of_nat_unat [simp del]

lemma unat_add_le_iff:
  fixes a b c :: "'a::len word"
  shows "(c < a \<or> b > c - a) \<longleftrightarrow> unat c < unat a + unat b"
proof (cases "c < a")
  case True
  then have "unat c < unat a" by (simp add: word_less_nat_alt)
  with True show ?thesis by simp
next
  case False
  then have "a \<le> c" by simp
  then have "unat (c - a) = unat c - unat a" and "unat a \<le> unat c"
    by (simp_all add: unat_sub word_le_nat_alt)
  with False show ?thesis by (simp add: word_less_nat_alt; arith)
qed

lemma unat_add_eq:
  fixes a b c :: "'a::len word"
  assumes "unat a + unat b \<le> unat c"
  shows "unat (a + b) = unat a + unat b"
proof -
  have "unat a + unat b < 2 ^ LENGTH('a)"
    using assms unsigned_less [of c] by (rule le_less_trans)
  then show ?thesis by (simp add: unat_add_lem)
qed

text \<open>Every integer between zero and the value of a word is the value of a word.\<close>

lemma word_of_value:
  fixes c :: "'a::len word"
  assumes "0 \<le> x" and "x \<le> int (unat c)"
  obtains w :: "'a word" where "int (unat w) = x"
proof
  have "nat x < 2 ^ LENGTH('a)"
    using assms unsigned_less [of c, where 'a = nat] by linarith
  then have "unat (word_of_nat (nat x) :: 'a word) = nat x"
    by (rule of_nat_inverse [OF refl])
  with assms(1) show "int (unat (word_of_nat (nat x) :: 'a word)) = x" by simp
qed

lemma unat_max: "unat (max a b) = max (unat a) (unat b)"
  by (simp add: max_def word_le_nat_alt)

section \<open>Little-endian bytes\<close>

text \<open>
  The BCS encoding of a \<^verbatim>\<open>u128\<close>: sixteen bytes, least significant first. The models take the codec as
  a parameter, since the \<^verbatim>\<open>bcs\<close> crate is not part of the sources; this instance is the documented
  format and shows that the assumptions made on the parameter can hold.
\<close>

fun le_encode :: "nat \<Rightarrow> nat \<Rightarrow> bytes" where
  "le_encode 0 m = []"
| "le_encode (Suc n) m = word_of_nat (m mod 256) # le_encode n (m div 256)"

fun le_decode :: "bytes \<Rightarrow> nat" where
  "le_decode [] = 0"
| "le_decode (b # bs) = unat b + 256 * le_decode bs"

definition u128_to_bytes :: "u128 \<Rightarrow> bytes" where
  "u128_to_bytes v = le_encode 16 (unat v)"

definition u128_from_bytes :: "bytes \<Rightarrow> u128 option" where
  "u128_from_bytes bs = (if length bs = 16 then Some (word_of_nat (le_decode bs)) else None)"

lemma length_le_encode [simp]: "length (le_encode n m) = n"
  by (induction n arbitrary: m) auto

lemma le_decode_encode: "le_decode (le_encode n m) = m mod 256 ^ n"
proof (induction n arbitrary: m)
  case 0
  then show ?case by simp
next
  case (Suc n)
  have "unat (word_of_nat (m mod 256) :: u8) = m mod 256"
    by (rule of_nat_inverse [OF refl]) simp
  with Suc show ?case by (simp add: mod_mult2_eq)
qed

lemma u128_from_to_bytes [simp]: "u128_from_bytes (u128_to_bytes v) = Some v"
proof -
  have "unat v < 256 ^ 16"
    using unsigned_less [of v, where 'a = nat] by simp
  then show ?thesis
    by (simp add: u128_from_bytes_def u128_to_bytes_def le_decode_encode of_nat_unat)
qed

section \<open>Results\<close>

text \<open>Rust's \<^verbatim>\<open>?\<close> operator and \<^verbatim>\<open>Result::and_then\<close>: continue with the value, or return the error.\<close>

definition and_then :: "'e + 'a \<Rightarrow> ('a \<Rightarrow> 'e + 'b) \<Rightarrow> 'e + 'b" where
  "and_then r f = (case r of Inl e \<Rightarrow> Inl e | Inr x \<Rightarrow> f x)"

text \<open>\<^verbatim>\<open>Result::map_err\<close>, \<^verbatim>\<open>Result::ok\<close>, \<^verbatim>\<open>Result::unwrap_or\<close> and \<^verbatim>\<open>Option::ok_or\<close>.\<close>

definition map_err :: "('e \<Rightarrow> 'f) \<Rightarrow> 'e + 'a \<Rightarrow> 'f + 'a" where
  "map_err g r = (case r of Inl e \<Rightarrow> Inl (g e) | Inr x \<Rightarrow> Inr x)"

definition result_ok :: "'e + 'a \<Rightarrow> 'a option" where
  "result_ok r = (case r of Inl _ \<Rightarrow> None | Inr x \<Rightarrow> Some x)"

definition unwrap_or :: "'a \<Rightarrow> 'e + 'a \<Rightarrow> 'a" where
  "unwrap_or d r = (case r of Inl _ \<Rightarrow> d | Inr x \<Rightarrow> x)"

definition ok_or :: "'e \<Rightarrow> 'a option \<Rightarrow> 'e + 'a" where
  "ok_or e v = (case v of None \<Rightarrow> Inl e | Some x \<Rightarrow> Inr x)"

lemma and_then_simps [simp]:
  "and_then (Inl e) f = Inl e"
  "and_then (Inr x) f = f x"
  by (simp_all add: and_then_def)

lemma and_then_eq_Inr_iff: "and_then r f = Inr y \<longleftrightarrow> (\<exists>x. r = Inr x \<and> f x = Inr y)"
  by (cases r) auto

lemma and_then_eq_Inl_iff:
  "and_then r f = Inl e \<longleftrightarrow> r = Inl e \<or> (\<exists>x. r = Inr x \<and> f x = Inl e)"
  by (cases r) auto

lemma and_then_assoc: "and_then (and_then r f) g = and_then r (\<lambda>x. and_then (f x) g)"
  by (cases r) auto

lemma and_then_cong [fundef_cong]:
  "r = r' \<Longrightarrow> (\<And>x. r' = Inr x \<Longrightarrow> f x = f' x) \<Longrightarrow> and_then r f = and_then r' f'"
  by (cases r') auto

lemma map_err_simps [simp]:
  "map_err g (Inl e) = Inl (g e)"
  "map_err g (Inr x) = Inr x"
  by (simp_all add: map_err_def)

lemma map_err_eq_Inr_iff [simp]: "map_err g r = Inr x \<longleftrightarrow> r = Inr x"
  by (cases r) auto

lemma map_err_eq_Inl_iff: "map_err g r = Inl e \<longleftrightarrow> (\<exists>x. r = Inl x \<and> e = g x)"
  by (cases r) auto

lemma result_ok_simps [simp]:
  "result_ok (Inl e) = None"
  "result_ok (Inr x) = Some x"
  by (simp_all add: result_ok_def)

lemma result_ok_eq_Some_iff [simp]: "result_ok r = Some x \<longleftrightarrow> r = Inr x"
  by (cases r) auto

lemma result_ok_eq_None_iff: "result_ok r = None \<longleftrightarrow> (\<exists>e. r = Inl e)"
  by (cases r) auto

lemma unwrap_or_simps [simp]:
  "unwrap_or d (Inl e) = d"
  "unwrap_or d (Inr x) = x"
  by (simp_all add: unwrap_or_def)

lemma ok_or_simps [simp]:
  "ok_or e None = Inl e"
  "ok_or e (Some x) = Inr x"
  by (simp_all add: ok_or_def)

lemma ok_or_eq_Inr_iff [simp]: "ok_or e v = Inr x \<longleftrightarrow> v = Some x"
  by (cases v) auto

text \<open>Two results agree when both succeed with the same value or both fail, whatever the errors.\<close>

lemma result_ok_eqI: "(\<And>x. r = Inr x \<longleftrightarrow> s = Inr x) \<Longrightarrow> result_ok r = result_ok s"
  by (cases r; cases s) auto

section \<open>Panics\<close>

text \<open>
  A Rust function that may panic (an \<^verbatim>\<open>assert!\<close>, \<^verbatim>\<open>expect\<close>, \<^verbatim>\<open>unwrap\<close> or \<^verbatim>\<open>unreachable!\<close>, or an index out
  of range) returns an \<open>outcome\<close>.
\<close>

datatype 'a outcome = Panic | Ret 'a

definition out_bind :: "'a outcome \<Rightarrow> ('a \<Rightarrow> 'b outcome) \<Rightarrow> 'b outcome" where
  "out_bind m f = (case m of Panic \<Rightarrow> Panic | Ret x \<Rightarrow> f x)"

definition expect :: "'a option \<Rightarrow> 'a outcome" where
  "expect v = (case v of None \<Rightarrow> Panic | Some x \<Rightarrow> Ret x)"

definition expect_ok :: "'e + 'a \<Rightarrow> 'a outcome" where
  "expect_ok r = (case r of Inl _ \<Rightarrow> Panic | Inr x \<Rightarrow> Ret x)"

definition assert_that :: "bool \<Rightarrow> 'a \<Rightarrow> 'a outcome" where
  "assert_that b x = (if b then Ret x else Panic)"

text \<open>Indexing a vector panics out of range.\<close>

definition index :: "'a list \<Rightarrow> nat \<Rightarrow> 'a outcome" where
  "index xs i = (if i < length xs then Ret (xs ! i) else Panic)"

text \<open>
  Arithmetic on fixed-width integers: the build profiles enable overflow checks, so an overflow panics, and
  so does a shift by at least the width.
\<close>

definition word_add :: "'w::len word \<Rightarrow> 'w word \<Rightarrow> 'w word outcome" where
  "word_add a b = (if unat a + unat b < 2 ^ LENGTH('w) then Ret (a + b) else Panic)"

definition word_sub :: "'w::len word \<Rightarrow> 'w word \<Rightarrow> 'w word outcome" where
  "word_sub a b = (if b \<le> a then Ret (a - b) else Panic)"

definition word_mul :: "'w::len word \<Rightarrow> 'w word \<Rightarrow> 'w word outcome" where
  "word_mul a b = (if unat a * unat b < 2 ^ LENGTH('w) then Ret (a * b) else Panic)"

definition word_shl :: "'w::len word \<Rightarrow> nat \<Rightarrow> 'w word outcome" where
  "word_shl a n = (if n < LENGTH('w) then Ret (push_bit n a) else Panic)"

definition word_shr :: "'w::len word \<Rightarrow> nat \<Rightarrow> 'w word outcome" where
  "word_shr a n = (if n < LENGTH('w) then Ret (drop_bit n a) else Panic)"

lemma word_add_code [code]: "word_add a b = (if a \<le> a + b then Ret (a + b) else Panic)"
  by (simp add: word_add_def no_olen_add_nat)

lemma word_mul_code [code]:
  "word_mul a b = (if uint a * uint b < 2 ^ LENGTH('w) then Ret (a * b :: 'w::len word) else Panic)"
proof -
  have "uint a * uint b < 2 ^ LENGTH('w) \<longleftrightarrow> int (unat a * unat b) < int (2 ^ LENGTH('w))" for a b :: "'w word"
    by (simp only: of_nat_mult uint_nat of_nat_power of_nat_numeral)
  then show ?thesis by (simp only: word_mul_def of_nat_less_iff)
qed

definition usize_sub :: "nat \<Rightarrow> nat \<Rightarrow> nat outcome" where
  "usize_sub a b = (if b \<le> a then Ret (a - b) else Panic)"

text \<open>The operator \<open>?\<close> in code that may also panic: an error is returned, a panic is passed on.\<close>

definition out_try :: "('e + 'a) outcome \<Rightarrow> ('a \<Rightarrow> ('e + 'b) outcome) \<Rightarrow> ('e + 'b) outcome" where
  "out_try m f = (case m of Panic \<Rightarrow> Panic | Ret (Inl e) \<Rightarrow> Ret (Inl e) | Ret (Inr x) \<Rightarrow> f x)"

lemma out_try_simps [simp]:
  "out_try Panic f = Panic"
  "out_try (Ret (Inl e)) f = Ret (Inl e)"
  "out_try (Ret (Inr x)) f = f x"
  by (simp_all add: out_try_def)

lemma out_try_ok: "out_try m f = Ret (Inr y) \<longleftrightarrow> (\<exists>x. m = Ret (Inr x) \<and> f x = Ret (Inr y))"
  by (auto simp: out_try_def split: outcome.splits sum.splits)

lemma out_bind_simps [simp]:
  "out_bind Panic f = Panic"
  "out_bind (Ret x) f = f x"
  by (simp_all add: out_bind_def)

lemma out_bind_eq_Ret_iff: "out_bind m f = Ret y \<longleftrightarrow> (\<exists>x. m = Ret x \<and> f x = Ret y)"
  by (cases m) auto

lemma out_bind_cong [fundef_cong]:
  "m = m' \<Longrightarrow> (\<And>x. m' = Ret x \<Longrightarrow> f x = f' x) \<Longrightarrow> out_bind m f = out_bind m' f'"
  by (cases m') auto

lemma expect_simps [simp]:
  "expect None = Panic"
  "expect (Some x) = Ret x"
  by (simp_all add: expect_def)

lemma expect_eq_Ret_iff [simp]: "expect v = Ret x \<longleftrightarrow> v = Some x"
  by (cases v) auto

lemma expect_ok_simps [simp]:
  "expect_ok (Inl e) = Panic"
  "expect_ok (Inr x) = Ret x"
  by (simp_all add: expect_ok_def)

lemma expect_ok_eq_Ret_iff [simp]: "expect_ok r = Ret x \<longleftrightarrow> r = Inr x"
  by (cases r) auto

lemma assert_that_eq_Ret_iff [simp]: "assert_that b x = Ret y \<longleftrightarrow> b \<and> y = x"
  by (auto simp: assert_that_def)

lemma index_eq_Ret_iff: "index xs i = Ret x \<longleftrightarrow> i < length xs \<and> x = xs ! i"
  by (auto simp: index_def)

lemma index_in_range [simp]: "i < length xs \<Longrightarrow> index xs i = Ret (xs ! i)"
  by (simp add: index_def)

section \<open>Invariants of transition systems\<close>

text \<open>
  The interface of a component with state: its initial states, its steps and an invariant that the
  initial states satisfy and every step keeps.
\<close>

inductive reachable :: "('s \<Rightarrow> bool) \<Rightarrow> ('s \<Rightarrow> 's \<Rightarrow> bool) \<Rightarrow> 's \<Rightarrow> bool" for init step where
  reach_init: "init s \<Longrightarrow> reachable init step s"
| reach_step: "reachable init step s \<Longrightarrow> step s t \<Longrightarrow> reachable init step t"

lemma reach_steps: "step\<^sup>*\<^sup>* s t \<Longrightarrow> reachable init step s \<Longrightarrow> reachable init step t"
  by (induction rule: rtranclp_induct) (auto intro: reach_step)

locale invariant_system =
  fixes init :: "'s \<Rightarrow> bool"
    and step :: "'s \<Rightarrow> 's \<Rightarrow> bool"
    and inv :: "'s \<Rightarrow> bool"
  assumes init_inv: "init s \<Longrightarrow> inv s"
    and step_inv: "inv s \<Longrightarrow> step s t \<Longrightarrow> inv t"
begin

lemma reachable_inv: "reachable init step s \<Longrightarrow> inv s"
  by (induction rule: reachable.induct) (auto intro: init_inv step_inv)

lemma steps_inv: "step\<^sup>*\<^sup>* s t \<Longrightarrow> inv s \<Longrightarrow> inv t"
  by (induction rule: rtranclp_induct) (auto intro: step_inv)

lemma steps_monotone:
  assumes "step\<^sup>*\<^sup>* s t" and "inv s"
    and "\<And>u v. inv u \<Longrightarrow> step u v \<Longrightarrow> f u \<le> (f v :: 'b::preorder)"
  shows "f s \<le> f t"
  using assms(1)
proof (induction rule: rtranclp_induct)
  case base
  show ?case by simp
next
  case (step u v)
  from step.hyps(1) assms(2) have "inv u" by (rule steps_inv)
  with step.hyps(2) have "f u \<le> f v" by (rule assms(3) [rotated])
  with step.IH show ?case by (rule order_trans)
qed

end

end
