(* ===== verification/BTreeMap.thy ===== *)
theory BTreeMap
  imports Prelude
begin

text \<open>
  Rust's \<^verbatim>\<open>std::collections::BTreeMap\<close>, as far as the sources use it: a map whose iteration order is
  the order of the keys. The model is the list of the entries in iteration order, sorted by key
  without duplicates. The locale \<open>ordered_map\<close> states the contract the components rely on; the
  sorted list is shown to satisfy it.
\<close>

section \<open>The contract of an ordered map\<close>

locale ordered_map =
  fixes empty :: "'m"
    and insert :: "'k::linorder \<Rightarrow> 'v \<Rightarrow> 'm \<Rightarrow> 'm"
    and remove :: "'k \<Rightarrow> 'm \<Rightarrow> 'm"
    and get :: "'m \<Rightarrow> 'k \<Rightarrow> 'v option"
    and entries :: "'m \<Rightarrow> ('k \<times> 'v) list"
    and wf :: "'m \<Rightarrow> bool"
  assumes wf_empty: "wf empty"
    and wf_insert: "wf m \<Longrightarrow> wf (insert k v m)"
    and wf_remove: "wf m \<Longrightarrow> wf (remove k m)"
    and get_empty: "get empty k = None"
    and get_insert: "wf m \<Longrightarrow> get (insert k v m) = (get m)(k \<mapsto> v)"
    and get_remove: "wf m \<Longrightarrow> get (remove k m) = (get m)(k := None)"
    and entries_sorted: "wf m \<Longrightarrow> sorted_wrt (<) (map fst (entries m))"
    and entries_get: "wf m \<Longrightarrow> map_of (entries m) = get m"
    and entries_eqD: "wf m \<Longrightarrow> wf m' \<Longrightarrow> entries m = entries m' \<Longrightarrow> m = m'"
begin

lemma distinct_keys: "wf m \<Longrightarrow> distinct (map fst (entries m))"
  using entries_sorted strict_sorted_iff by blast

lemma set_entries: "wf m \<Longrightarrow> set (entries m) = {(k, v). get m k = Some v}"
  by (auto simp flip: entries_get simp: distinct_keys)

lemma keys_entries: "wf m \<Longrightarrow> set (map fst (entries m)) = dom (get m)"
  by (simp flip: entries_get add: dom_map_of_conv_image_fst)

lemma finite_dom: "wf m \<Longrightarrow> finite (dom (get m))"
  by (simp flip: keys_entries)

text \<open>Two well-formed maps with the same lookups are the same map.\<close>

lemma map_ext:
  assumes "wf m" and "wf m'" and "get m = get m'"
  shows "m = m'"
proof -
  have keys: "map fst (entries m) = map fst (entries m')"
    using assms by (intro strict_sorted_equal) (simp_all add: entries_sorted keys_entries del: set_map)
  have "entries m = map (\<lambda>k. (k, the (get m k))) (map fst (entries m))"
    using assms(1) by (auto simp: set_entries intro!: map_idI [symmetric])
  also have "\<dots> = map (\<lambda>k. (k, the (get m' k))) (map fst (entries m'))"
    using assms(3) keys by simp
  also have "\<dots> = entries m'"
    using assms(2) by (auto simp: set_entries intro!: map_idI)
  finally show ?thesis using assms(1,2) by (intro entries_eqD)
qed

text \<open>Collecting an iterator of pairs: later pairs overwrite earlier ones.\<close>

lemma fold_insert:
  "wf m \<Longrightarrow> wf (fold (\<lambda>(k, v). insert k v) xs m)
     \<and> get (fold (\<lambda>(k, v). insert k v) xs m) = get m ++ map_of (rev xs)"
proof (induction xs arbitrary: m)
  case Nil
  then show ?case by simp
next
  case (Cons x xs)
  obtain k v where x: "x = (k, v)" by force
  from Cons.prems have "wf (insert k v m)" by (rule wf_insert)
  from Cons.IH [OF this] show ?case
    using Cons.prems x by (simp add: get_insert del: fun_upd_apply)
qed

end

section \<open>Sorted association lists\<close>

type_synonym ('k, 'v) btree_map = "('k \<times> 'v) list"

definition btm_wf :: "('k::linorder, 'v) btree_map \<Rightarrow> bool" where
  "btm_wf m \<longleftrightarrow> sorted_wrt (<) (map fst m)"

fun btm_insert :: "'k::linorder \<Rightarrow> 'v \<Rightarrow> ('k, 'v) btree_map \<Rightarrow> ('k, 'v) btree_map" where
  "btm_insert k v [] = [(k, v)]"
| "btm_insert k v ((k', v') # m) =
     (if k < k' then (k, v) # (k', v') # m
      else if k = k' then (k, v) # m
      else (k', v') # btm_insert k v m)"

definition btm_remove :: "'k::linorder \<Rightarrow> ('k, 'v) btree_map \<Rightarrow> ('k, 'v) btree_map" where
  "btm_remove k m = filter (\<lambda>e. fst e \<noteq> k) m"

definition btm_get :: "('k::linorder, 'v) btree_map \<Rightarrow> 'k \<Rightarrow> 'v option" where
  "btm_get m k = map_of m k"

definition btm_of_list :: "('k::linorder \<times> 'v) list \<Rightarrow> ('k, 'v) btree_map" where
  "btm_of_list xs = fold (\<lambda>(k, v). btm_insert k v) xs []"

lemma set_keys_btm_insert: "fst ` set (btm_insert k v m) = insert k (fst ` set m)"
  by (induction k v m rule: btm_insert.induct) auto

lemma btm_wf_insert: "btm_wf m \<Longrightarrow> btm_wf (btm_insert k v m)"
proof (induction m)
  case Nil
  then show ?case by (simp add: btm_wf_def)
next
  case (Cons e m)
  then have "btm_wf (btm_insert k v m)" by (simp add: btm_wf_def)
  with Cons.prems show ?case
    by (cases e) (auto simp: btm_wf_def set_keys_btm_insert)
qed

lemma btm_get_insert: "btm_wf m \<Longrightarrow> btm_get (btm_insert k v m) = (btm_get m)(k \<mapsto> v)"
  by (induction m) (auto simp: btm_wf_def btm_get_def fun_eq_iff)

lemma btm_wf_remove: "btm_wf m \<Longrightarrow> btm_wf (btm_remove k m)"
  by (induction m) (auto simp: btm_wf_def btm_remove_def)

lemma btm_get_remove: "btm_get (btm_remove k m) = (btm_get m)(k := None)"
  by (induction m) (auto simp: btm_get_def btm_remove_def fun_eq_iff)

interpretation btm: ordered_map "[]" btm_insert btm_remove btm_get "\<lambda>m. m" btm_wf
  by unfold_locales
    (auto simp: btm_wf_insert btm_get_insert btm_wf_remove btm_get_remove,
      auto simp: btm_wf_def btm_get_def)

lemma btm_wf_of_list [simp]: "btm_wf (btm_of_list xs)"
  and btm_get_of_list: "btm_get (btm_of_list xs) = map_of (rev xs)"
  using btm.fold_insert [OF btm.wf_empty, of xs]
  by (simp_all add: btm_of_list_def fun_eq_iff btm_get_def map_add_def split: option.splits)

lemma map_of_rev_distinct: "distinct (map fst xs) \<Longrightarrow> map_of (rev xs) = map_of xs"
  by (subst map_of_inject_set) (auto simp: rev_map [symmetric])

lemma btm_wf_single [simp]: "btm_wf [e]"
  by (simp add: btm_wf_def)

lemmas btm_simps = btm.wf_empty btm.wf_insert btm.wf_remove btm.get_empty btm.get_insert btm.get_remove

text \<open>Ranges of a map by key, in iteration order.\<close>

definition btm_below :: "'k::linorder \<Rightarrow> ('k, 'v) btree_map \<Rightarrow> ('k, 'v) btree_map" where
  "btm_below k m = takeWhile (\<lambda>e. fst e < k) m"

lemma btm_below_eq_filter: "btm_wf m \<Longrightarrow> btm_below k m = filter (\<lambda>e. fst e < k) m"
proof (induction m)
  case Nil
  then show ?case by (simp add: btm_below_def)
next
  case (Cons e m)
  then have IH: "btm_below k m = filter (\<lambda>e. fst e < k) m" by (simp add: btm_wf_def)
  show ?case
  proof (cases "fst e < k")
    case True
    with IH show ?thesis by (simp add: btm_below_def)
  next
    case False
    with Cons.prems have "\<forall>x\<in>set m. \<not> fst x < k"
      by (auto simp: btm_wf_def)
    with False show ?thesis
      by (simp add: btm_below_def)
  qed
qed


end
