(* ===== verification/WriteSet.thy ===== *)
theory WriteSet
  imports BTreeMap
begin

text \<open>
  The write set of a transaction (\<^verbatim>\<open>types/src/write_set.rs\<close>): write operations, the mutable and the
  frozen write set, and squashing two consecutive write sets into one. The abstract specification is
  the effect of a write set on a key-value state: squashing refines running the two write sets one
  after the other.
\<close>

section \<open>Write operations\<close>

datatype write_op = Creation bytes | Modification bytes | Deletion

fun is_deletion :: "write_op \<Rightarrow> bool" where
  "is_deletion Deletion = True"
| "is_deletion (Modification _) = False"
| "is_deletion (Creation _) = False"

fun is_creation :: "write_op \<Rightarrow> bool" where
  "is_creation (Creation _) = True"
| "is_creation (Modification _) = False"
| "is_creation Deletion = False"

fun is_modification :: "write_op \<Rightarrow> bool" where
  "is_modification (Modification _) = True"
| "is_modification (Creation _) = False"
| "is_modification Deletion = False"

fun extract_raw_bytes :: "write_op \<Rightarrow> bytes option" where
  "extract_raw_bytes (Creation v) = Some v"
| "extract_raw_bytes (Modification v) = Some v"
| "extract_raw_bytes Deletion = None"

section \<open>Write sets\<close>

type_synonym 'k write_set_mut = "('k, write_op) btree_map"

datatype 'k write_set = V0 "'k write_set_mut"

fun into_mut :: "'k write_set \<Rightarrow> 'k write_set_mut" where
  "into_mut (V0 write_set) = write_set"

definition wsm_new :: "('k::linorder \<times> write_op) list \<Rightarrow> 'k write_set_mut" where
  "wsm_new write_ops = btm_of_list write_ops"

definition wsm_insert :: "'k::linorder \<times> write_op \<Rightarrow> 'k write_set_mut \<Rightarrow> 'k write_set_mut" where
  "wsm_insert item ws = btm_insert (fst item) (snd item) ws"

datatype anyhow_error = CannotBeSquashed | AggregatorValueDeleted | DeserializationError
  | DeltaError | CheckerError string

definition wsm_freeze :: "'k write_set_mut \<Rightarrow> anyhow_error + 'k write_set" where
  "wsm_freeze ws = Inr (V0 ws)"

text \<open>\<^verbatim>\<open>FromIterator for WriteSetMut\<close>: insert the items one by one into the default write set.\<close>

fun wsm_from_iter :: "('k::linorder \<times> write_op) list \<Rightarrow> 'k write_set_mut" where
  "wsm_from_iter xs = foldl (\<lambda>ws w. wsm_insert w ws) [] xs"

text \<open>
  The match on an occupied entry in \<^verbatim>\<open>squash\<close>: the operation that stays in the entry, or \<open>None\<close> when
  the entry is removed.
\<close>

fun squash_entry :: "write_op \<Rightarrow> write_op \<Rightarrow> anyhow_error + write_op option" where
  "squash_entry (Modification _) (Creation _) = Inl CannotBeSquashed"
| "squash_entry (Creation _) (Creation _) = Inl CannotBeSquashed"
| "squash_entry Deletion Deletion = Inl CannotBeSquashed"
| "squash_entry Deletion (Modification _) = Inl CannotBeSquashed"
| "squash_entry (Modification _) (Modification data) = Inr (Some (Modification data))"
| "squash_entry (Creation _) (Modification data) = Inr (Some (Creation data))"
| "squash_entry (Modification _) Deletion = Inr (Some Deletion)"
| "squash_entry Deletion (Creation data) = Inr (Some (Modification data))"
| "squash_entry (Creation _) Deletion = Inr None"

fun wsm_squash_loop ::
  "'k::linorder write_set_mut \<Rightarrow> ('k \<times> write_op) list \<Rightarrow> anyhow_error + 'k write_set_mut" where
  "wsm_squash_loop ws [] = Inr ws"
| "wsm_squash_loop ws ((key, op) # rest) =
     (case btm_get ws key of
        Some r \<Rightarrow>
          and_then (squash_entry r op) (\<lambda>entry.
            case entry of
              Some op' \<Rightarrow> wsm_squash_loop (btm_insert key op' ws) rest
            | None \<Rightarrow> wsm_squash_loop (btm_remove key ws) rest)
      | None \<Rightarrow> wsm_squash_loop (btm_insert key op ws) rest)"

definition wsm_squash ::
  "'k::linorder write_set_mut \<Rightarrow> 'k write_set_mut \<Rightarrow> anyhow_error + 'k write_set_mut" where
  "wsm_squash self other = wsm_squash_loop self other"

section \<open>Specification: the effect of a write set on a state\<close>

text \<open>A creation needs a fresh key; a modification and a deletion need an existing one.\<close>

fun op_applicable :: "write_op \<Rightarrow> bytes option \<Rightarrow> bool" where
  "op_applicable (Creation _) old = (old = None)"
| "op_applicable (Modification _) old = (old \<noteq> None)"
| "op_applicable Deletion old = (old \<noteq> None)"

definition opt_applicable :: "write_op option \<Rightarrow> bytes option \<Rightarrow> bool" where
  "opt_applicable w old = (case w of None \<Rightarrow> True | Some op \<Rightarrow> op_applicable op old)"

definition opt_apply :: "write_op option \<Rightarrow> bytes option \<Rightarrow> bytes option" where
  "opt_apply w old = (case w of None \<Rightarrow> old | Some op \<Rightarrow> extract_raw_bytes op)"

definition ws_applicable :: "'k::linorder write_set_mut \<Rightarrow> ('k \<rightharpoonup> bytes) \<Rightarrow> bool" where
  "ws_applicable ws st \<longleftrightarrow> (\<forall>k. opt_applicable (btm_get ws k) (st k))"

definition ws_apply :: "'k::linorder write_set_mut \<Rightarrow> ('k \<rightharpoonup> bytes) \<Rightarrow> ('k \<rightharpoonup> bytes)" where
  "ws_apply ws st k = opt_apply (btm_get ws k) (st k)"

text \<open>Squashing two optional operations on one key.\<close>

fun squash_at :: "write_op option \<Rightarrow> write_op option \<Rightarrow> anyhow_error + write_op option" where
  "squash_at w None = Inr w"
| "squash_at None (Some op) = Inr (Some op)"
| "squash_at (Some r) (Some op) = squash_entry r op"

lemma squash_at_refines:
  assumes "opt_applicable w1 old" and "opt_applicable w2 (opt_apply w1 old)"
  shows "\<exists>w. squash_at w1 w2 = Inr w \<and> opt_applicable w old
           \<and> opt_apply w old = opt_apply w2 (opt_apply w1 old)"
proof (cases w1)
  case None
  with assms(2) show ?thesis by (cases w2) (auto simp: opt_apply_def)
next
  case (Some r)
  show ?thesis
  proof (cases w2)
    case None
    with assms(1) show ?thesis by (simp add: opt_apply_def)
  next
    case (Some op)
    with \<open>w1 = Some r\<close> assms show ?thesis
      by (cases r; cases op) (auto simp: opt_applicable_def opt_apply_def)
  qed
qed

section \<open>The loop works key by key\<close>

lemma wsm_squash_loop_step:
  "wsm_squash_loop ws ((key, op) # rest) =
     and_then (squash_at (btm_get ws key) (Some op)) (\<lambda>w.
       wsm_squash_loop (case w of Some op' \<Rightarrow> btm_insert key op' ws | None \<Rightarrow> btm_remove key ws) rest)"
  by (cases "btm_get ws key"; cases "squash_at (btm_get ws key) (Some op)")
    (auto split: option.splits)

lemma btm_put_get:
  assumes "btm_wf ws"
  shows "btm_wf (case w of Some op' \<Rightarrow> btm_insert key op' ws | None \<Rightarrow> btm_remove key ws)"
    and "btm_get (case w of Some op' \<Rightarrow> btm_insert key op' ws | None \<Rightarrow> btm_remove key ws)
           = (btm_get ws)(key := w)"
  using assms by (auto simp: btm_simps split: option.splits)

declare wsm_squash_loop.simps(2) [simp del]

lemma wsm_squash_loop_ok:
  assumes "btm_wf ws" and "distinct (map fst xs)"
    and "\<And>k. squash_at (btm_get ws k) (map_of xs k) = Inr (f k)"
  shows "\<exists>ws'. wsm_squash_loop ws xs = Inr ws' \<and> btm_wf ws' \<and> btm_get ws' = f"
  using assms
proof (induction xs arbitrary: ws)
  case Nil
  then show ?case by auto
next
  case (Cons x xs)
  obtain key op where x: "x = (key, op)" by force
  let ?ws = "case f key of Some op' \<Rightarrow> btm_insert key op' ws | None \<Rightarrow> btm_remove key ws"
  have fresh: "map_of xs key = None"
    using Cons.prems(2) x by (simp add: map_of_eq_None_iff)
  have "squash_at (btm_get ws key) (Some op) = Inr (f key)"
    using Cons.prems(3) [of key] x by simp
  moreover have "squash_at (btm_get ?ws k) (map_of xs k) = Inr (f k)" for k
    using Cons.prems(3) [of k] x fresh by (cases "k = key") (auto simp: btm_put_get [OF Cons.prems(1)])
  ultimately show ?case
    using Cons.IH [of ?ws] Cons.prems(1,2) x by (simp add: wsm_squash_loop_step btm_put_get)
qed

lemma wsm_squash_loop_err:
  assumes "btm_wf ws" and "distinct (map fst xs)"
    and "squash_at (btm_get ws k) (map_of xs k) = Inl e"
  shows "\<exists>e. wsm_squash_loop ws xs = Inl e"
  using assms
proof (induction xs arbitrary: ws)
  case Nil
  then show ?case by simp
next
  case (Cons x xs)
  obtain key op where x: "x = (key, op)" by force
  show ?case
  proof (cases "squash_at (btm_get ws key) (Some op)")
    case (Inl e')
    with x show ?thesis by (simp add: wsm_squash_loop_step)
  next
    case (Inr w)
    let ?ws = "case w of Some op' \<Rightarrow> btm_insert key op' ws | None \<Rightarrow> btm_remove key ws"
    have "k \<noteq> key"
      using Cons.prems(3) Inr x by auto
    then have "squash_at (btm_get ?ws k) (map_of xs k) = Inl e"
      using Cons.prems(3) x by (simp add: btm_put_get [OF Cons.prems(1)])
    with Cons.IH [of ?ws] Cons.prems(1,2) Inr x show ?thesis
      by (simp add: wsm_squash_loop_step btm_put_get)
  qed
qed

lemma wsm_squash_ok:
  assumes "btm_wf ws1" and "btm_wf ws2"
    and "\<And>k. squash_at (btm_get ws1 k) (btm_get ws2 k) = Inr (f k)"
  shows "\<exists>ws. wsm_squash ws1 ws2 = Inr ws \<and> btm_wf ws \<and> btm_get ws = f"
  unfolding wsm_squash_def
  using assms by (intro wsm_squash_loop_ok) (auto simp: btm.distinct_keys btm_get_def)

section \<open>Properties\<close>



text \<open>
  Squashing fails exactly on a conflict: \<^verbatim>\<open>WriteSetMut::squash\<close> returns an error if and only if some
  key has a pair of operations the match rejects (a creation over a live value, or a modification or
  deletion over a deletion).
\<close>

theorem wsm_squash_fails_iff_conflict:
  assumes "btm_wf ws1" and "btm_wf ws2"
  shows "(\<exists>e. wsm_squash ws1 ws2 = Inl e) \<longleftrightarrow>
    (\<exists>k r op. btm_get ws1 k = Some r \<and> btm_get ws2 k = Some op \<and>
       (r \<noteq> Deletion \<and> is_creation op \<or> r = Deletion \<and> \<not> is_creation op))"
proof -
  have at: "(\<exists>e. squash_at w1 w2 = Inl e) \<longleftrightarrow> (\<exists>r op. w1 = Some r \<and> w2 = Some op \<and>
       (r \<noteq> Deletion \<and> is_creation op \<or> r = Deletion \<and> \<not> is_creation op))" for w1 w2
  proof (cases "w1 = None \<or> w2 = None")
    case True
    then show ?thesis by (cases w1; cases w2) auto
  next
    case False
    then obtain r op where "w1 = Some r" "w2 = Some op" by auto
    then show ?thesis by (cases r; cases op) auto
  qed
  have "(\<exists>e. wsm_squash ws1 ws2 = Inl e) \<longleftrightarrow>
      (\<exists>k e. squash_at (btm_get ws1 k) (btm_get ws2 k) = Inl e)"
  proof
    assume "\<exists>e. wsm_squash ws1 ws2 = Inl e"
    show "\<exists>k e. squash_at (btm_get ws1 k) (btm_get ws2 k) = Inl e"
    proof (rule ccontr)
      assume "\<not> ?thesis"
      then have "\<forall>k. \<exists>w. squash_at (btm_get ws1 k) (btm_get ws2 k) = Inr w"
        by (metis sum.exhaust)
      then obtain f where "\<And>k. squash_at (btm_get ws1 k) (btm_get ws2 k) = Inr (f k)" by metis
      from wsm_squash_ok [OF assms this] \<open>\<exists>e. wsm_squash ws1 ws2 = Inl e\<close> show False by auto
    qed
  next
    assume "\<exists>k e. squash_at (btm_get ws1 k) (btm_get ws2 k) = Inl e"
    then show "\<exists>e. wsm_squash ws1 ws2 = Inl e"
      unfolding wsm_squash_def btm_get_def
      using wsm_squash_loop_err [OF assms(1), of ws2] assms(2)
      by (auto simp: btm.distinct_keys btm_get_def)
  qed
  then show ?thesis by (simp only: at)
qed

theorem wsm_squash_fails_iff_conflict_witness:
  "(\<exists>e. wsm_squash [(1::nat, Deletion)] [(1, Modification [8])] = Inl e) \<longleftrightarrow>
    (\<exists>k r op. btm_get [(1::nat, Deletion)] k = Some r \<and> btm_get [(1, Modification [8])] k = Some op \<and>
       (r \<noteq> Deletion \<and> is_creation op \<or> r = Deletion \<and> \<not> is_creation op))"
  by (rule wsm_squash_fails_iff_conflict) (simp_all add: btm_wf_def)

text \<open>The two ways to build a write set from an iterator agree.\<close>

lemma wsm_from_iter_eq_new: "wsm_from_iter xs = wsm_new xs"
  by (simp add: wsm_new_def btm_of_list_def wsm_insert_def foldl_conv_fold split_def)

end
