(* ===== verification/Delta.thy ===== *)
theory Delta
  imports WriteSet
begin

text \<open>
  Aggregator deltas (\<^verbatim>\<open>language/ol-aggregator/src/delta_change_set.rs\<close>): the checked arithmetic, delta
  operations with the history of the values they passed through, applying a delta, merging a delta
  onto an earlier one, and materialising a delta change set into writes. The locale \<open>delta_algebra\<close>
  is the contract that the multi-version map and the squashing of change sets rely on.
\<close>

section \<open>Errors\<close>

datatype status_code = ABORTED | VM_EXTENSION_ERROR | STORAGE_ERROR

datatype vm_message = OverflowWhenAdding u128 u128 | UnderflowWhenSubtracting u128 u128
  | ExtensionMessage string

record partial_vm_error =
  major_status :: status_code
  message :: vm_message
  sub_status :: "u64 option"

definition EADD_OVERFLOW :: u64 where
  "EADD_OVERFLOW = 0x020001"

definition ESUB_UNDERFLOW :: u64 where
  "ESUB_UNDERFLOW = 0x020002"

definition abort_error :: "vm_message \<Rightarrow> u64 \<Rightarrow> partial_vm_error" where
  "abort_error msg code = \<lparr>major_status = ABORTED, message = msg, sub_status = Some code\<rparr>"

section \<open>Checked arithmetic\<close>

definition addition :: "u128 \<Rightarrow> u128 \<Rightarrow> u128 \<Rightarrow> partial_vm_error + u128" where
  "addition base val lim =
     (if lim < base \<or> val > lim - base
      then Inl (abort_error (OverflowWhenAdding val base) EADD_OVERFLOW)
      else Inr (base + val))"

definition subtraction :: "u128 \<Rightarrow> u128 \<Rightarrow> partial_vm_error + u128" where
  "subtraction base val =
     (if val > base
      then Inl (abort_error (UnderflowWhenSubtracting val base) ESUB_UNDERFLOW)
      else Inr (base - val))"

section \<open>Delta operations\<close>

datatype delta_update = Plus u128 | Minus u128

record delta_op =
  max_positive :: u128
  min_negative :: u128
  limit :: u128
  update :: delta_update

definition delta_new :: "delta_update \<Rightarrow> u128 \<Rightarrow> u128 \<Rightarrow> u128 \<Rightarrow> delta_op" where
  "delta_new upd lim max_pos min_neg =
     \<lparr>max_positive = max_pos, min_negative = min_neg, limit = lim, update = upd\<rparr>"

definition delta_sub :: "u128 \<Rightarrow> u128 \<Rightarrow> delta_op" where
  "delta_sub v lim = delta_new (Minus v) lim 0 v"

definition delta_add :: "u128 \<Rightarrow> u128 \<Rightarrow> delta_op" where
  "delta_add v lim = delta_new (Plus v) lim v 0"

definition apply_to :: "delta_op \<Rightarrow> u128 \<Rightarrow> partial_vm_error + u128" where
  "apply_to d base =
     and_then (addition base (max_positive d) (limit d)) (\<lambda>_.
     and_then (subtraction base (min_negative d)) (\<lambda>_.
     case update d of
       Plus v \<Rightarrow> addition base v (limit d)
     | Minus v \<Rightarrow> subtraction base v))"

definition shifted_max_positive_by :: "delta_op \<Rightarrow> delta_op \<Rightarrow> partial_vm_error + u128" where
  "shifted_max_positive_by self d =
     (case update d of
        Plus v \<Rightarrow> addition v (max_positive self) (limit self)
      | Minus v \<Rightarrow> Inr (unwrap_or 0 (subtraction (max_positive self) v)))"

definition shifted_min_negative_by :: "delta_op \<Rightarrow> delta_op \<Rightarrow> partial_vm_error + u128" where
  "shifted_min_negative_by self d =
     (case update d of
        Plus v \<Rightarrow> Inr (unwrap_or 0 (subtraction (min_negative self) v))
      | Minus v \<Rightarrow> addition v (min_negative self) (limit self))"

text \<open>The macros \<^verbatim>\<open>update_same_sign!\<close> and \<^verbatim>\<open>update_different_sign!\<close>, and the match that uses them.\<close>

definition update_same_sign ::
  "(u128 \<Rightarrow> delta_update) \<Rightarrow> u128 \<Rightarrow> u128 \<Rightarrow> u128 \<Rightarrow> partial_vm_error + delta_update" where
  "update_same_sign sign a b lim = and_then (addition a b lim) (\<lambda>v. Inr (sign v))"

definition update_different_sign :: "u128 \<Rightarrow> u128 \<Rightarrow> partial_vm_error + delta_update" where
  "update_different_sign a b =
     (if a \<ge> b then and_then (subtraction a b) (\<lambda>v. Inr (Plus v))
      else and_then (subtraction b a) (\<lambda>v. Inr (Minus v)))"

fun merge_update :: "delta_update \<Rightarrow> delta_update \<Rightarrow> u128 \<Rightarrow> partial_vm_error + delta_update" where
  "merge_update (Plus prev_value) (Plus self_value) lim = update_same_sign Plus prev_value self_value lim"
| "merge_update (Plus prev_value) (Minus self_value) lim = update_different_sign prev_value self_value"
| "merge_update (Minus prev_value) (Plus self_value) lim = update_different_sign self_value prev_value"
| "merge_update (Minus prev_value) (Minus self_value) lim = update_same_sign Minus prev_value self_value lim"

definition merge_onto :: "delta_op \<Rightarrow> delta_op \<Rightarrow> partial_vm_error + delta_op" where
  "merge_onto self previous_delta =
     and_then (shifted_max_positive_by self previous_delta) (\<lambda>shifted_max_positive.
     and_then (shifted_min_negative_by self previous_delta) (\<lambda>shifted_min_negative.
     and_then (merge_update (update previous_delta) (update self) (limit self)) (\<lambda>upd.
     Inr (self\<lparr>update := upd,
            max_positive := max (max_positive previous_delta) shifted_max_positive,
            min_negative := max (min_negative previous_delta) shifted_min_negative\<rparr>))))"

section \<open>The arithmetic in natural numbers\<close>

lemma addition_Inr_iff [to_nat_simps]:
  "addition b v l = Inr r \<longleftrightarrow> unat r = unat b + unat v \<and> unat r \<le> unat l"
proof (cases "unat b + unat v \<le> unat l")
  case True
  then have "unat (b + v) = unat b + unat v" by (rule unat_add_eq)
  moreover have "addition b v l = Inr (b + v)"
    using True by (simp add: addition_def unat_add_le_iff del: not_less)
  ultimately show ?thesis using True by (auto simp: word_unat_eq_iff)
next
  case False
  then show ?thesis by (auto simp: addition_def unat_add_le_iff)
qed

lemma subtraction_Inr_iff [to_nat_simps]:
  "subtraction b v = Inr r \<longleftrightarrow> unat b = unat r + unat v"
proof (cases "v \<le> b")
  case True
  then have "unat (b - v) = unat b - unat v" "unat v \<le> unat b"
    by (simp_all add: unat_sub word_le_nat_alt)
  moreover have "subtraction b v = Inr (b - v)" using True by (simp add: subtraction_def)
  ultimately show ?thesis by (auto simp: word_unat_eq_iff)
next
  case False
  then have "unat b < unat v" by (simp add: word_le_nat_alt)
  with False show ?thesis by (simp add: subtraction_def not_le)
qed

lemma addition_Inl_iff: "(\<exists>e. addition b v l = Inl e) \<longleftrightarrow> unat l < unat b + unat v"
  by (auto simp: addition_def unat_add_le_iff)

lemma subtraction_Inl_iff: "(\<exists>e. subtraction b v = Inl e) \<longleftrightarrow> unat b < unat v"
  by (auto simp: subtraction_def word_less_nat_alt)

lemma unwrap_subtraction: "unat (unwrap_or 0 (subtraction a b)) = unat a - unat b"
proof (cases "subtraction a b")
  case (Inl e)
  then have "unat a < unat b" using subtraction_Inl_iff by blast
  with Inl show ?thesis by simp
next
  case (Inr r)
  then show ?thesis using subtraction_Inr_iff [of a b r] by simp
qed

lemma addition_cases:
  obtains (overflow) e where "addition b v l = Inl e" "unat l < unat b + unat v"
  | (fits) r where "addition b v l = Inr r" "unat r = unat b + unat v" "unat r \<le> unat l"
  using addition_Inl_iff addition_Inr_iff by (cases "addition b v l") blast+

lemma subtraction_cases:
  obtains (underflow) e where "subtraction b v = Inl e" "unat b < unat v"
  | (fits) r where "subtraction b v = Inr r" "unat b = unat r + unat v"
  using subtraction_Inl_iff subtraction_Inr_iff by (cases "subtraction b v") blast+

lemma addition_ok: "unat b + unat v \<le> unat l \<Longrightarrow> \<exists>r. addition b v l = Inr r"
  by (cases rule: addition_cases [of b v l]) auto

section \<open>Deltas as signed integers\<close>

text \<open>
  The specification of a delta: a signed amount, together with the largest and the smallest partial
  sum seen on the way, which must stay within zero and the limit.
\<close>

definition signed :: "delta_update \<Rightarrow> int" where
  "signed u = (case u of Plus v \<Rightarrow> int (unat v) | Minus v \<Rightarrow> - int (unat v))"

text \<open>The history of a well-formed delta covers its final amount.\<close>

definition delta_wf :: "delta_op \<Rightarrow> bool" where
  "delta_wf d = (case update d of Plus v \<Rightarrow> v \<le> max_positive d | Minus v \<Rightarrow> v \<le> min_negative d)"

lemma signed_simps [simp]:
  "signed (Plus v) = int (unat v)"
  "signed (Minus v) = - int (unat v)"
  by (simp_all add: signed_def)

lemma delta_wf_signed:
  "delta_wf d \<longleftrightarrow> signed (update d) \<le> int (unat (max_positive d))
     \<and> - int (unat (min_negative d)) \<le> signed (update d)"
  by (auto simp: delta_wf_def word_le_nat_alt split: delta_update.splits)

lemma apply_to_Inr_iff:
  assumes "delta_wf d"
  shows "apply_to d b = Inr r \<longleftrightarrow>
    int (unat b) + int (unat (max_positive d)) \<le> int (unat (limit d))
    \<and> int (unat (min_negative d)) \<le> int (unat b)
    \<and> int (unat r) = int (unat b) + signed (update d)"
proof -
  have A: "(\<exists>x. addition b m l = Inr x) \<longleftrightarrow> unat b + unat m \<le> unat l" for m l
    by (cases rule: addition_cases [of b m l]) auto
  have S: "(\<exists>x. subtraction b m = Inr x) \<longleftrightarrow> unat m \<le> unat b" for m
    by (cases rule: subtraction_cases [of b m]) auto
  have "apply_to d b = Inr r \<longleftrightarrow>
      unat b + unat (max_positive d) \<le> unat (limit d) \<and> unat (min_negative d) \<le> unat b \<and>
      (case update d of Plus v \<Rightarrow> addition b v (limit d) = Inr r | Minus v \<Rightarrow> subtraction b v = Inr r)"
    unfolding A [symmetric] S [symmetric]
    by (auto simp: apply_to_def and_then_eq_Inr_iff split: delta_update.splits)
  with assms show ?thesis
    by (auto simp: to_nat_simps delta_wf_def word_le_nat_alt split: delta_update.splits)
qed

lemma signed_merge_update:
  assumes "merge_update p u l = Inr m"
  shows "signed m = signed p + signed u"
  using assms
  by (cases p; cases u)
    (auto simp: update_same_sign_def update_different_sign_def and_then_eq_Inr_iff to_nat_simps
      split: if_splits)

lemma shifted_max_signed:
  assumes "shifted_max_positive_by d2 d1 = Inr m"
  shows "int (unat m) = max 0 (signed (update d1) + int (unat (max_positive d2)))"
  using assms
  by (auto simp: shifted_max_positive_by_def to_nat_simps unwrap_subtraction split: delta_update.splits)

lemma shifted_min_signed:
  assumes "shifted_min_negative_by d2 d1 = Inr m"
  shows "int (unat m) = max 0 (int (unat (min_negative d2)) - signed (update d1))"
  using assms
  by (auto simp: shifted_min_negative_by_def to_nat_simps unwrap_subtraction split: delta_update.splits)

lemma merge_onto_InrD:
  assumes "merge_onto d2 d1 = Inr d"
  shows "limit d = limit d2"
    and "signed (update d) = signed (update d1) + signed (update d2)"
    and "int (unat (max_positive d)) =
      max (int (unat (max_positive d1))) (max 0 (signed (update d1) + int (unat (max_positive d2))))"
    and "int (unat (min_negative d)) =
      max (int (unat (min_negative d1))) (max 0 (int (unat (min_negative d2)) - signed (update d1)))"
proof -
  from assms obtain sm sn u where
    sm: "shifted_max_positive_by d2 d1 = Inr sm" and
    sn: "shifted_min_negative_by d2 d1 = Inr sn" and
    u: "merge_update (update d1) (update d2) (limit d2) = Inr u" and
    d: "d = d2\<lparr>update := u, max_positive := max (max_positive d1) sm,
                min_negative := max (min_negative d1) sn\<rparr>"
    by (auto simp: merge_onto_def and_then_eq_Inr_iff)
  show "limit d = limit d2" using d by simp
  show "signed (update d) = signed (update d1) + signed (update d2)"
    using d signed_merge_update [OF u] by simp
  show "int (unat (max_positive d)) =
      max (int (unat (max_positive d1))) (max 0 (signed (update d1) + int (unat (max_positive d2))))"
    using d shifted_max_signed [OF sm] by (simp add: unat_max of_nat_max)
  show "int (unat (min_negative d)) =
      max (int (unat (min_negative d1))) (max 0 (int (unat (min_negative d2)) - signed (update d1)))"
    using d shifted_min_signed [OF sn] by (simp add: unat_max of_nat_max)
qed

lemma merge_onto_wf:
  assumes "delta_wf d1" and "delta_wf d2" and "merge_onto d2 d1 = Inr d"
  shows "delta_wf d"
  using assms(1,2) unfolding delta_wf_signed merge_onto_InrD [OF assms(3)] by linarith

text \<open>Applying a merged delta is applying the two deltas in order.\<close>

lemma merge_onto_apply:
  assumes wf: "delta_wf d1" "delta_wf d2" and lim: "limit d1 = limit d2"
    and merge: "merge_onto d2 d1 = Inr d"
  shows "result_ok (apply_to d b) = result_ok (and_then (apply_to d1 b) (apply_to d2))"
proof (rule result_ok_eqI)
  fix r
  note d = apply_to_Inr_iff [OF merge_onto_wf [OF wf merge]] merge_onto_InrD [OF merge]
  show "apply_to d b = Inr r \<longleftrightarrow> and_then (apply_to d1 b) (apply_to d2) = Inr r"
  proof
    assume "apply_to d b = Inr r"
    then have r: "int (unat b) + int (unat (max_positive d)) \<le> int (unat (limit d2))"
      "int (unat (min_negative d)) \<le> int (unat b)"
      "int (unat r) = int (unat b) + (signed (update d1) + signed (update d2))"
      unfolding d(1,2,3) by auto
    note h = r(1,2) [unfolded d(4,5)] wf [unfolded delta_wf_signed]
    have "0 \<le> int (unat b) + signed (update d1)"
      and "int (unat b) + signed (update d1) \<le> int (unat (limit d2))"
      using h by linarith+
    then obtain m :: u128 where m: "int (unat m) = int (unat b) + signed (update d1)"
      by (rule word_of_value)
    have "apply_to d1 b = Inr m"
      unfolding apply_to_Inr_iff [OF wf(1)] lim m using h by linarith
    moreover have "apply_to d2 m = Inr r"
      unfolding apply_to_Inr_iff [OF wf(2)] m using h r(3) by linarith
    ultimately show "and_then (apply_to d1 b) (apply_to d2) = Inr r" by simp
  next
    assume "and_then (apply_to d1 b) (apply_to d2) = Inr r"
    then obtain m where "apply_to d1 b = Inr m" "apply_to d2 m = Inr r"
      by (auto simp: and_then_eq_Inr_iff)
    then show "apply_to d b = Inr r"
      unfolding d apply_to_Inr_iff [OF wf(1)] apply_to_Inr_iff [OF wf(2)] lim
      using wf [unfolded delta_wf_signed] by linarith
  qed
qed

text \<open>A failed merge means that the two deltas cannot be applied in order to any value.\<close>

lemma merge_update_fails_only_on_overflow:
  assumes "merge_update p u l = Inl e"
  shows "unat l < unat (case p of Plus v \<Rightarrow> v | Minus v \<Rightarrow> v) + unat (case u of Plus v \<Rightarrow> v | Minus v \<Rightarrow> v)"
    and "(\<exists>v w. p = Plus v \<and> u = Plus w) \<or> (\<exists>v w. p = Minus v \<and> u = Minus w)"
  using assms
  by (cases p; cases u;
      auto simp: update_same_sign_def update_different_sign_def and_then_eq_Inl_iff subtraction_def
        addition_def unat_add_le_iff split: if_splits)+

lemma merge_onto_fails:
  assumes wf: "delta_wf d1" "delta_wf d2" and lim: "limit d1 = limit d2"
    and merge: "merge_onto d2 d1 = Inl e"
  shows "result_ok (and_then (apply_to d1 b) (apply_to d2)) = None"
proof (rule ccontr)
  assume "result_ok (and_then (apply_to d1 b) (apply_to d2)) \<noteq> None"
  then obtain m r where "apply_to d1 b = Inr m" "apply_to d2 m = Inr r"
    by (auto simp: and_then_eq_Inr_iff)
  then have h: "int (unat b) + int (unat (max_positive d1)) \<le> int (unat (limit d2))"
    "int (unat (min_negative d1)) \<le> int (unat b)"
    "int (unat b) + signed (update d1) + int (unat (max_positive d2)) \<le> int (unat (limit d2))"
    "int (unat (min_negative d2)) \<le> int (unat b) + signed (update d1)"
    unfolding apply_to_Inr_iff [OF wf(1)] apply_to_Inr_iff [OF wf(2)] lim by auto
  note w = wf [unfolded delta_wf_signed]
  have smax: "\<exists>sm. shifted_max_positive_by d2 d1 = Inr sm"
    using h by (cases "update d1")
      (auto simp: shifted_max_positive_by_def intro!: addition_ok)
  have smin: "\<exists>sn. shifted_min_negative_by d2 d1 = Inr sn"
    using h by (cases "update d1")
      (auto simp: shifted_min_negative_by_def intro!: addition_ok)
  have "\<exists>u. merge_update (update d1) (update d2) (limit d2) = Inr u"
  proof (cases "merge_update (update d1) (update d2) (limit d2)")
    case (Inl e')
    from merge_update_fails_only_on_overflow [OF this] h w show ?thesis
      by (auto split: delta_update.splits)
  qed simp
  with smax smin merge show False by (auto simp: merge_onto_def)
qed

section \<open>Sequences of deltas\<close>

text \<open>Running deltas in order, the oldest first, and accumulating them from the newest down.\<close>

fun run_deltas :: "('d \<Rightarrow> 'v \<Rightarrow> 'v option) \<Rightarrow> 'd list \<Rightarrow> 'v \<Rightarrow> 'v option" where
  "run_deltas app [] b = Some b"
| "run_deltas app (d # ds) b = Option.bind (app d b) (\<lambda>x. run_deltas app ds x)"

fun accumulate :: "('d \<Rightarrow> 'd \<Rightarrow> 'd option) \<Rightarrow> 'd option \<Rightarrow> 'd list \<Rightarrow> 'd option" where
  "accumulate mrg acc [] = acc"
| "accumulate mrg acc (p # ps) = accumulate mrg (Option.bind acc (\<lambda>a. mrg a p)) ps"

lemma run_deltas_append:
  "run_deltas app (xs @ ys) b = Option.bind (run_deltas app xs b) (run_deltas app ys)"
  by (induction xs arbitrary: b) (auto split: Option.bind_splits)

lemma run_deltas_single [simp]: "run_deltas app [d] = app d"
  by (auto simp: fun_eq_iff split: Option.bind_splits)

lemma accumulate_None [simp]: "accumulate mrg None ps = None"
  by (induction ps) auto

text \<open>The contract of an algebra of deltas: merging is composition, and fails only if composition does.\<close>

locale delta_algebra =
  fixes app :: "'d \<Rightarrow> 'v \<Rightarrow> 'v option"
    and mrg :: "'d \<Rightarrow> 'd \<Rightarrow> 'd option"
    and valid :: "'d \<Rightarrow> bool"
  assumes mrg_valid: "valid d1 \<Longrightarrow> valid d2 \<Longrightarrow> mrg d2 d1 = Some d \<Longrightarrow> valid d"
    and mrg_app: "valid d1 \<Longrightarrow> valid d2 \<Longrightarrow> mrg d2 d1 = Some d \<Longrightarrow> app d b = Option.bind (app d1 b) (app d2)"
    and mrg_fails: "valid d1 \<Longrightarrow> valid d2 \<Longrightarrow> mrg d2 d1 = None \<Longrightarrow> Option.bind (app d1 b) (app d2) = None"
begin

lemma accumulate_run:
  assumes "valid d" and "list_all valid ps"
  shows "case accumulate mrg (Some d) ps of
      Some r \<Rightarrow> valid r \<and> app r b = run_deltas app (rev ps @ [d]) b
    | None \<Rightarrow> run_deltas app (rev ps @ [d]) b = None"
  using assms
proof (induction ps arbitrary: d)
  case Nil
  then show ?case by simp
next
  case (Cons p ps)
  then have p: "valid p" and ps: "list_all valid ps" by auto
  have run: "run_deltas app (rev (p # ps) @ [d]) b
      = Option.bind (run_deltas app (rev ps) b) (\<lambda>x. Option.bind (app p x) (app d))"
    by (cases "run_deltas app (rev ps) b") (simp_all add: run_deltas_append)
  show ?case
  proof (cases "mrg d p")
    case None
    then have "Option.bind (app p x) (app d) = None" for x
      using mrg_fails [OF p Cons.prems(1)] by blast
    with None run show ?thesis by (cases "run_deltas app (rev ps) b") auto
  next
    case (Some d')
    have "app d' = (\<lambda>x. Option.bind (app p x) (app d))"
      using mrg_app [OF p Cons.prems(1) Some] by blast
    then have "run_deltas app (rev (p # ps) @ [d]) b = run_deltas app (rev ps @ [d']) b"
      unfolding run by (simp add: run_deltas_append)
    moreover have "accumulate mrg (Some d) (p # ps) = accumulate mrg (Some d') ps"
      using Some by simp
    moreover have "valid d'" by (rule mrg_valid [OF p Cons.prems(1) Some])
    ultimately show ?thesis using Cons.IH [OF _ ps, of d'] by (simp only:)
  qed
qed

end

text \<open>The deltas of one aggregator all carry its limit.\<close>

definition delta_valid :: "u128 \<Rightarrow> delta_op \<Rightarrow> bool" where
  "delta_valid lim d \<longleftrightarrow> delta_wf d \<and> limit d = lim"

definition apply_ok :: "delta_op \<Rightarrow> u128 \<Rightarrow> u128 option" where
  "apply_ok d b = result_ok (apply_to d b)"

definition merge_ok :: "delta_op \<Rightarrow> delta_op \<Rightarrow> delta_op option" where
  "merge_ok d2 d1 = result_ok (merge_onto d2 d1)"

lemma result_ok_and_then: "result_ok (and_then r f) = Option.bind (result_ok r) (\<lambda>x. result_ok (f x))"
  by (cases r) auto

interpretation deltas: delta_algebra apply_ok merge_ok "delta_valid lim" for lim
proof
  fix d1 d2 d b
  assume v: "delta_valid lim d1" "delta_valid lim d2"
  show "delta_valid lim d" if "merge_ok d2 d1 = Some d"
    using that v merge_onto_wf merge_onto_InrD(1) by (auto simp: merge_ok_def delta_valid_def)
  show "apply_ok d b = Option.bind (apply_ok d1 b) (apply_ok d2)" if "merge_ok d2 d1 = Some d"
    using that v merge_onto_apply [of d1 d2 d b]
    by (auto simp: merge_ok_def delta_valid_def apply_ok_def [abs_def] result_ok_and_then)
  show "Option.bind (apply_ok d1 b) (apply_ok d2) = None" if "merge_ok d2 d1 = None"
    using that v merge_onto_fails [of d1 d2 _ b]
    by (auto simp: merge_ok_def delta_valid_def apply_ok_def [abs_def] result_ok_and_then
        result_ok_eq_None_iff)
qed

lemma delta_valid_add: "delta_valid lim (delta_add v lim)"
  and delta_valid_sub: "delta_valid lim (delta_sub v lim)"
  by (simp_all add: delta_valid_def delta_wf_def delta_add_def delta_sub_def delta_new_def)

section \<open>Delta change sets\<close>

text \<open>
  \<^verbatim>\<open>serialize\<close> and \<^verbatim>\<open>deserialize\<close> take the BCS codec as parameters. Serialising an integer does not
  fail; deserialising panics on malformed bytes.
\<close>

definition serialize :: "(u128 \<Rightarrow> bytes) \<Rightarrow> u128 \<Rightarrow> bytes" where
  "serialize to_bytes v = to_bytes v"

definition deserialize :: "(bytes \<Rightarrow> u128 option) \<Rightarrow> bytes \<Rightarrow> u128 outcome" where
  "deserialize from_bytes bs = expect (from_bytes bs)"

text \<open>A VM status: an error code, or a partial error with the location it was finished at.\<close>

datatype vm_status = VMStatusError status_code | InAggregatorModule partial_vm_error
  | AtUndefinedLocation partial_vm_error

definition try_into_write_op ::
  "(u128 \<Rightarrow> bytes) \<Rightarrow> (bytes \<Rightarrow> u128 option) \<Rightarrow> ('k \<Rightarrow> 'e + bytes option) \<Rightarrow> delta_op \<Rightarrow> 'k
     \<Rightarrow> (vm_status + write_op) outcome" where
  "try_into_write_op to_bytes from_bytes state_view self state_key =
     (case state_view state_key of
        Inl _ \<Rightarrow> Ret (Inl (VMStatusError STORAGE_ERROR))
      | Inr (Some bs) \<Rightarrow>
          out_bind (deserialize from_bytes bs) (\<lambda>base.
            Ret (and_then (map_err InAggregatorModule (apply_to self base)) (\<lambda>result.
              Inr (Modification (serialize to_bytes result)))))
      | Inr None \<Rightarrow> Ret (Inl (VMStatusError STORAGE_ERROR)))"

type_synonym 'k delta_change_set = "('k, delta_op) btree_map"

definition dcs_empty :: "'k delta_change_set" where
  "dcs_empty = []"

definition dcs_new :: "('k::linorder \<times> delta_op) list \<Rightarrow> 'k delta_change_set" where
  "dcs_new xs = btm_of_list xs"

definition dcs_insert :: "'k::linorder \<times> delta_op \<Rightarrow> 'k delta_change_set \<Rightarrow> 'k delta_change_set" where
  "dcs_insert delta s = btm_insert (fst delta) (snd delta) s"

definition dcs_remove ::
  "'k::linorder \<Rightarrow> 'k delta_change_set \<Rightarrow> delta_op option \<times> 'k delta_change_set" where
  "dcs_remove key s = (btm_get s key, btm_remove key s)"

fun materialize_loop ::
  "(u128 \<Rightarrow> bytes) \<Rightarrow> (bytes \<Rightarrow> u128 option) \<Rightarrow> ('k \<Rightarrow> 'e + bytes option) \<Rightarrow> ('k \<times> delta_op) list
     \<Rightarrow> ('k \<times> write_op) list \<Rightarrow> (vm_status + ('k \<times> write_op) list) outcome" where
  "materialize_loop to_bytes from_bytes state_view [] acc = Ret (Inr acc)"
| "materialize_loop to_bytes from_bytes state_view ((state_key, delta) # rest) acc =
     out_bind (try_into_write_op to_bytes from_bytes state_view delta state_key) (\<lambda>r.
       case r of
         Inl e \<Rightarrow> Ret (Inl e)
       | Inr op \<Rightarrow> materialize_loop to_bytes from_bytes state_view rest (acc @ [(state_key, op)]))"

definition try_into_write_set_mut ::
  "(u128 \<Rightarrow> bytes) \<Rightarrow> (bytes \<Rightarrow> u128 option) \<Rightarrow> ('k::linorder \<Rightarrow> 'e + bytes option) \<Rightarrow> 'k delta_change_set
     \<Rightarrow> (vm_status + 'k write_set_mut) outcome" where
  "try_into_write_set_mut to_bytes from_bytes state_view self =
     out_bind (materialize_loop to_bytes from_bytes state_view self []) (\<lambda>r.
       Ret (and_then r (\<lambda>writes. Inr (wsm_new writes))))"

section \<open>Materialising a change set\<close>

lemma try_into_write_op_Inr_iff:
  "try_into_write_op tb fb sv d k = Ret (Inr op) \<longleftrightarrow>
     (\<exists>bs b r. sv k = Inr (Some bs) \<and> fb bs = Some b \<and> apply_to d b = Inr r
        \<and> op = Modification (tb r))"
  by (auto simp: try_into_write_op_def deserialize_def serialize_def out_bind_eq_Ret_iff
      and_then_eq_Inr_iff split: sum.splits option.splits)

lemma materialize_loop_InrD:
  "materialize_loop tb fb sv xs acc = Ret (Inr ys) \<Longrightarrow>
     \<exists>ops. ys = acc @ zip (map fst xs) ops \<and> length ops = length xs \<and>
        list_all2 (\<lambda>(k, d) op. try_into_write_op tb fb sv d k = Ret (Inr op)) xs ops"
proof (induction xs arbitrary: acc)
  case Nil
  then show ?case by simp
next
  case (Cons x xs)
  obtain k d where x: "x = (k, d)" by force
  with Cons.prems obtain op where op: "try_into_write_op tb fb sv d k = Ret (Inr op)"
    and rest: "materialize_loop tb fb sv xs (acc @ [(k, op)]) = Ret (Inr ys)"
    by (cases "try_into_write_op tb fb sv d k"; cases "case try_into_write_op tb fb sv d k of Ret r \<Rightarrow> r")
      auto
  from Cons.IH [OF rest] obtain ops where
    "ys = (acc @ [(k, op)]) @ zip (map fst xs) ops \<and> length ops = length xs \<and>
      list_all2 (\<lambda>(k, d) op. try_into_write_op tb fb sv d k = Ret (Inr op)) xs ops" by blast
  with op x show ?case by (intro exI [of _ "op # ops"]) simp
qed

lemma map_of_zip_list_all2:
  assumes "list_all2 P xs ops" and "distinct (map fst xs)"
  shows "case map_of xs k of
      None \<Rightarrow> map_of (zip (map fst xs) ops) k = None
    | Some d \<Rightarrow> \<exists>op. map_of (zip (map fst xs) ops) k = Some op \<and> P (k, d) op"
  using assms
proof (induction rule: list_all2_induct)
  case Nil
  then show ?case by simp
next
  case (Cons x xs op ops)
  then show ?case by (cases x; cases "k = fst x"; cases "map_of xs k") simp_all
qed

section \<open>Properties\<close>

text \<open>
  C22. \<^verbatim>\<open>DeltaOp::merge_onto\<close> is composition: for well-formed deltas of one aggregator, a successful merge
  of a delta onto an earlier one is well-formed and applies to every base value exactly as the two
  deltas in order do (with success and failure alike); a failed merge means that no base value
  survives both.
\<close>

theorem merge_onto_is_composition:
  assumes "delta_wf d1" and "delta_wf d2" and "limit d1 = limit d2"
  shows "case merge_onto d2 d1 of
      Inr d \<Rightarrow> delta_wf d \<and> limit d = limit d2 \<and>
        (\<forall>b. result_ok (apply_to d b) = result_ok (and_then (apply_to d1 b) (apply_to d2)))
    | Inl e \<Rightarrow> (\<forall>b. result_ok (and_then (apply_to d1 b) (apply_to d2)) = None)"
proof (cases "merge_onto d2 d1")
  case (Inl e)
  then show ?thesis using merge_onto_fails [OF assms] by simp
next
  case (Inr d)
  then show ?thesis
    using merge_onto_wf [OF assms(1,2)] merge_onto_InrD(1) merge_onto_apply [OF assms] by simp
qed

theorem merge_onto_is_composition_witness:
  "case merge_onto (delta_new (Plus 3) 100 99 0) (delta_add 2 100) of
      Inr d \<Rightarrow> delta_wf d \<and> limit d = limit (delta_new (Plus 3) 100 99 0) \<and>
        (\<forall>b. result_ok (apply_to d b) =
          result_ok (and_then (apply_to (delta_add 2 100) b) (apply_to (delta_new (Plus 3) 100 99 0))))
    | Inl e \<Rightarrow> (\<forall>b. result_ok (and_then (apply_to (delta_add 2 100) b)
        (apply_to (delta_new (Plus 3) 100 99 0))) = None)"
  by (rule merge_onto_is_composition)
    (simp_all add: delta_wf_def delta_add_def delta_new_def)

text \<open>
  \<^verbatim>\<open>DeltaChangeSet::try_into_write_set_mut\<close> produces exactly one write per delta: a modification
  that holds the serialised result of applying the delta to the stored value, and nothing for keys
  without a delta.
\<close>

theorem try_into_write_set_mut_writes:
  assumes "btm_wf dcs" and "try_into_write_set_mut tb fb sv dcs = Ret (Inr ws)"
  shows "btm_wf ws \<and>
    (case btm_get dcs k of
       None \<Rightarrow> btm_get ws k = None
     | Some d \<Rightarrow> \<exists>bs b r. sv k = Inr (Some bs) \<and> fb bs = Some b \<and> apply_to d b = Inr r
         \<and> btm_get ws k = Some (Modification (tb r)))"
proof -
  from assms(2) obtain ops where
    ws: "ws = wsm_new (zip (map fst dcs) ops)" and len: "length ops = length dcs" and
    all: "list_all2 (\<lambda>(k, d) op. try_into_write_op tb fb sv d k = Ret (Inr op)) dcs ops"
    by (fastforce simp: try_into_write_set_mut_def out_bind_eq_Ret_iff and_then_eq_Inr_iff
        dest: materialize_loop_InrD)
  have dist: "distinct (map fst dcs)" by (rule btm.distinct_keys [OF assms(1)])
  have "btm_get ws k = map_of (zip (map fst dcs) ops) k"
    using dist len by (simp add: ws wsm_new_def btm_get_of_list map_of_rev_distinct)
  with map_of_zip_list_all2 [OF all dist, of k] show ?thesis
    by (auto simp: ws wsm_new_def btm_get_def try_into_write_op_Inr_iff split: option.splits)
qed

theorem try_into_write_set_mut_writes_witness:
  "btm_wf [(1::nat, Modification (u128_to_bytes 12))] \<and>
    (case btm_get [(1::nat, delta_add 5 100)] 1 of
       None \<Rightarrow> btm_get [(1::nat, Modification (u128_to_bytes 12))] 1 = None
     | Some d \<Rightarrow> \<exists>bs b r.
         (if (1::nat) = 1 then Inr (Some (u128_to_bytes 7)) else Inl ()) = Inr (Some bs)
         \<and> u128_from_bytes bs = Some b \<and> apply_to d b = Inr r
         \<and> btm_get [(1::nat, Modification (u128_to_bytes 12))] 1 = Some (Modification (u128_to_bytes r)))"
  by (rule try_into_write_set_mut_writes
      [where sv = "\<lambda>k. if k = 1 then Inr (Some (u128_to_bytes 7)) else Inl ()"])
    (simp_all add: btm_wf_def try_into_write_set_mut_def try_into_write_op_def deserialize_def
      serialize_def apply_to_def addition_def subtraction_def delta_add_def delta_new_def
      wsm_new_def btm_of_list_def)

end
