(* ===== verification/Aggregator.thy ===== *)
theory Aggregator
  imports Delta "HOL-Library.List_Lexorder"
begin

text \<open>
  Aggregators inside one transaction (\<^verbatim>\<open>language/ol-aggregator/src/aggregator_extension.rs\<close>) and the
  native functions and change sets built on them
  (\<^verbatim>\<open>language/framework/src/natives/aggregator_natives\<close>). An aggregator either knows its value or
  holds a delta with the history of the deltas it passed through.
\<close>

section \<open>Identifiers\<close>

text \<open>
  A table handle and an aggregator handle are 32-byte account addresses. The derived order compares
  the handle first and then the key.
\<close>

datatype aggregator_id = AggregatorID (id_handle: bytes) (id_key: bytes)

instantiation aggregator_id :: linorder
begin

definition less_eq_aggregator_id :: "aggregator_id \<Rightarrow> aggregator_id \<Rightarrow> bool" where
  "less_eq_aggregator_id a b \<longleftrightarrow>
     id_handle a < id_handle b \<or> id_handle a = id_handle b \<and> id_key a \<le> id_key b"

definition less_aggregator_id :: "aggregator_id \<Rightarrow> aggregator_id \<Rightarrow> bool" where
  "less_aggregator_id a b \<longleftrightarrow>
     id_handle a < id_handle b \<or> id_handle a = id_handle b \<and> id_key a < id_key b"

instance
  by standard
    (auto simp: less_eq_aggregator_id_def less_aggregator_id_def intro: aggregator_id.expand)

end

section \<open>Aggregators\<close>

datatype aggregator_state = Data | PositiveDelta | NegativeDelta

record history =
  h_max_positive :: u128
  h_min_negative :: u128

definition history_new :: history where
  "history_new = \<lparr>h_max_positive = 0, h_min_negative = 0\<rparr>"

definition record_positive :: "history \<Rightarrow> u128 \<Rightarrow> history" where
  "record_positive h v = h\<lparr>h_max_positive := max (h_max_positive h) v\<rparr>"

definition record_negative :: "history \<Rightarrow> u128 \<Rightarrow> history" where
  "record_negative h v = h\<lparr>h_min_negative := max (h_min_negative h) v\<rparr>"

record aggregator =
  agg_value :: u128
  agg_state :: aggregator_state
  agg_limit :: u128
  agg_history :: "history option"

text \<open>\<^verbatim>\<open>Aggregator::record\<close>: reaching the data state with a history is unreachable code.\<close>

definition agg_record :: "aggregator \<Rightarrow> aggregator outcome" where
  "agg_record self =
     (case agg_history self of
        None \<Rightarrow> Ret self
      | Some h \<Rightarrow>
          (case agg_state self of
             PositiveDelta \<Rightarrow> Ret (self\<lparr>agg_history := Some (record_positive h (agg_value self))\<rparr>)
           | NegativeDelta \<Rightarrow> Ret (self\<lparr>agg_history := Some (record_negative h (agg_value self))\<rparr>)
           | Data \<Rightarrow> Panic))"

definition and_record ::
  "partial_vm_error + aggregator \<Rightarrow> (partial_vm_error + aggregator) outcome" where
  "and_record r = (case r of Inl e \<Rightarrow> Ret (Inl e) | Inr a \<Rightarrow> out_bind (agg_record a) (\<lambda>a'. Ret (Inr a')))"

definition agg_add :: "aggregator \<Rightarrow> u128 \<Rightarrow> (partial_vm_error + aggregator) outcome" where
  "agg_add self v =
     (case agg_state self of
        Data \<Rightarrow>
          Ret (and_then (addition (agg_value self) v (agg_limit self)) (\<lambda>x.
            Inr (self\<lparr>agg_value := x\<rparr>)))
      | PositiveDelta \<Rightarrow>
          and_record (and_then (addition (agg_value self) v (agg_limit self)) (\<lambda>x.
            Inr (self\<lparr>agg_value := x\<rparr>)))
      | NegativeDelta \<Rightarrow>
          and_record
            (if agg_value self \<le> v
             then and_then (subtraction v (agg_value self)) (\<lambda>x.
               Inr (self\<lparr>agg_value := x, agg_state := PositiveDelta\<rparr>))
             else and_then (subtraction (agg_value self) v) (\<lambda>x.
               Inr (self\<lparr>agg_value := x\<rparr>))))"

definition agg_sub :: "aggregator \<Rightarrow> u128 \<Rightarrow> (partial_vm_error + aggregator) outcome" where
  "agg_sub self v =
     (case agg_state self of
        Data \<Rightarrow>
          Ret (and_then (subtraction (agg_value self) v) (\<lambda>x.
            Inr (self\<lparr>agg_value := x\<rparr>)))
      | PositiveDelta \<Rightarrow>
          and_record
            (if agg_value self \<ge> v
             then and_then (subtraction (agg_value self) v) (\<lambda>x.
               Inr (self\<lparr>agg_value := x\<rparr>))
             else and_then (subtraction (agg_limit self) v) (\<lambda>_.
               and_then (subtraction v (agg_value self)) (\<lambda>x.
               Inr (self\<lparr>agg_value := x, agg_state := NegativeDelta\<rparr>))))
      | NegativeDelta \<Rightarrow>
          and_record (and_then (addition (agg_value self) v (agg_limit self)) (\<lambda>x.
            Inr (self\<lparr>agg_value := x\<rparr>))))"

definition extension_error :: "string \<Rightarrow> partial_vm_error" where
  "extension_error msg = \<lparr>major_status = VM_EXTENSION_ERROR, message = ExtensionMessage msg, sub_status = None\<rparr>"

text \<open>
  The table resolver is storage outside the sources: a parameter from handle and key bytes to the
  stored bytes.
\<close>

type_synonym 'e resolver = "bytes \<Rightarrow> bytes \<Rightarrow> 'e + bytes option"

definition read_and_materialize ::
  "(bytes \<Rightarrow> u128 option) \<Rightarrow> 'e resolver \<Rightarrow> aggregator_id \<Rightarrow> aggregator
     \<Rightarrow> (partial_vm_error + u128 \<times> aggregator) outcome" where
  "read_and_materialize from_bytes resolver aid self =
     (if agg_state self = Data then Ret (Inr (agg_value self, self))
      else case resolver (id_handle aid) (id_key aid) of
        Inl _ \<Rightarrow> Ret (Inl (extension_error ''could not find the value of the aggregator''))
      | Inr None \<Rightarrow> Ret (Inl (extension_error ''could not find the value of the aggregator''))
      | Inr (Some bs) \<Rightarrow>
          out_bind (deserialize from_bytes bs) (\<lambda>value_from_storage.
          out_bind (expect (agg_history self)) (\<lambda>h.
          case and_then (addition value_from_storage (h_max_positive h) (agg_limit self)) (\<lambda>_.
                 subtraction value_from_storage (h_min_negative h))
          of Inl e \<Rightarrow> Ret (Inl e)
           | Inr _ \<Rightarrow>
               (let finish = (\<lambda>r. Ret (and_then r (\<lambda>x.
                     Inr (x, self\<lparr>agg_value := x, agg_state := Data, agg_history := None\<rparr>)))) in
                case agg_state self of
                  PositiveDelta \<Rightarrow> finish (addition value_from_storage (agg_value self) (agg_limit self))
                | NegativeDelta \<Rightarrow> finish (subtraction value_from_storage (agg_value self))
                | Data \<Rightarrow> Panic))))"

section \<open>The aggregators of a transaction\<close>

record aggregator_data =
  new_aggregators :: "aggregator_id set"
  destroyed_aggregators :: "aggregator_id set"
  aggregators :: "(aggregator_id, aggregator) btree_map"

definition aggregator_data_default :: aggregator_data where
  "aggregator_data_default = \<lparr>new_aggregators = {}, destroyed_aggregators = {}, aggregators = []\<rparr>"

definition delta_aggregator :: "u128 \<Rightarrow> aggregator" where
  "delta_aggregator lim =
     \<lparr>agg_value = 0, agg_state = PositiveDelta, agg_limit = lim, agg_history = Some history_new\<rparr>"

text \<open>\<^verbatim>\<open>get_aggregator\<close>: the aggregator (created as a zero delta when absent) and the updated data.\<close>

definition get_aggregator ::
  "aggregator_data \<Rightarrow> aggregator_id \<Rightarrow> u128 \<Rightarrow> aggregator \<times> aggregator_data" where
  "get_aggregator self aid lim =
     (case btm_get (aggregators self) aid of
        Some a \<Rightarrow> (a, self)
      | None \<Rightarrow>
          (delta_aggregator lim,
           self\<lparr>aggregators := btm_insert aid (delta_aggregator lim) (aggregators self)\<rparr>))"

definition num_aggregators :: "aggregator_data \<Rightarrow> nat" where
  "num_aggregators self = length (aggregators self)"

definition create_new_aggregator ::
  "aggregator_data \<Rightarrow> aggregator_id \<Rightarrow> u128 \<Rightarrow> aggregator_data" where
  "create_new_aggregator self aid lim =
     self\<lparr>aggregators := btm_insert aid
            \<lparr>agg_value = 0, agg_state = Data, agg_limit = lim, agg_history = None\<rparr> (aggregators self),
          new_aggregators := insert aid (new_aggregators self)\<rparr>"

definition remove_aggregator :: "aggregator_data \<Rightarrow> aggregator_id \<Rightarrow> aggregator_data" where
  "remove_aggregator self aid =
     (let self = self\<lparr>aggregators := btm_remove aid (aggregators self)\<rparr> in
      if aid \<in> new_aggregators self
      then self\<lparr>new_aggregators := new_aggregators self - {aid}\<rparr>
      else self\<lparr>destroyed_aggregators := insert aid (destroyed_aggregators self)\<rparr>)"

section \<open>Well-formed aggregators\<close>

text \<open>
  An aggregator with a known value has no history; a delta has one, and it covers the current delta.
\<close>

definition agg_inv :: "aggregator \<Rightarrow> bool" where
  "agg_inv a =
     (case agg_history a of
        None \<Rightarrow> agg_state a = Data
      | Some h \<Rightarrow> agg_state a = PositiveDelta \<and> agg_value a \<le> h_max_positive h
               \<or> agg_state a = NegativeDelta \<and> agg_value a \<le> h_min_negative h)"

definition agg_signed :: "aggregator \<Rightarrow> int" where
  "agg_signed a = (if agg_state a = NegativeDelta then - int (unat (agg_value a)) else int (unat (agg_value a)))"

definition agg_max :: "aggregator \<Rightarrow> int" where
  "agg_max a = (case agg_history a of None \<Rightarrow> 0 | Some h \<Rightarrow> int (unat (h_max_positive h)))"

definition agg_min :: "aggregator \<Rightarrow> int" where
  "agg_min a = (case agg_history a of None \<Rightarrow> 0 | Some h \<Rightarrow> int (unat (h_min_negative h)))"

lemmas agg_defs = agg_signed_def agg_max_def agg_min_def agg_inv_def

lemma agg_max_nonneg [simp]: "0 \<le> agg_max a"
  and agg_min_nonneg [simp]: "0 \<le> agg_min a"
  by (simp_all add: agg_max_def agg_min_def split: option.splits)

lemma agg_record_ok:
  assumes "agg_history a = Some h" and "agg_state a \<noteq> Data"
  shows "\<exists>a'. agg_record a = Ret a' \<and> agg_inv a' \<and> agg_state a' = agg_state a
    \<and> agg_history a' \<noteq> None \<and> agg_limit a' = agg_limit a \<and> agg_signed a' = agg_signed a
    \<and> agg_max a' = max (agg_max a) (agg_signed a) \<and> agg_min a' = max (agg_min a) (- agg_signed a)"
  using assms
  by (cases "agg_state a")
    (auto simp: agg_record_def agg_defs record_positive_def record_negative_def unat_max of_nat_max
      max_def word_le_nat_alt)

text \<open>One operation: addition or subtraction of an amount.\<close>

datatype agg_op = OpAdd u128 | OpSub u128

fun agg_step :: "aggregator \<Rightarrow> agg_op \<Rightarrow> (partial_vm_error + aggregator) outcome" where
  "agg_step a (OpAdd v) = agg_add a v"
| "agg_step a (OpSub v) = agg_sub a v"

fun op_amount :: "agg_op \<Rightarrow> int" where
  "op_amount (OpAdd v) = int (unat v)"
| "op_amount (OpSub v) = - int (unat v)"

fun run_ops :: "aggregator \<Rightarrow> agg_op list \<Rightarrow> (partial_vm_error + aggregator) outcome" where
  "run_ops a [] = Ret (Inr a)"
| "run_ops a (op # ops) =
     out_bind (agg_step a op) (\<lambda>r. case r of Inl e \<Rightarrow> Ret (Inl e) | Inr a' \<Rightarrow> run_ops a' ops)"

section \<open>The delta state tracks the data state\<close>

lemma and_record_InrI:
  assumes "agg_history a = Some h" and "agg_state a \<noteq> Data"
  shows "\<exists>a'. and_record (Inr a) = Ret (Inr a') \<and> agg_inv a' \<and> agg_state a' = agg_state a
    \<and> agg_history a' \<noteq> None \<and> agg_limit a' = agg_limit a \<and> agg_signed a' = agg_signed a
    \<and> agg_max a' = max (agg_max a) (agg_signed a) \<and> agg_min a' = max (agg_min a) (- agg_signed a)"
  using agg_record_ok [OF assms] by (auto simp: and_record_def)

lemma and_record_Inl [simp]: "and_record (Inl e) = Ret (Inl e)"
  by (simp add: and_record_def)

text \<open>
  The result of an operation on a delta: it records the new signed delta in the history, or fails on
  an amount that no stored value within the limit could absorb.
\<close>

definition delta_step_spec :: "aggregator \<Rightarrow> int \<Rightarrow> (partial_vm_error + aggregator) outcome \<Rightarrow> bool" where
  "delta_step_spec a c r \<longleftrightarrow>
     (\<exists>a'. r = Ret (Inr a') \<and> agg_inv a' \<and> agg_state a' \<noteq> Data \<and> agg_history a' \<noteq> None
        \<and> agg_limit a' = agg_limit a \<and> agg_signed a' = agg_signed a + c
        \<and> agg_max a' = max (agg_max a) (agg_signed a + c)
        \<and> agg_min a' = max (agg_min a) (- (agg_signed a + c)))
     \<or> (\<exists>e. r = Ret (Inl e)) \<and>
        (agg_signed a + c > int (unat (agg_limit a)) \<or> - (agg_signed a + c) > int (unat (agg_limit a))
         \<or> c < - int (unat (agg_limit a)))"

lemma delta_step_specI:
  assumes "agg_history a = Some h" and "agg_history b = Some h" and "agg_state b \<noteq> Data"
    and "agg_limit b = agg_limit a" and "agg_signed b = agg_signed a + c"
  shows "delta_step_spec a c (and_record (Inr b))"
proof -
  have "agg_max b = agg_max a" "agg_min b = agg_min a"
    using assms(1,2) by (simp_all add: agg_max_def agg_min_def)
  with and_record_InrI [OF assms(2,3)] assms(3,4,5) show ?thesis
    by (auto simp: delta_step_spec_def)
qed

lemma agg_add_delta:
  assumes "agg_history a = Some h" and "agg_state a \<noteq> Data"
  shows "delta_step_spec a (int (unat v)) (agg_add a v)"
proof (cases "agg_state a")
  case Data
  with assms show ?thesis by simp
next
  case PositiveDelta
  then have add: "agg_add a v = and_record (and_then (addition (agg_value a) v (agg_limit a))
      (\<lambda>x. Inr (a\<lparr>agg_value := x\<rparr>)))" by (simp add: agg_add_def)
  show ?thesis
  proof (cases rule: addition_cases [of "agg_value a" v "agg_limit a"])
    case (overflow e)
    with PositiveDelta add show ?thesis by (simp add: delta_step_spec_def agg_signed_def)
  next
    case (fits r)
    with PositiveDelta add assms(1) show ?thesis by (auto intro!: delta_step_specI simp: agg_signed_def)
  qed
next
  case NegativeDelta
  show ?thesis
  proof (cases "agg_value a \<le> v")
    case True
    then obtain r where r: "subtraction v (agg_value a) = Inr r" "unat v = unat r + unat (agg_value a)"
      by (cases rule: subtraction_cases [of v "agg_value a"]) (auto simp: word_le_nat_alt)
    then have "agg_add a v = and_record (Inr (a\<lparr>agg_value := r, agg_state := PositiveDelta\<rparr>))"
      using NegativeDelta True by (simp add: agg_add_def)
    with r NegativeDelta assms(1) show ?thesis by (auto intro!: delta_step_specI simp: agg_signed_def)
  next
    case False
    then obtain r where r: "subtraction (agg_value a) v = Inr r" "unat (agg_value a) = unat r + unat v"
      by (cases rule: subtraction_cases [of "agg_value a" v]) (auto simp: word_le_nat_alt)
    then have "agg_add a v = and_record (Inr (a\<lparr>agg_value := r\<rparr>))"
      using NegativeDelta False by (simp add: agg_add_def)
    with r NegativeDelta assms(1) show ?thesis by (auto intro!: delta_step_specI simp: agg_signed_def)
  qed
qed

lemma agg_sub_delta:
  assumes "agg_history a = Some h" and "agg_state a \<noteq> Data"
  shows "delta_step_spec a (- int (unat v)) (agg_sub a v)"
proof (cases "agg_state a")
  case Data
  with assms show ?thesis by simp
next
  case NegativeDelta
  then have sub: "agg_sub a v = and_record (and_then (addition (agg_value a) v (agg_limit a))
      (\<lambda>x. Inr (a\<lparr>agg_value := x\<rparr>)))" by (simp add: agg_sub_def)
  show ?thesis
  proof (cases rule: addition_cases [of "agg_value a" v "agg_limit a"])
    case (overflow e)
    with NegativeDelta sub show ?thesis by (simp add: delta_step_spec_def agg_signed_def)
  next
    case (fits r)
    with NegativeDelta sub assms(1) show ?thesis by (auto intro!: delta_step_specI simp: agg_signed_def)
  qed
next
  case PositiveDelta
  show ?thesis
  proof (cases "v \<le> agg_value a")
    case True
    then obtain r where r: "subtraction (agg_value a) v = Inr r" "unat (agg_value a) = unat r + unat v"
      by (cases rule: subtraction_cases [of "agg_value a" v]) (auto simp: word_le_nat_alt)
    then have "agg_sub a v = and_record (Inr (a\<lparr>agg_value := r\<rparr>))"
      using PositiveDelta True by (simp add: agg_sub_def)
    with r PositiveDelta assms(1) show ?thesis by (auto intro!: delta_step_specI simp: agg_signed_def)
  next
    case False
    then obtain r where r: "subtraction v (agg_value a) = Inr r" "unat v = unat r + unat (agg_value a)"
      by (cases rule: subtraction_cases [of v "agg_value a"]) (auto simp: word_le_nat_alt)
    then have sub: "agg_sub a v = and_record (and_then (subtraction (agg_limit a) v) (\<lambda>_.
        Inr (a\<lparr>agg_value := r, agg_state := NegativeDelta\<rparr>)))"
      using PositiveDelta False by (simp add: agg_sub_def)
    show ?thesis
    proof (cases rule: subtraction_cases [of "agg_limit a" v])
      case (underflow e)
      with sub show ?thesis by (simp add: delta_step_spec_def)
    next
      case (fits x)
      with sub r PositiveDelta assms(1) show ?thesis
        by (auto intro!: delta_step_specI simp: agg_signed_def)
    qed
  qed
qed

lemma agg_step_delta:
  assumes "agg_history a = Some h" and "agg_state a \<noteq> Data"
  shows "delta_step_spec a (op_amount op) (agg_step a op)"
  using agg_add_delta [OF assms] agg_sub_delta [OF assms] by (cases op) simp_all

text \<open>In the data state an operation succeeds exactly when the value stays within zero and the limit.\<close>

lemma agg_step_data:
  assumes "agg_state d = Data"
    and "unat (agg_value d) \<le> unat (agg_limit d)"
  shows "if 0 \<le> agg_signed d + op_amount op \<and> agg_signed d + op_amount op \<le> int (unat (agg_limit d))
    then \<exists>x. agg_step d op = Ret (Inr (d\<lparr>agg_value := x\<rparr>)) \<and> int (unat x) = agg_signed d + op_amount op
    else \<exists>e. agg_step d op = Ret (Inl e)"
proof (cases op)
  case (OpAdd v)
  with assms show ?thesis
    by (cases rule: addition_cases [of "agg_value d" v "agg_limit d"])
      (auto simp: agg_add_def agg_signed_def)
next
  case (OpSub v)
  with assms show ?thesis
    by (cases rule: subtraction_cases [of "agg_value d" v]) (auto simp: agg_sub_def agg_signed_def)
qed

text \<open>The stored value \<open>s\<close> absorbs the history of a delta.\<close>

definition absorbs :: "int \<Rightarrow> aggregator \<Rightarrow> bool" where
  "absorbs s a \<longleftrightarrow> s + agg_max a \<le> int (unat (agg_limit a)) \<and> agg_min a \<le> s"

lemma run_ops_delta_limit:
  assumes "agg_history a = Some h" and "agg_state a \<noteq> Data" and "run_ops a ops = Ret (Inr a')"
  shows "agg_limit a' = agg_limit a \<and> agg_state a' \<noteq> Data \<and> agg_history a' \<noteq> None
    \<and> agg_max a \<le> agg_max a' \<and> agg_min a \<le> agg_min a'"
  using assms
proof (induction ops arbitrary: a h)
  case Nil
  then show ?case by simp
next
  case (Cons op ops)
  from agg_step_delta [OF Cons.prems(1,2), of op] Cons.prems(3)
  obtain a1 where a1: "agg_step a op = Ret (Inr a1)" "agg_state a1 \<noteq> Data" "agg_history a1 \<noteq> None"
    "agg_limit a1 = agg_limit a" "agg_max a \<le> agg_max a1" "agg_min a \<le> agg_min a1"
    "run_ops a1 ops = Ret (Inr a')"
    by (auto simp: delta_step_spec_def)
  with Cons.IH [of a1] show ?case by fastforce
qed

lemma run_ops_simulation:
  assumes "agg_history a = Some h" and "agg_state a \<noteq> Data" and "agg_inv a" and "absorbs s a"
    and "0 \<le> s" and "agg_state d = Data" and "agg_limit d = agg_limit a"
    and "agg_signed d = s + agg_signed a"
  shows "(\<exists>a'. run_ops a ops = Ret (Inr a') \<and> absorbs s a' \<and> s + agg_signed a' = r)
    \<longleftrightarrow> (\<exists>d'. run_ops d ops = Ret (Inr d') \<and> agg_signed d' = r)"
  using assms
proof (induction ops arbitrary: a h d)
  case Nil
  then show ?case by auto
next
  case (Cons op ops)
  let ?c = "op_amount op"
  have range: "0 \<le> agg_signed d" "agg_signed d \<le> int (unat (agg_limit d))"
  proof -
    have "agg_signed a \<le> agg_max a" "- agg_signed a \<le> agg_min a"
      using Cons.prems(1,3) by (auto simp: agg_defs word_le_nat_alt)
    then show "0 \<le> agg_signed d" "agg_signed d \<le> int (unat (agg_limit d))"
      using Cons.prems(4,7,8) by (auto simp: absorbs_def)
  qed
  have slim: "s \<le> int (unat (agg_limit a))"
    using Cons.prems(4) agg_max_nonneg [of a] unfolding absorbs_def by linarith
  note data = agg_step_data [OF Cons.prems(6), of op]
  have d_le: "unat (agg_value d) \<le> unat (agg_limit d)"
    using range Cons.prems(6) by (simp add: agg_signed_def)
  show ?case
  proof (cases "0 \<le> agg_signed d + ?c \<and> agg_signed d + ?c \<le> int (unat (agg_limit d))")
    case True
    with data d_le obtain x where x: "agg_step d op = Ret (Inr (d\<lparr>agg_value := x\<rparr>))"
      "int (unat x) = agg_signed d + ?c" by auto
    from agg_step_delta [OF Cons.prems(1,2), of op] True Cons.prems(4,5,7,8) range slim
    obtain a1 where a1: "agg_step a op = Ret (Inr a1)" "agg_inv a1" "agg_state a1 \<noteq> Data"
      "agg_history a1 \<noteq> None" "agg_limit a1 = agg_limit a" "agg_signed a1 = agg_signed a + ?c"
      "absorbs s a1"
      by (auto simp: delta_step_spec_def absorbs_def)
    then obtain h1 where h1: "agg_history a1 = Some h1" by blast
    have "agg_signed (d\<lparr>agg_value := x\<rparr>) = s + agg_signed a1"
      using x(2) a1(6) Cons.prems(6,8) by (simp add: agg_signed_def)
    with Cons.IH [OF h1 a1(3,2,7) Cons.prems(5), of "d\<lparr>agg_value := x\<rparr>"] Cons.prems(6,7) a1(1,5) x(1)
    show ?thesis by simp
  next
    case False
    with data d_le have fails: "\<not> (\<exists>d'. run_ops d (op # ops) = Ret (Inr d') \<and> agg_signed d' = r)"
      by auto
    have "\<not> absorbs s a'" if "run_ops a (op # ops) = Ret (Inr a')" for a'
    proof -
      from agg_step_delta [OF Cons.prems(1,2), of op] that
      obtain a1 where a1: "run_ops a1 ops = Ret (Inr a')" "agg_state a1 \<noteq> Data"
        "agg_history a1 \<noteq> None" "agg_limit a1 = agg_limit a"
        "agg_max a1 = max (agg_max a) (agg_signed a + ?c)"
        "agg_min a1 = max (agg_min a) (- (agg_signed a + ?c))"
        by (auto simp: delta_step_spec_def)
      then have "agg_max a1 \<le> agg_max a'" "agg_min a1 \<le> agg_min a'" "agg_limit a' = agg_limit a"
        using run_ops_delta_limit [of a1 _ ops a'] by auto
      with a1(5,6) False Cons.prems(7,8) show ?thesis by (auto simp: absorbs_def)
    qed
    with fails show ?thesis by blast
  qed
qed

lemma read_and_materialize_delta:
  assumes "agg_history a = Some h" and "agg_state a \<noteq> Data" and "agg_inv a"
    and "resolver (id_handle aid) (id_key aid) = Inr (Some bs)" and "fb bs = Some s"
  shows "(\<exists>a'. read_and_materialize fb resolver aid a = Ret (Inr (x, a'))) \<longleftrightarrow>
    absorbs (int (unat s)) a \<and> int (unat x) = int (unat s) + agg_signed a"
proof -
  have hist: "agg_max a = int (unat (h_max_positive h))" "agg_min a = int (unat (h_min_negative h))"
    using assms(1) by (simp_all add: agg_max_def agg_min_def)
  have cover: "agg_signed a \<le> agg_max a" "- agg_signed a \<le> agg_min a"
    using assms(1,3) by (auto simp: agg_defs word_le_nat_alt)
  have raw: "read_and_materialize fb resolver aid a =
      (case and_then (addition s (h_max_positive h) (agg_limit a)) (\<lambda>_. subtraction s (h_min_negative h))
       of Inl e \<Rightarrow> Ret (Inl e)
        | Inr _ \<Rightarrow> Ret (and_then
            (if agg_state a = PositiveDelta then addition s (agg_value a) (agg_limit a)
             else subtraction s (agg_value a))
            (\<lambda>x. Inr (x, a\<lparr>agg_value := x, agg_state := Data, agg_history := None\<rparr>))))"
    using assms by (cases "agg_state a") (simp_all add: read_and_materialize_def deserialize_def Let_def cong: sum.case_cong)
  show ?thesis
  proof (cases rule: addition_cases [of s "h_max_positive h" "agg_limit a"])
    case (overflow e)
    with raw hist show ?thesis by (simp add: absorbs_def)
  next
    case (fits m)
    note m = fits
    show ?thesis
    proof (cases rule: subtraction_cases [of s "h_min_negative h"])
      case (underflow e)
      with m raw hist show ?thesis by (simp add: absorbs_def)
    next
      case (fits n)
      with m hist have abs: "absorbs (int (unat s)) a" by (simp add: absorbs_def)
      have "(\<exists>a'. read_and_materialize fb resolver aid a = Ret (Inr (x, a'))) \<longleftrightarrow>
          (if agg_state a = PositiveDelta then addition s (agg_value a) (agg_limit a)
             else subtraction s (agg_value a)) = Inr x"
        using m fits raw by (auto simp: and_then_eq_Inr_iff)
      also have "\<dots> \<longleftrightarrow> int (unat x) = int (unat s) + agg_signed a"
        using abs cover assms(2)
        by (cases "agg_state a") (auto simp: to_nat_simps agg_signed_def absorbs_def)
      finally show ?thesis using abs by simp
    qed
  qed
qed

text \<open>Sequences of operations keep the invariant and the data state.\<close>

lemma agg_step_inv:
  assumes "agg_inv a"
  shows "\<exists>r. agg_step a op = Ret r \<and> (\<forall>a'. r = Inr a' \<longrightarrow> agg_inv a')"
proof (cases "agg_history a")
  case None
  with assms have "agg_state a = Data" by (simp add: agg_inv_def)
  with None show ?thesis
    by (cases op) (auto simp: agg_add_def agg_sub_def and_then_eq_Inr_iff agg_inv_def)
next
  case (Some h)
  with assms have "agg_state a \<noteq> Data" by (auto simp: agg_inv_def)
  from agg_step_delta [OF Some this, of op] show ?thesis by (auto simp: delta_step_spec_def)
qed

lemma run_ops_ConsD:
  assumes "run_ops a (op # ops) = Ret (Inr b)"
  obtains a' where "agg_step a op = Ret (Inr a')" "run_ops a' ops = Ret (Inr b)"
  using assms by (cases "agg_step a op"; cases "case agg_step a op of Ret r \<Rightarrow> r") auto

lemma run_ops_inv: "agg_inv a \<Longrightarrow> run_ops a ops = Ret (Inr b) \<Longrightarrow> agg_inv b"
proof (induction ops arbitrary: a)
  case Nil
  then show ?case by simp
next
  case (Cons op ops)
  from Cons.prems(2) obtain a' where "agg_step a op = Ret (Inr a')" "run_ops a' ops = Ret (Inr b)"
    by (rule run_ops_ConsD)
  with agg_step_inv [OF Cons.prems(1), of op] Cons.IH [of a'] show ?case by auto
qed

lemma run_ops_data_state: "agg_state a = Data \<Longrightarrow> run_ops a ops = Ret (Inr b) \<Longrightarrow> agg_state b = Data"
proof (induction ops arbitrary: a)
  case Nil
  then show ?case by simp
next
  case (Cons op ops)
  from Cons.prems(2) obtain a' where a': "agg_step a op = Ret (Inr a')" "run_ops a' ops = Ret (Inr b)"
    by (rule run_ops_ConsD)
  with Cons.prems(1) have "agg_state a' = Data"
    by (cases op) (auto simp: agg_add_def agg_sub_def and_then_eq_Inr_iff)
  with a'(2) show ?case by (rule Cons.IH [rotated])
qed

end
