(* ===== verification/AggregatorNatives.thy ===== *)
theory AggregatorNatives
  imports Aggregator
begin

text \<open>
  The native functions on aggregators and the change set of a transaction
  (\<^verbatim>\<open>language/framework/src/natives/aggregator_natives\<close>: \<^verbatim>\<open>context.rs\<close>, \<^verbatim>\<open>aggregator.rs\<close> and
  \<^verbatim>\<open>aggregator_factory.rs\<close>). Popping the arguments off the Move stack is the Move VM's; the natives
  here start from the aggregator identifier, the limit and the amount.
\<close>

section \<open>Native functions\<close>

record native_aggregator_context =
  txn_hash :: bytes
  ctx_data :: aggregator_data

definition context_new :: "bytes \<Rightarrow> native_aggregator_context" where
  "context_new h = \<lparr>txn_hash = h, ctx_data = aggregator_data_default\<rparr>"

text \<open>A native result: the gas charged and the values returned.\<close>

datatype native_value = U128Value u128 | AggregatorStruct bytes bytes u128

type_synonym native_result = "u64 \<times> native_value list"

definition store_aggregator ::
  "native_aggregator_context \<Rightarrow> aggregator_data \<Rightarrow> aggregator_id \<Rightarrow> aggregator \<Rightarrow> native_aggregator_context" where
  "store_aggregator ctx d aid a =
     ctx\<lparr>ctx_data := d\<lparr>aggregators := btm_insert aid a (aggregators d)\<rparr>\<rparr>"

definition native_add ::
  "u64 \<Rightarrow> native_aggregator_context \<Rightarrow> aggregator_id \<Rightarrow> u128 \<Rightarrow> u128
     \<Rightarrow> ((partial_vm_error + native_result) \<times> native_aggregator_context) outcome" where
  "native_add base ctx aid lim v =
     (case get_aggregator (ctx_data ctx) aid lim of (a, d) \<Rightarrow>
        out_bind (agg_add a v) (\<lambda>r.
          case r of
            Inl e \<Rightarrow> Ret (Inl e, ctx\<lparr>ctx_data := d\<rparr>)
          | Inr a' \<Rightarrow> Ret (Inr (base, []), store_aggregator ctx d aid a')))"

definition native_sub ::
  "u64 \<Rightarrow> native_aggregator_context \<Rightarrow> aggregator_id \<Rightarrow> u128 \<Rightarrow> u128
     \<Rightarrow> ((partial_vm_error + native_result) \<times> native_aggregator_context) outcome" where
  "native_sub base ctx aid lim v =
     (case get_aggregator (ctx_data ctx) aid lim of (a, d) \<Rightarrow>
        out_bind (agg_sub a v) (\<lambda>r.
          case r of
            Inl e \<Rightarrow> Ret (Inl e, ctx\<lparr>ctx_data := d\<rparr>)
          | Inr a' \<Rightarrow> Ret (Inr (base, []), store_aggregator ctx d aid a')))"

definition native_read ::
  "(bytes \<Rightarrow> u128 option) \<Rightarrow> 'e resolver \<Rightarrow> u64 \<Rightarrow> native_aggregator_context \<Rightarrow> aggregator_id \<Rightarrow> u128
     \<Rightarrow> ((partial_vm_error + native_result) \<times> native_aggregator_context) outcome" where
  "native_read from_bytes resolver base ctx aid lim =
     (case get_aggregator (ctx_data ctx) aid lim of (a, d) \<Rightarrow>
        out_bind (read_and_materialize from_bytes resolver aid a) (\<lambda>r.
          case r of
            Inl e \<Rightarrow> Ret (Inl e, ctx\<lparr>ctx_data := d\<rparr>)
          | Inr (v, a') \<Rightarrow> Ret (Inr (base, [U128Value v]), store_aggregator ctx d aid a')))"

definition native_destroy ::
  "u64 \<Rightarrow> native_aggregator_context \<Rightarrow> aggregator_id
     \<Rightarrow> (partial_vm_error + native_result) \<times> native_aggregator_context" where
  "native_destroy base ctx aid =
     (Inr (base, []), ctx\<lparr>ctx_data := remove_aggregator (ctx_data ctx) aid\<rparr>)"

text \<open>
  A new aggregator gets the key \<open>H (txn_hash @ n)\<close> where \<open>n\<close> is the number of aggregators as a
  big-endian \<^verbatim>\<open>u32\<close>. The hash function is a parameter; an address has 32 bytes.
\<close>

definition u32_be_bytes :: "u32 \<Rightarrow> bytes" where
  "u32_be_bytes n = rev (le_encode 4 (unat n))"

definition new_aggregator_key :: "(bytes \<Rightarrow> bytes) \<Rightarrow> native_aggregator_context \<Rightarrow> bytes" where
  "new_aggregator_key H ctx =
     H (txn_hash ctx @ u32_be_bytes (word_of_nat (num_aggregators (ctx_data ctx))))"

definition native_new_aggregator ::
  "(bytes \<Rightarrow> bytes) \<Rightarrow> u64 \<Rightarrow> native_aggregator_context \<Rightarrow> bytes \<Rightarrow> u128
     \<Rightarrow> (partial_vm_error + native_result) \<times> native_aggregator_context" where
  "native_new_aggregator H base ctx handle lim =
     (let key = new_aggregator_key H ctx in
      if length key \<noteq> 32 then (Inl (extension_error ''unable to create aggregator key''), ctx)
      else (Inr (base, [AggregatorStruct handle key lim]),
            ctx\<lparr>ctx_data := create_new_aggregator (ctx_data ctx) (AggregatorID handle key) lim\<rparr>))"

section \<open>Change sets\<close>

datatype aggregator_change = ChWrite u128 | ChMerge delta_op | ChDelete

type_synonym aggregator_change_set = "(aggregator_id, aggregator_change) btree_map"

definition change_of_aggregator :: "aggregator \<Rightarrow> aggregator_change outcome" where
  "change_of_aggregator a =
     (case agg_state a of
        Data \<Rightarrow> Ret (ChWrite (agg_value a))
      | PositiveDelta \<Rightarrow>
          out_bind (expect (agg_history a)) (\<lambda>h.
            Ret (ChMerge (delta_new (Plus (agg_value a)) (agg_limit a) (h_max_positive h) (h_min_negative h))))
      | NegativeDelta \<Rightarrow>
          out_bind (expect (agg_history a)) (\<lambda>h.
            Ret (ChMerge (delta_new (Minus (agg_value a)) (agg_limit a) (h_max_positive h) (h_min_negative h)))))"

fun changes_of_aggregators ::
  "(aggregator_id \<times> aggregator) list \<Rightarrow> aggregator_change_set \<Rightarrow> aggregator_change_set outcome" where
  "changes_of_aggregators [] changes = Ret changes"
| "changes_of_aggregators ((aid, a) # rest) changes =
     out_bind (change_of_aggregator a) (\<lambda>c.
       changes_of_aggregators rest (btm_insert aid c changes))"

definition into_change_set :: "native_aggregator_context \<Rightarrow> aggregator_change_set outcome" where
  "into_change_set ctx =
     out_bind (changes_of_aggregators (aggregators (ctx_data ctx)) []) (\<lambda>changes.
       Ret (fold (\<lambda>aid. btm_insert aid ChDelete)
         (sorted_list_of_set (destroyed_aggregators (ctx_data ctx))) changes))"

text \<open>The match on an occupied entry when a later change set is squashed into an earlier one.\<close>

fun squash_change ::
  "aggregator_change \<Rightarrow> aggregator_change \<Rightarrow> (vm_status + aggregator_change) outcome" where
  "squash_change ChDelete _ = Panic"
| "squash_change _ (ChWrite data) = Ret (Inr (ChWrite data))"
| "squash_change _ ChDelete = Ret (Inr ChDelete)"
| "squash_change (ChWrite data) (ChMerge delta) =
     Ret (and_then (map_err AtUndefinedLocation (apply_to delta data)) (\<lambda>new_data. Inr (ChWrite new_data)))"
| "squash_change (ChMerge delta1) (ChMerge delta2) =
     Ret (and_then (map_err AtUndefinedLocation (merge_onto delta2 delta1)) (\<lambda>d. Inr (ChMerge d)))"

fun agg_squash_loop ::
  "aggregator_change_set \<Rightarrow> (aggregator_id \<times> aggregator_change) list
     \<Rightarrow> (vm_status + aggregator_change_set) outcome" where
  "agg_squash_loop changes [] = Ret (Inr changes)"
| "agg_squash_loop changes ((other_id, other_change) # rest) =
     (case btm_get changes other_id of
        None \<Rightarrow> agg_squash_loop (btm_insert other_id other_change changes) rest
      | Some entry \<Rightarrow>
          out_bind (squash_change entry other_change) (\<lambda>r.
            case r of
              Inl e \<Rightarrow> Ret (Inl e)
            | Inr c \<Rightarrow> agg_squash_loop (btm_insert other_id c changes) rest))"

definition agg_squash ::
  "aggregator_change_set \<Rightarrow> aggregator_change_set \<Rightarrow> (vm_status + aggregator_change_set) outcome" where
  "agg_squash self other = agg_squash_loop self other"

section \<open>The invariant of the aggregator data\<close>

text \<open>
  Every aggregator is well-formed, the map is sorted, and only existing aggregators count as new.
\<close>

definition agg_data_inv :: "aggregator_data \<Rightarrow> bool" where
  "agg_data_inv d \<longleftrightarrow> btm_wf (aggregators d) \<and> finite (destroyed_aggregators d) \<and>
     (\<forall>aid a. btm_get (aggregators d) aid = Some a \<longrightarrow> agg_inv a)"

lemma agg_data_inv_default: "agg_data_inv aggregator_data_default"
  by (simp add: agg_data_inv_def aggregator_data_default_def btm_simps btm_wf_def btm_get_def)

lemma agg_inv_delta_aggregator: "agg_inv (delta_aggregator lim)"
  by (simp add: agg_inv_def delta_aggregator_def history_new_def)

lemma agg_inv_data: "agg_inv \<lparr>agg_value = v, agg_state = Data, agg_limit = lim, agg_history = None\<rparr>"
  by (simp add: agg_inv_def)

lemma agg_data_inv_insert:
  "agg_data_inv d \<Longrightarrow> agg_inv a \<Longrightarrow> agg_data_inv (d\<lparr>aggregators := btm_insert aid a (aggregators d)\<rparr>)"
  by (auto simp: agg_data_inv_def btm_simps)

lemma get_aggregator_inv:
  assumes "agg_data_inv d" and "get_aggregator d aid lim = (a, d')"
  shows "agg_data_inv d' \<and> agg_inv a"
  using assms agg_data_inv_insert [OF assms(1) agg_inv_delta_aggregator]
  by (auto simp: get_aggregator_def agg_inv_delta_aggregator agg_data_inv_def split: option.splits)

lemma create_new_aggregator_inv:
  "agg_data_inv d \<Longrightarrow> agg_data_inv (create_new_aggregator d aid lim)"
  using agg_inv_data by (auto simp: create_new_aggregator_def agg_data_inv_def btm_simps)

lemma remove_aggregator_inv: "agg_data_inv d \<Longrightarrow> agg_data_inv (remove_aggregator d aid)"
  by (auto simp: remove_aggregator_def agg_data_inv_def btm_simps Let_def)

lemma read_and_materialize_inv:
  assumes "agg_inv a" and "\<And>h k bs. resolver h k = Inr (Some bs) \<Longrightarrow> fb bs \<noteq> None"
  shows "\<exists>r. read_and_materialize fb resolver aid a = Ret r \<and> (\<forall>v a'. r = Inr (v, a') \<longrightarrow> agg_inv a')"
proof (cases "agg_history a")
  case None
  with assms(1) show ?thesis by (auto simp: agg_inv_def read_and_materialize_def)
next
  case (Some h)
  with assms(1) have st: "agg_state a = PositiveDelta \<or> agg_state a = NegativeDelta"
    by (auto simp: agg_inv_def)
  show ?thesis
  proof (cases "\<exists>bs. resolver (id_handle aid) (id_key aid) = Inr (Some bs)")
    case True
    then obtain bs v where "resolver (id_handle aid) (id_key aid) = Inr (Some bs)" "fb bs = Some v"
      using assms(2) by blast
    with Some st show ?thesis
      by (auto simp: read_and_materialize_def deserialize_def Let_def and_then_eq_Inr_iff
          agg_inv_def split: sum.split)
  next
    case False
    with st show ?thesis by (auto simp: read_and_materialize_def split: sum.split option.split)
  qed
qed

text \<open>The calls a transaction makes on its aggregators.\<close>

datatype native_call = CallNew bytes u128 | CallAdd aggregator_id u128 u128
  | CallSub aggregator_id u128 u128 | CallRead aggregator_id u128 | CallDestroy aggregator_id

fun native_call_ctx ::
  "(bytes \<Rightarrow> bytes) \<Rightarrow> (bytes \<Rightarrow> u128 option) \<Rightarrow> 'e resolver \<Rightarrow> native_aggregator_context \<Rightarrow> native_call
     \<Rightarrow> native_aggregator_context outcome" where
  "native_call_ctx H fb rs ctx (CallNew handle lim) = Ret (snd (native_new_aggregator H 0 ctx handle lim))"
| "native_call_ctx H fb rs ctx (CallAdd aid lim v) = out_bind (native_add 0 ctx aid lim v) (\<lambda>(_, c). Ret c)"
| "native_call_ctx H fb rs ctx (CallSub aid lim v) = out_bind (native_sub 0 ctx aid lim v) (\<lambda>(_, c). Ret c)"
| "native_call_ctx H fb rs ctx (CallRead aid lim) = out_bind (native_read fb rs 0 ctx aid lim) (\<lambda>(_, c). Ret c)"
| "native_call_ctx H fb rs ctx (CallDestroy aid) = Ret (snd (native_destroy 0 ctx aid))"

fun native_calls_ctx ::
  "(bytes \<Rightarrow> bytes) \<Rightarrow> (bytes \<Rightarrow> u128 option) \<Rightarrow> 'e resolver \<Rightarrow> native_aggregator_context \<Rightarrow> native_call list
     \<Rightarrow> native_aggregator_context outcome" where
  "native_calls_ctx H fb rs ctx [] = Ret ctx"
| "native_calls_ctx H fb rs ctx (c # cs) =
     out_bind (native_call_ctx H fb rs ctx c) (\<lambda>ctx'. native_calls_ctx H fb rs ctx' cs)"

lemma store_aggregator_inv:
  "agg_data_inv d \<Longrightarrow> agg_inv a \<Longrightarrow> agg_data_inv (ctx_data (store_aggregator ctx d aid a))"
  by (simp add: store_aggregator_def agg_data_inv_insert)

lemma native_call_inv:
  assumes "agg_data_inv (ctx_data ctx)"
    and "\<And>h k bs. rs h k = Inr (Some bs) \<Longrightarrow> fb bs \<noteq> None"
  shows "\<exists>ctx'. native_call_ctx H fb rs ctx c = Ret ctx' \<and> agg_data_inv (ctx_data ctx')"
proof (cases c)
  case (CallNew handle lim)
  with assms(1) show ?thesis
    by (simp add: native_new_aggregator_def Let_def create_new_aggregator_inv)
next
  case (CallAdd aid lim v)
  obtain a d where g: "get_aggregator (ctx_data ctx) aid lim = (a, d)" by force
  from get_aggregator_inv [OF assms(1) g] agg_step_inv [of a "OpAdd v"]
  obtain r where "agg_add a v = Ret r" "\<forall>a'. r = Inr a' \<longrightarrow> agg_inv a'" "agg_data_inv d" by auto
  with g CallAdd show ?thesis
    by (cases r) (simp_all add: native_add_def store_aggregator_inv)
next
  case (CallSub aid lim v)
  obtain a d where g: "get_aggregator (ctx_data ctx) aid lim = (a, d)" by force
  from get_aggregator_inv [OF assms(1) g] agg_step_inv [of a "OpSub v"]
  obtain r where "agg_sub a v = Ret r" "\<forall>a'. r = Inr a' \<longrightarrow> agg_inv a'" "agg_data_inv d" by auto
  with g CallSub show ?thesis
    by (cases r) (simp_all add: native_sub_def store_aggregator_inv)
next
  case (CallRead aid lim)
  obtain a d where g: "get_aggregator (ctx_data ctx) aid lim = (a, d)" by force
  from get_aggregator_inv [OF assms(1) g] read_and_materialize_inv [of a rs fb aid] assms(2)
  obtain r where "read_and_materialize fb rs aid a = Ret r"
    "\<forall>v a'. r = Inr (v, a') \<longrightarrow> agg_inv a'" "agg_data_inv d" by blast
  with g CallRead show ?thesis
    by (cases r) (auto simp: native_read_def store_aggregator_inv)
next
  case (CallDestroy aid)
  with assms(1) show ?thesis by (simp add: native_destroy_def remove_aggregator_inv)
qed

lemma native_calls_inv:
  assumes "agg_data_inv (ctx_data ctx)"
    and "\<And>h k bs. rs h k = Inr (Some bs) \<Longrightarrow> fb bs \<noteq> None"
  shows "\<exists>ctx'. native_calls_ctx H fb rs ctx cs = Ret ctx' \<and> agg_data_inv (ctx_data ctx')"
  using assms(1)
proof (induction cs arbitrary: ctx)
  case Nil
  then show ?case by simp
next
  case (Cons c cs)
  have "\<exists>ctx'. native_call_ctx H fb rs ctx c = Ret ctx' \<and> agg_data_inv (ctx_data ctx')"
    using Cons.prems assms(2) by (rule native_call_inv)
  then obtain ctx' where "native_call_ctx H fb rs ctx c = Ret ctx'" "agg_data_inv (ctx_data ctx')" by blast
  with Cons.IH [of ctx'] show ?case by simp
qed

text \<open>A change that only carries well-formed deltas.\<close>

fun change_wf :: "aggregator_change \<Rightarrow> bool" where
  "change_wf (ChMerge d) = delta_wf d"
| "change_wf _ = True"

lemma change_of_aggregator_wf:
  assumes "agg_inv a"
  shows "\<exists>c. change_of_aggregator a = Ret c \<and> change_wf c"
  using assms
  by (cases "agg_state a")
    (auto simp: change_of_aggregator_def agg_inv_def delta_wf_def delta_new_def split: option.splits)

definition changes_wf :: "aggregator_change_set \<Rightarrow> bool" where
  "changes_wf cs \<longleftrightarrow> btm_wf cs \<and> (\<forall>aid c. btm_get cs aid = Some c \<longrightarrow> change_wf c)"

lemma changes_wf_insert: "changes_wf cs \<Longrightarrow> change_wf c \<Longrightarrow> changes_wf (btm_insert aid c cs)"
  by (auto simp: changes_wf_def btm_simps)

lemma changes_of_aggregators_wf:
  assumes "\<forall>(aid, a)\<in>set xs. agg_inv a" and "changes_wf cs"
  shows "\<exists>cs'. changes_of_aggregators xs cs = Ret cs' \<and> changes_wf cs'"
  using assms
proof (induction xs arbitrary: cs)
  case Nil
  then show ?case by simp
next
  case (Cons x xs)
  obtain aid a where x: "x = (aid, a)" by force
  with Cons.prems(1) obtain c where "change_of_aggregator a = Ret c" "change_wf c"
    using change_of_aggregator_wf [of a] by auto
  with Cons.IH [of "btm_insert aid c cs"] Cons.prems x show ?case by (simp add: changes_wf_insert)
qed

lemma fold_delete_wf: "changes_wf cs \<Longrightarrow> changes_wf (fold (\<lambda>aid. btm_insert aid ChDelete) ids cs)"
  by (induction ids arbitrary: cs) (auto simp: changes_wf_insert)

lemma into_change_set_wf:
  assumes "agg_data_inv (ctx_data ctx)"
  shows "\<exists>cs. into_change_set ctx = Ret cs \<and> changes_wf cs"
proof -
  have "\<forall>(aid, a)\<in>set (aggregators (ctx_data ctx)). agg_inv a"
    using assms by (auto simp: agg_data_inv_def btm.set_entries)
  moreover have "changes_wf []" by (simp add: changes_wf_def btm_simps btm_wf_def btm_get_def)
  ultimately obtain cs where "changes_of_aggregators (aggregators (ctx_data ctx)) [] = Ret cs" "changes_wf cs"
    using changes_of_aggregators_wf by blast
  then show ?thesis by (simp add: into_change_set_def fold_delete_wf)
qed

section \<open>Squashing change sets\<close>

text \<open>
  The specification of a change: its effect on the stored value, \<open>None\<close> where the change cannot be
  applied.
\<close>

fun change_effect :: "aggregator_change option \<Rightarrow> u128 option \<Rightarrow> u128 option option" where
  "change_effect None old = Some old"
| "change_effect (Some (ChWrite v)) old = Some (Some v)"
| "change_effect (Some ChDelete) old = Some None"
| "change_effect (Some (ChMerge d)) old = Option.bind old (\<lambda>b. map_option Some (apply_ok d b))"

text \<open>The pairs of changes on one aggregator that two consecutive sessions can produce.\<close>

fun change_compatible :: "aggregator_change option \<Rightarrow> aggregator_change option \<Rightarrow> bool" where
  "change_compatible (Some ChDelete) (Some _) = False"
| "change_compatible (Some (ChMerge d1)) (Some (ChMerge d2)) = (delta_wf d1 \<and> delta_wf d2 \<and> limit d1 = limit d2)"
| "change_compatible _ _ = True"

definition change_sequence ::
  "aggregator_change option \<Rightarrow> aggregator_change option \<Rightarrow> u128 option \<Rightarrow> u128 option option" where
  "change_sequence w1 w2 old = Option.bind (change_effect w1 old) (change_effect w2)"

lemma squash_change_effect:
  assumes "change_compatible (Some c1) (Some c2)"
  shows "\<exists>r. squash_change c1 c2 = Ret r \<and>
    (case r of
       Inr c \<Rightarrow> (\<forall>old x. change_sequence (Some c1) (Some c2) old = Some x \<longrightarrow> change_effect (Some c) old = Some x)
     | Inl e \<Rightarrow> (\<forall>old. change_sequence (Some c1) (Some c2) old = None))"
proof (cases c1)
  case ChDelete
  with assms show ?thesis by simp
next
  case (ChWrite v)
  show ?thesis
  proof (cases c2)
    case (ChMerge d)
    with ChWrite show ?thesis
      by (cases "apply_to d v") (auto simp: change_sequence_def apply_ok_def)
  qed (use ChWrite in \<open>auto simp: change_sequence_def\<close>)
next
  case (ChMerge d1)
  show ?thesis
  proof (cases c2)
    case (ChMerge d2)
    with \<open>c1 = ChMerge d1\<close> assms have v: "delta_valid (limit d2) d1" "delta_valid (limit d2) d2"
      by (simp_all add: delta_valid_def)
    show ?thesis
    proof (cases "merge_onto d2 d1")
      case (Inl e)
      then have "Option.bind (apply_ok d1 b) (apply_ok d2) = None" for b
        by (intro deltas.mrg_fails [OF v]) (simp add: merge_ok_def)
      then have none: "apply_ok d2 x = None" if "apply_ok d1 b = Some x" for b x
        using that by (metis bind.bind_lunit)
      have "change_sequence (Some c1) (Some c2) old = None" for old
        using ChMerge \<open>c1 = ChMerge d1\<close>
        by (cases old; cases "apply_ok d1 (the old)") (auto simp: change_sequence_def none)
      with Inl ChMerge \<open>c1 = ChMerge d1\<close> show ?thesis by simp
    next
      case (Inr d)
      then have "apply_ok d b = Option.bind (apply_ok d1 b) (apply_ok d2)" for b
        by (intro deltas.mrg_app [OF v]) (simp add: merge_ok_def)
      with Inr ChMerge \<open>c1 = ChMerge d1\<close> show ?thesis
        by (auto simp: change_sequence_def split: Option.bind_splits)
    qed
  qed (use ChMerge in \<open>auto simp: change_sequence_def split: Option.bind_splits\<close>)
qed

lemma change_sequence_None [simp]:
  "change_sequence None w = change_effect w"
  "change_sequence w None = change_effect w"
  by (auto simp: change_sequence_def fun_eq_iff split: Option.bind_splits)

lemma change_compatible_None [simp]: "change_compatible w None"
  by (cases w rule: option.exhaust; cases "the w") simp_all

text \<open>
  The promise of a squash for a family \<open>f\<close> of effects, one per aggregator: the result has these
  effects where they are defined, and an error means that one of them is never defined.
\<close>

definition squash_spec ::
  "(aggregator_id \<Rightarrow> u128 option \<Rightarrow> u128 option option) \<Rightarrow> vm_status + aggregator_change_set \<Rightarrow> bool" where
  "squash_spec f r =
    (case r of
       Inr cs \<Rightarrow> btm_wf cs \<and> (\<forall>aid old x. f aid old = Some x \<longrightarrow> change_effect (btm_get cs aid) old = Some x)
     | Inl e \<Rightarrow> (\<exists>aid. \<forall>old. f aid old = None))"

lemma squash_spec_mono:
  assumes "squash_spec f r" and "\<And>aid old x. g aid old = Some x \<Longrightarrow> f aid old = Some x"
  shows "squash_spec g r"
proof (cases r)
  case (Inl e)
  with assms(1) obtain aid where "\<forall>old. f aid old = None" by (auto simp: squash_spec_def)
  then have "\<forall>old. g aid old = None" using assms(2) [of aid] by (metis not_None_eq)
  with Inl show ?thesis by (auto simp: squash_spec_def)
next
  case (Inr cs)
  with assms show ?thesis by (auto simp: squash_spec_def)
qed

lemma agg_squash_loop_effect:
  assumes "btm_wf cs" and "distinct (map fst xs)"
    and "\<And>aid. change_compatible (btm_get cs aid) (map_of xs aid)"
  shows "\<exists>r. agg_squash_loop cs xs = Ret r
    \<and> squash_spec (\<lambda>aid. change_sequence (btm_get cs aid) (map_of xs aid)) r"
  using assms
proof (induction xs arbitrary: cs)
  case Nil
  then show ?case by (simp add: squash_spec_def)
next
  case (Cons x xs)
  obtain k c2 where x: "x = (k, c2)" by force
  have fresh: "map_of xs k = None" using Cons.prems(2) x by (simp add: map_of_eq_None_iff)
  let ?goal = "\<lambda>aid. change_sequence (btm_get cs aid) (map_of (x # xs) aid)"
  have rest: "\<exists>r. agg_squash_loop (btm_insert k c cs) xs = Ret r \<and> squash_spec ?goal r"
    if "\<And>old y. change_sequence (btm_get cs k) (Some c2) old = Some y \<Longrightarrow> change_effect (Some c) old = Some y" for c
  proof -
    have "change_compatible (btm_get (btm_insert k c cs) aid) (map_of xs aid)" for aid
      using Cons.prems(3) [of aid] Cons.prems(1) fresh x by (cases "aid = k") (auto simp: btm_simps)
    from Cons.IH [OF btm.wf_insert [OF Cons.prems(1)] _ this] Cons.prems(2)
    obtain r where "agg_squash_loop (btm_insert k c cs) xs = Ret r"
      "squash_spec (\<lambda>aid. change_sequence (btm_get (btm_insert k c cs) aid) (map_of xs aid)) r" by auto
    moreover from this(2) have "squash_spec ?goal r"
      by (rule squash_spec_mono) (use that fresh x Cons.prems(1) in \<open>auto simp: btm_simps split: if_splits\<close>)
    ultimately show ?thesis by blast
  qed
  show ?case
  proof (cases "btm_get cs k")
    case None
    with rest [of c2] x show ?thesis by simp
  next
    case (Some c1)
    with Cons.prems(3) [of k] x obtain r where r: "squash_change c1 c2 = Ret r"
      "case r of
         Inr c \<Rightarrow> (\<forall>old x. change_sequence (Some c1) (Some c2) old = Some x \<longrightarrow> change_effect (Some c) old = Some x)
       | Inl e \<Rightarrow> (\<forall>old. change_sequence (Some c1) (Some c2) old = None)"
      using squash_change_effect [of c1 c2] by auto
    show ?thesis
    proof (cases r)
      case (Inl e)
      with r Some x show ?thesis by (auto simp: squash_spec_def intro!: exI [of _ k])
    next
      case (Inr c)
      with r Some x rest [of c] show ?thesis by auto
    qed
  qed
qed

section \<open>Properties\<close>

text \<open>
  C24. A delta aggregator followed by a read behaves like an aggregator that knows its value: for every
  stored value within the limit and every sequence of additions and subtractions, running the sequence
  on a fresh delta aggregator and then materialising it succeeds with a value exactly when running the
  sequence directly on the stored value does.
\<close>

theorem delta_aggregator_equals_data_aggregator:
  assumes "resolver (id_handle aid) (id_key aid) = Inr (Some bs)" and "fb bs = Some s"
    and "s \<le> lim"
  shows "(\<exists>a a'. run_ops (delta_aggregator lim) ops = Ret (Inr a)
        \<and> read_and_materialize fb resolver aid a = Ret (Inr (x, a')))
    \<longleftrightarrow> (\<exists>d. run_ops \<lparr>agg_value = s, agg_state = Data, agg_limit = lim, agg_history = None\<rparr> ops = Ret (Inr d)
        \<and> agg_value d = x)"
proof -
  let ?a = "delta_aggregator lim"
  let ?d = "\<lparr>agg_value = s, agg_state = Data, agg_limit = lim, agg_history = None\<rparr>"
  have a: "agg_history ?a = Some history_new" "agg_state ?a \<noteq> Data" "agg_inv ?a"
    "absorbs (int (unat s)) ?a" "agg_limit ?d = agg_limit ?a"
    "agg_signed ?d = int (unat s) + agg_signed ?a"
    using assms(3)
    by (simp_all add: delta_aggregator_def history_new_def agg_defs absorbs_def word_le_nat_alt)
  have mat: "(\<exists>a'. read_and_materialize fb resolver aid a = Ret (Inr (x, a'))) \<longleftrightarrow>
      absorbs (int (unat s)) a \<and> int (unat x) = int (unat s) + agg_signed a"
    if run: "run_ops ?a ops = Ret (Inr a)" for a
  proof -
    from run_ops_delta_limit [OF a(1,2) run] run_ops_inv [OF a(3) run]
    obtain h where "agg_history a = Some h" "agg_state a \<noteq> Data" "agg_inv a" by auto
    then show ?thesis using assms(1,2) by (rule read_and_materialize_delta)
  qed
  have sgn: "agg_signed d = int (unat (agg_value d))" if "run_ops ?d ops = Ret (Inr d)" for d
    using run_ops_data_state [OF _ that] by (simp add: agg_signed_def)
  have "(\<exists>a a'. run_ops ?a ops = Ret (Inr a) \<and> read_and_materialize fb resolver aid a = Ret (Inr (x, a')))
      \<longleftrightarrow> (\<exists>a. run_ops ?a ops = Ret (Inr a) \<and> absorbs (int (unat s)) a
            \<and> int (unat s) + agg_signed a = int (unat x))"
    using mat by (metis (no_types, lifting))
  also have "\<dots> \<longleftrightarrow> (\<exists>d. run_ops ?d ops = Ret (Inr d) \<and> agg_signed d = int (unat x))"
    using a by (intro run_ops_simulation) simp_all
  also have "\<dots> \<longleftrightarrow> (\<exists>d. run_ops ?d ops = Ret (Inr d) \<and> agg_value d = x)"
    using sgn by (metis of_nat_eq_iff word_unat_eq_iff)
  finally show ?thesis .
qed

theorem delta_aggregator_equals_data_aggregator_witness:
  "(\<exists>a a'. run_ops (delta_aggregator 100) [OpAdd 5, OpSub 7] = Ret (Inr a)
      \<and> read_and_materialize u128_from_bytes (\<lambda>_ _. Inr (Some (u128_to_bytes 10)) :: unit + bytes option)
            (AggregatorID [] []) a = Ret (Inr (8, a')))"
proof -
  have "\<exists>d. run_ops \<lparr>agg_value = 10, agg_state = Data, agg_limit = 100, agg_history = None\<rparr> [OpAdd 5, OpSub 7]
      = Ret (Inr d) \<and> agg_value d = 8"
    by (simp add: agg_add_def agg_sub_def addition_def subtraction_def)
  then show ?thesis
    by (subst delta_aggregator_equals_data_aggregator [where bs = "u128_to_bytes 10" and s = 10]) simp_all
qed

text \<open>
  Every sequence of native calls of a transaction, whatever the calls and even when some of them
  fail, returns without a panic, and the context it leaves always converts into a change set whose
  deltas are well-formed (the current delta is covered by the recorded history). The hypothesis is
  that the stored values of aggregators decode.
\<close>

theorem native_calls_give_change_set:
  assumes "\<And>h k bs. rs h k = Inr (Some bs) \<Longrightarrow> fb bs \<noteq> None"
  shows "\<exists>ctx cs. native_calls_ctx H fb rs (context_new th) calls = Ret ctx
    \<and> into_change_set ctx = Ret cs \<and> changes_wf cs"
proof -
  have "agg_data_inv (ctx_data (context_new th))" by (simp add: context_new_def agg_data_inv_default)
  then have "\<exists>ctx. native_calls_ctx H fb rs (context_new th) calls = Ret ctx \<and> agg_data_inv (ctx_data ctx)"
    using assms by (rule native_calls_inv)
  then obtain ctx where "native_calls_ctx H fb rs (context_new th) calls = Ret ctx"
    "agg_data_inv (ctx_data ctx)" by blast
  with into_change_set_wf show ?thesis by blast
qed

theorem native_calls_give_change_set_witness:
  "\<exists>ctx cs. native_calls_ctx (\<lambda>_. replicate 32 1) u128_from_bytes
      (\<lambda>_ _. Inr (Some (u128_to_bytes 10)) :: unit + bytes option) (context_new [7])
      [CallAdd (AggregatorID [1] [2]) 100 30, CallSub (AggregatorID [1] [2]) 100 50,
       CallRead (AggregatorID [1] [2]) 100, CallNew [1] 9, CallDestroy (AggregatorID [1] [2])] = Ret ctx
    \<and> into_change_set ctx = Ret cs \<and> changes_wf cs"
  by (rule native_calls_give_change_set) auto

text \<open>
  Squashing the aggregator changes of a later part of a transaction into those of an earlier part
  refines doing one after the other: it never panics on compatible change sets, a squashed change set
  gives every aggregator the value that applying the two changes in sequence gives it wherever the
  sequence is defined, and an error is only returned when some aggregator has a pair of changes that
  no stored value survives.
\<close>

theorem agg_squash_refines_sequence:
  assumes "btm_wf cs1" and "btm_wf cs2"
    and "\<And>aid. change_compatible (btm_get cs1 aid) (btm_get cs2 aid)"
  shows "\<exists>r. agg_squash cs1 cs2 = Ret r
    \<and> squash_spec (\<lambda>aid. change_sequence (btm_get cs1 aid) (btm_get cs2 aid)) r"
  using agg_squash_loop_effect [OF assms(1), of cs2] assms
  by (simp add: agg_squash_def btm.distinct_keys btm_get_def [of cs2, abs_def])

text \<open>
  C29. The key of a new aggregator is derived from the number of aggregators the context holds and not
  from the number created so far: after creating A and B, adding to B and destroying A, the next
  creation gets the key of B again and replaces it, so the amount added to B is lost.
\<close>

theorem new_aggregator_reuses_live_key:
  assumes "\<And>bs. length (H bs) = 32"
    and "H (th @ u32_be_bytes 0) \<noteq> H (th @ u32_be_bytes 1)"
    and "v \<le> lim"
    and a_def: "a = AggregatorID hnd (H (th @ u32_be_bytes 0))"
    and b_def: "b = AggregatorID hnd (H (th @ u32_be_bytes 1))"
  shows "\<exists>ctx. native_calls_ctx H fb rs (context_new th)
        [CallNew hnd lim, CallNew hnd lim, CallAdd b lim v, CallDestroy a] = Ret ctx
      \<and> map_option agg_value (btm_get (aggregators (ctx_data ctx)) b) = Some v
      \<and> fst (native_new_aggregator H 0 ctx hnd lim) = Inr (0, [AggregatorStruct hnd (id_key b) lim])
      \<and> map_option agg_value
          (btm_get (aggregators (ctx_data (snd (native_new_aggregator H 0 ctx hnd lim)))) b) = Some 0"
proof -
  let ?D = "\<lambda>x. \<lparr>agg_value = x, agg_state = Data, agg_limit = lim, agg_history = None\<rparr>"
  let ?C = "\<lambda>N A. \<lparr>txn_hash = th, ctx_data = \<lparr>new_aggregators = N, destroyed_aggregators = {}, aggregators = A\<rparr>\<rparr>"
  have ne: "a \<noteq> b" "b \<noteq> a" using assms(2) by (auto simp: a_def b_def)
  have new_a: "native_new_aggregator H 0 (?C N []) hnd lim
      = (Inr (0, [AggregatorStruct hnd (id_key a) lim]), ?C (insert a N) [(a, ?D 0)])" for N
    by (simp add: native_new_aggregator_def new_aggregator_key_def num_aggregators_def
        create_new_aggregator_def assms(1) a_def Let_def)
  have new_b: "native_new_aggregator H 0 (?C N [x]) hnd lim
      = (Inr (0, [AggregatorStruct hnd (id_key b) lim]), ?C (insert b N) (btm_insert b (?D 0) [x]))" for N x
    by (simp add: native_new_aggregator_def new_aggregator_key_def num_aggregators_def
        create_new_aggregator_def assms(1) b_def Let_def)
  have start: "context_new th = ?C {} []"
    by (simp add: context_new_def aggregator_data_default_def)
  have add: "native_add 0 (?C N (btm_insert b (?D 0) [(a, ?D 0)])) b lim v
      = Ret (Inr (0, []), ?C N (btm_insert b (?D v) [(a, ?D 0)]))" for N
    using ne assms(3)
    by (simp add: native_add_def get_aggregator_def btm_get_def agg_add_def addition_def store_aggregator_def)
  have destroy: "native_destroy 0 (?C {b, a} (btm_insert b (?D v) [(a, ?D 0)])) a
      = (Inr (0, []), ?C ({b, a} - {a}) [(b, ?D v)])"
    using ne by (simp add: native_destroy_def remove_aggregator_def btm_remove_def Let_def)
  show ?thesis
    by (simp add: start new_a new_b add destroy btm_get_def del: btm_insert.simps(2))
      (simp add: btm_get_def)
qed

lemma u32_be_bytes_01: "u32_be_bytes 0 = [0, 0, 0, 0]" "u32_be_bytes 1 = [0, 0, 0, 1]"
  by code_simp+

theorem new_aggregator_reuses_live_key_witness:
  "\<exists>ctx. native_calls_ctx (\<lambda>bs. replicate 31 0 @ [last bs]) u128_from_bytes (\<lambda>_ _. Inl ()) (context_new [9])
        [CallNew [1] 100, CallNew [1] 100, CallAdd (AggregatorID [1] (replicate 31 0 @ [1])) 100 40,
         CallDestroy (AggregatorID [1] (replicate 31 0 @ [0]))] = Ret ctx
      \<and> map_option agg_value
          (btm_get (aggregators (ctx_data ctx)) (AggregatorID [1] (replicate 31 0 @ [1]))) = Some 40
      \<and> fst (native_new_aggregator (\<lambda>bs. replicate 31 0 @ [last bs]) 0 ctx [1] 100)
          = Inr (0, [AggregatorStruct [1] (replicate 31 0 @ [1]) 100])
      \<and> map_option agg_value
          (btm_get (aggregators (ctx_data (snd (native_new_aggregator (\<lambda>bs. replicate 31 0 @ [last bs]) 0 ctx [1] 100))))
            (AggregatorID [1] (replicate 31 0 @ [1]))) = Some 0"
  using new_aggregator_reuses_live_key
    [of "\<lambda>bs. replicate 31 0 @ [last bs]" "[9]" 40 100
       "AggregatorID [1] (replicate 31 0 @ [0])" "[1]" "AggregatorID [1] (replicate 31 0 @ [1])"
       u128_from_bytes "\<lambda>_ _. Inl ()"]
  by (simp add: u32_be_bytes_01)

theorem agg_squash_refines_sequence_witness:
  "\<exists>r. agg_squash [(AggregatorID [] [1], ChWrite 5)] [(AggregatorID [] [1], ChMerge (delta_add 3 10))] = Ret r
    \<and> squash_spec (\<lambda>aid. change_sequence (btm_get [(AggregatorID [] [1], ChWrite 5)] aid)
        (btm_get [(AggregatorID [] [1], ChMerge (delta_add 3 10))] aid)) r"
  by (rule agg_squash_refines_sequence)
    (auto simp: btm_wf_def btm_get_def delta_add_def delta_new_def delta_wf_def)

end
