(* ===== verification/ChangeSetExt.thy ===== *)
theory ChangeSetExt
  imports Delta
begin

text \<open>
  Change sets extended with deltas and the outputs of transactions
  (\<^verbatim>\<open>language/ol-aggregator/src/transaction.rs\<close>, \<^verbatim>\<open>types/src/transaction/change_set.rs\<close> and
  \<^verbatim>\<open>TransactionOutput\<close> of \<^verbatim>\<open>types/src/transaction/mod.rs\<close>). The checker of a change set is a trait
  object: a parameter of the operations. Squashing works key by key, which the locale
  \<open>keyed_fold\<close> captures for both loops.
\<close>

section \<open>Loops over distinct keys\<close>

fun try_fold :: "('s \<Rightarrow> 'x \<Rightarrow> 'e + 's) \<Rightarrow> 's \<Rightarrow> 'x list \<Rightarrow> 'e + 's" where
  "try_fold step s [] = Inr s"
| "try_fold step s (x # xs) = and_then (step s x) (\<lambda>s'. try_fold step s' xs)"

text \<open>
  A step on one key changes what is found at this key, as \<open>at\<close> says, and nothing else. A loop over
  distinct keys then acts on every key on its own.
\<close>

locale keyed_fold =
  fixes step :: "'s \<Rightarrow> 'k \<times> 'o \<Rightarrow> 'e + 's"
    and look :: "'s \<Rightarrow> 'k \<Rightarrow> 'p"
    and inv :: "'s \<Rightarrow> bool"
    and at :: "'p \<Rightarrow> 'o \<Rightarrow> 'e + 'p"
  assumes step_ok: "inv s \<Longrightarrow> at (look s k) x = Inr p \<Longrightarrow>
      \<exists>s'. step s (k, x) = Inr s' \<and> inv s' \<and> look s' = (look s)(k := p)"
begin

lemma try_fold_ok:
  assumes "inv s" and "distinct (map fst xs)"
    and "\<And>k. case map_of xs k of None \<Rightarrow> f k = look s k | Some x \<Rightarrow> at (look s k) x = Inr (f k)"
  shows "\<exists>s'. try_fold step s xs = Inr s' \<and> inv s' \<and> look s' = f"
  using assms
proof (induction xs arbitrary: s)
  case Nil
  then show ?case by (auto simp: fun_eq_iff)
next
  case (Cons x xs)
  obtain k y where x: "x = (k, y)" by force
  from Cons.prems(3) [of k] x have "at (look s k) y = Inr (f k)" by simp
  from step_ok [OF Cons.prems(1) this] obtain s' where
    s': "step s (k, y) = Inr s'" "inv s'" "look s' = (look s)(k := f k)" by blast
  have "map_of xs k = None" using Cons.prems(2) x by (simp add: map_of_eq_None_iff)
  then have "case map_of xs j of None \<Rightarrow> f j = look s' j | Some z \<Rightarrow> at (look s' j) z = Inr (f j)" for j
    using Cons.prems(3) [of j] x s'(3) by (cases "j = k") (auto split: option.splits)
  from Cons.IH [OF s'(2) _ this] Cons.prems(2) x s'(1) show ?case by simp
qed

end

section \<open>Change sets with deltas\<close>

record ('k, 'ev) change_set =
  cs_write_set :: "'k write_set"
  cs_events :: "'ev list"

type_synonym ('k, 'ev) checker = "('k, 'ev) change_set \<Rightarrow> string + unit"

text \<open>\<^verbatim>\<open>ChangeSet::new\<close> runs the checker on the change set it builds.\<close>

definition change_set_new ::
  "'k write_set \<Rightarrow> 'ev list \<Rightarrow> ('k, 'ev) checker \<Rightarrow> string + ('k, 'ev) change_set" where
  "change_set_new ws events checker =
     (let myself = \<lparr>cs_write_set = ws, cs_events = events\<rparr> in
      and_then (checker myself) (\<lambda>_. Inr myself))"

record ('k, 'ev) change_set_ext =
  ext_deltas :: "'k delta_change_set"
  ext_change_set :: "('k, 'ev) change_set"
  ext_checker :: "('k, 'ev) checker"

definition change_set_ext_new ::
  "'k delta_change_set \<Rightarrow> ('k, 'ev) change_set \<Rightarrow> ('k, 'ev) checker \<Rightarrow> ('k, 'ev) change_set_ext" where
  "change_set_ext_new ds cs checker = \<lparr>ext_deltas = ds, ext_change_set = cs, ext_checker = checker\<rparr>"

text \<open>A delta on an operation already in the write set.\<close>

fun delta_on_write ::
  "(u128 \<Rightarrow> bytes) \<Rightarrow> (bytes \<Rightarrow> u128 option) \<Rightarrow> delta_op \<Rightarrow> write_op \<Rightarrow> anyhow_error + write_op" where
  "delta_on_write to_bytes from_bytes op (Creation data) =
     and_then (ok_or DeserializationError (from_bytes data)) (\<lambda>val.
     and_then (map_err (\<lambda>_. DeltaError) (apply_to op val)) (\<lambda>x. Inr (Creation (to_bytes x))))"
| "delta_on_write to_bytes from_bytes op (Modification data) =
     and_then (ok_or DeserializationError (from_bytes data)) (\<lambda>val.
     and_then (map_err (\<lambda>_. DeltaError) (apply_to op val)) (\<lambda>x. Inr (Modification (to_bytes x))))"
| "delta_on_write to_bytes from_bytes op Deletion = Inl AggregatorValueDeleted"

type_synonym 'k write_delta = "'k write_set_mut \<times> 'k delta_change_set"

definition squash_delta_step ::
  "(u128 \<Rightarrow> bytes) \<Rightarrow> (bytes \<Rightarrow> u128 option) \<Rightarrow> 'k::linorder write_delta \<Rightarrow> 'k \<times> delta_op
     \<Rightarrow> anyhow_error + 'k write_delta" where
  "squash_delta_step to_bytes from_bytes s x =
     (case (s, x) of ((write_ops, delta_ops), (key, op)) \<Rightarrow>
        (case btm_get write_ops key of
           Some r \<Rightarrow>
             and_then (delta_on_write to_bytes from_bytes op r) (\<lambda>r'.
               Inr (btm_insert key r' write_ops, delta_ops))
         | None \<Rightarrow>
             (case btm_get delta_ops key of
                Some d \<Rightarrow>
                  and_then (map_err (\<lambda>_. DeltaError) (merge_onto op d)) (\<lambda>op'.
                    Inr (write_ops, btm_insert key op' delta_ops))
              | None \<Rightarrow> Inr (write_ops, btm_insert key op delta_ops))))"

definition squash_delta_change_set ::
  "(u128 \<Rightarrow> bytes) \<Rightarrow> (bytes \<Rightarrow> u128 option) \<Rightarrow> ('k::linorder, 'ev) change_set_ext \<Rightarrow> 'k delta_change_set
     \<Rightarrow> anyhow_error + ('k, 'ev) change_set_ext" where
  "squash_delta_change_set to_bytes from_bytes self other =
     (let checker = ext_checker self;
          write_set = into_mut (cs_write_set (ext_change_set self));
          events = cs_events (ext_change_set self) in
      and_then (try_fold (squash_delta_step to_bytes from_bytes) (write_set, ext_deltas self) other)
        (\<lambda>(write_set, delta_set).
      and_then (wsm_freeze write_set) (\<lambda>frozen.
      and_then (map_err CheckerError (change_set_new frozen events checker)) (\<lambda>cs.
      Inr (change_set_ext_new delta_set cs checker)))))"

definition squash_change_step ::
  "'k::linorder write_delta \<Rightarrow> 'k \<times> write_op \<Rightarrow> anyhow_error + 'k write_delta" where
  "squash_change_step s x =
     (case (s, x) of ((write_ops, delta), (key, op)) \<Rightarrow>
        (case btm_get write_ops key of
           Some r \<Rightarrow>
             and_then (squash_entry r op) (\<lambda>entry.
               Inr (case entry of Some op' \<Rightarrow> btm_insert key op' write_ops
                                | None \<Rightarrow> btm_remove key write_ops, delta))
         | None \<Rightarrow> Inr (btm_insert key op write_ops, snd (dcs_remove key delta))))"

definition squash_change_set ::
  "('k::linorder, 'ev) change_set_ext \<Rightarrow> ('k, 'ev) change_set \<Rightarrow> anyhow_error + ('k, 'ev) change_set_ext" where
  "squash_change_set self other =
     (let checker = ext_checker self;
          write_set = into_mut (cs_write_set (ext_change_set self));
          events = cs_events (ext_change_set self) in
      and_then (try_fold squash_change_step (write_set, ext_deltas self) (into_mut (cs_write_set other)))
        (\<lambda>(write_set, delta).
      and_then (wsm_freeze write_set) (\<lambda>frozen.
      and_then (map_err CheckerError (change_set_new frozen (events @ cs_events other) checker)) (\<lambda>cs.
      Inr (change_set_ext_new delta cs checker)))))"

definition ext_squash ::
  "(u128 \<Rightarrow> bytes) \<Rightarrow> (bytes \<Rightarrow> u128 option) \<Rightarrow> ('k::linorder, 'ev) change_set_ext
     \<Rightarrow> ('k, 'ev) change_set_ext \<Rightarrow> anyhow_error + ('k, 'ev) change_set_ext" where
  "ext_squash to_bytes from_bytes self other =
     and_then (squash_change_set self (ext_change_set other)) (\<lambda>s.
       squash_delta_change_set to_bytes from_bytes s (ext_deltas other))"

section \<open>Transaction outputs\<close>

datatype ('c, 's) transaction_status = Discard 'c | Keep 's | Retry

fun is_discarded :: "('c, 's) transaction_status \<Rightarrow> bool" where
  "is_discarded (Discard _) = True"
| "is_discarded (Keep _) = False"
| "is_discarded Retry = True"

record ('k, 'ev, 'c, 's) transaction_output =
  out_write_set :: "'k write_set"
  out_events :: "'ev list"
  gas_used :: u64
  out_status :: "('c, 's) transaction_status"

record ('k, 'ev, 'c, 's) transaction_output_ext =
  toe_deltas :: "'k delta_change_set"
  toe_output :: "('k, 'ev, 'c, 's) transaction_output"

definition transaction_output_ext_from ::
  "('k, 'ev, 'c, 's) transaction_output \<Rightarrow> ('k, 'ev, 'c, 's) transaction_output_ext" where
  "transaction_output_ext_from output = \<lparr>toe_deltas = dcs_empty, toe_output = output\<rparr>"

definition merge_delta_writes ::
  "('k::linorder, 'ev, 'c, 's) transaction_output \<Rightarrow> 'k write_set_mut
     \<Rightarrow> ('k, 'ev, 'c, 's) transaction_output outcome" where
  "merge_delta_writes output delta_writes =
     out_bind (expect_ok (wsm_squash (into_mut (out_write_set output)) delta_writes)) (\<lambda>write_set_mut.
     out_bind (expect_ok (wsm_freeze write_set_mut)) (\<lambda>frozen.
       Ret (output\<lparr>out_write_set := frozen\<rparr>)))"

definition into_transaction_output ::
  "(u128 \<Rightarrow> bytes) \<Rightarrow> (bytes \<Rightarrow> u128 option) \<Rightarrow> ('k::linorder \<Rightarrow> 'e + bytes option)
     \<Rightarrow> ('k, 'ev, 'c, 's) transaction_output_ext \<Rightarrow> ('k, 'ev, 'c, 's) transaction_output outcome" where
  "into_transaction_output to_bytes from_bytes state_view self =
     (let delta_change_set = toe_deltas self; txn_output = toe_output self in
      if is_discarded (out_status txn_output) \<or> delta_change_set = [] then Ret txn_output
      else
        out_bind (try_into_write_set_mut to_bytes from_bytes state_view delta_change_set) (\<lambda>r.
        out_bind (expect_ok r) (\<lambda>materialized_deltas.
          merge_delta_writes txn_output materialized_deltas)))"

definition output_with_delta_writes ::
  "('k::linorder, 'ev, 'c, 's) transaction_output_ext \<Rightarrow> 'k write_set_mut
     \<Rightarrow> ('k, 'ev, 'c, 's) transaction_output outcome" where
  "output_with_delta_writes self delta_writes =
     (let delta_change_set = toe_deltas self; txn_output = toe_output self in
      if is_discarded (out_status txn_output) \<or> delta_change_set = [] then Ret txn_output
      else if length delta_change_set \<noteq> length delta_writes then Panic
      else merge_delta_writes txn_output delta_writes)"

section \<open>Specification: the effect of a change set with deltas\<close>

text \<open>
  What a change set says about one key is an optional operation and an optional delta. Its effect on
  the stored bytes is \<open>None\<close> where it cannot be applied: an operation needs the right state of the
  key, a delta needs a stored value that decodes and that it applies to.
\<close>

type_synonym key_change = "write_op option \<times> delta_op option"

fun key_effect ::
  "(u128 \<Rightarrow> bytes) \<Rightarrow> (bytes \<Rightarrow> u128 option) \<Rightarrow> key_change \<Rightarrow> bytes option \<Rightarrow> bytes option option" where
  "key_effect tb fb (Some op, _) old = (if op_applicable op old then Some (extract_raw_bytes op) else None)"
| "key_effect tb fb (None, Some d) old =
     Option.bind old (\<lambda>bs. Option.bind (fb bs) (\<lambda>b. map_option (\<lambda>x. Some (tb x)) (apply_ok d b)))"
| "key_effect tb fb (None, None) old = Some old"

definition one_change :: "key_change \<Rightarrow> bool" where
  "one_change p \<longleftrightarrow> fst p = None \<or> snd p = None"

text \<open>The two steps on one key.\<close>

fun change_at :: "key_change \<Rightarrow> write_op \<Rightarrow> anyhow_error + key_change" where
  "change_at (Some r, d) op = and_then (squash_entry r op) (\<lambda>e. Inr (e, d))"
| "change_at (None, d) op = Inr (Some op, None)"

fun delta_at ::
  "(u128 \<Rightarrow> bytes) \<Rightarrow> (bytes \<Rightarrow> u128 option) \<Rightarrow> key_change \<Rightarrow> delta_op \<Rightarrow> anyhow_error + key_change" where
  "delta_at tb fb (Some r, d) op = and_then (delta_on_write tb fb op r) (\<lambda>r'. Inr (Some r', d))"
| "delta_at tb fb (None, Some d) op =
     and_then (map_err (\<lambda>_. DeltaError) (merge_onto op d)) (\<lambda>op'. Inr (None, Some op'))"
| "delta_at tb fb (None, None) op = Inr (None, Some op)"

definition wd_look :: "'k::linorder write_delta \<Rightarrow> 'k \<Rightarrow> key_change" where
  "wd_look s k = (btm_get (fst s) k, btm_get (snd s) k)"

definition wd_wf :: "'k::linorder write_delta \<Rightarrow> bool" where
  "wd_wf s \<longleftrightarrow> btm_wf (fst s) \<and> btm_wf (snd s)"

interpretation change_fold: keyed_fold squash_change_step wd_look wd_wf change_at
proof
  fix s :: "'a write_delta" and k x p
  assume "wd_wf s" and at: "change_at (wd_look s k) x = Inr p"
  obtain ws ds where s: "s = (ws, ds)" by force
  with \<open>wd_wf s\<close> have wf: "btm_wf ws" "btm_wf ds" by (simp_all add: wd_wf_def)
  show "\<exists>s'. squash_change_step s (k, x) = Inr s' \<and> wd_wf s' \<and> wd_look s' = (wd_look s)(k := p)"
    using at wf s
    by (cases "btm_get ws k")
      (auto simp: squash_change_step_def wd_look_def wd_wf_def and_then_eq_Inr_iff btm_put_get
        btm_simps dcs_remove_def fun_eq_iff)
qed

interpretation delta_fold: keyed_fold "squash_delta_step tb fb" wd_look wd_wf "delta_at tb fb" for tb fb
proof
  fix s :: "'a write_delta" and k x p
  assume "wd_wf s" and at: "delta_at tb fb (wd_look s k) x = Inr p"
  obtain ws ds where s: "s = (ws, ds)" by force
  with \<open>wd_wf s\<close> have wf: "btm_wf ws" "btm_wf ds" by (simp_all add: wd_wf_def)
  show "\<exists>s'. squash_delta_step tb fb s (k, x) = Inr s' \<and> wd_wf s' \<and> wd_look s' = (wd_look s)(k := p)"
    using at wf s
    by (cases "btm_get ws k"; cases "btm_get ds k")
      (auto simp: squash_delta_step_def wd_look_def wd_wf_def and_then_eq_Inr_iff btm_simps fun_eq_iff)
qed

lemma change_at_effect:
  assumes "one_change p" and "key_effect tb fb p old = Some mid" and "op_applicable op mid"
  shows "\<exists>p'. change_at p op = Inr p' \<and> one_change p' \<and> (snd p' = None \<or> snd p' = snd p)
    \<and> key_effect tb fb p' old = Some (extract_raw_bytes op)"
proof (cases p)
  case (Pair w d)
  show ?thesis
  proof (cases w)
    case (Some r)
    with Pair assms have d: "d = None" and r: "op_applicable r old" "mid = extract_raw_bytes r"
      by (auto simp: one_change_def split: if_splits)
    with squash_at_refines [of "Some r" old "Some op"] assms(3) obtain e where
      e: "squash_entry r op = Inr e" "opt_applicable e old" "opt_apply e old = extract_raw_bytes op"
      by (auto simp: opt_applicable_def opt_apply_def)
    then have "key_effect tb fb (e, None) old = Some (extract_raw_bytes op)"
      by (cases e) (auto simp: opt_applicable_def opt_apply_def)
    with Pair Some d e(1) show ?thesis by (simp add: one_change_def)
  next
    case None
    have "op_applicable op old"
      using assms(2,3) Pair None by (cases op; cases d) (auto split: Option.bind_splits)
    with Pair None show ?thesis by (simp add: one_change_def)
  qed
qed

lemma delta_on_write_effect:
  assumes rt: "\<And>v. fb (tb v) = Some v"
    and "op_applicable r old" and "key_effect tb fb (None, Some d) (extract_raw_bytes r) = Some new"
  shows "\<exists>r'. delta_on_write tb fb d r = Inr r' \<and> op_applicable r' old \<and> extract_raw_bytes r' = new"
  using assms(2,3)
  by (cases r) (auto simp: apply_ok_def split: Option.bind_splits)

lemma delta_at_effect:
  assumes rt: "\<And>v. fb (tb v) = Some v"
    and "one_change p" and "key_effect tb fb p old = Some mid"
    and "key_effect tb fb (None, Some d) mid = Some new"
    and "delta_valid lim d" and "\<And>d1. snd p = Some d1 \<Longrightarrow> delta_valid lim d1"
  shows "\<exists>p'. delta_at tb fb p d = Inr p' \<and> one_change p' \<and> key_effect tb fb p' old = Some new"
proof (cases p)
  case (Pair w d0)
  show ?thesis
  proof (cases w)
    case (Some r)
    with Pair assms(3) have r: "op_applicable r old" "mid = extract_raw_bytes r"
      by (auto split: if_splits)
    with assms(4) obtain r' where
      "delta_on_write tb fb d r = Inr r'" "op_applicable r' old" "extract_raw_bytes r' = new"
      using delta_on_write_effect [of fb tb r old d new] rt by auto
    with Pair Some assms(2) show ?thesis by (auto simp: one_change_def)
  next
    case None
    show ?thesis
    proof (cases d0)
      case (Some d1)
      with Pair assms(6) have v: "delta_valid lim d1" by simp
      from assms(3) Pair None Some obtain bs b x where
        old: "old = Some bs" "fb bs = Some b" "apply_ok d1 b = Some x" "mid = Some (tb x)"
        by (auto split: Option.bind_splits)
      with assms(4) rt obtain y where y: "apply_ok d x = Some y" "new = Some (tb y)"
        by (auto split: Option.bind_splits)
      then have run: "Option.bind (apply_ok d1 b) (apply_ok d) = Some y" using old(3) by simp
      then obtain m where m: "merge_ok d d1 = Some m"
        using deltas.mrg_fails [OF v assms(5), of b] by fastforce
      with run deltas.mrg_app [OF v assms(5) m, of b] have "apply_ok m b = Some y" by simp
      with m old(1,2) y(2) Pair None Some show ?thesis
        by (auto simp: merge_ok_def one_change_def)
    next
      case None
      with Pair \<open>w = None\<close> assms(3,4) show ?thesis by (simp add: one_change_def)
    qed
  qed
qed

text \<open>Change sets as a whole.\<close>

definition ext_state :: "('k::linorder, 'ev) change_set_ext \<Rightarrow> 'k write_delta" where
  "ext_state e = (into_mut (cs_write_set (ext_change_set e)), ext_deltas e)"

definition ext_wf :: "('k::linorder, 'ev) change_set_ext \<Rightarrow> bool" where
  "ext_wf e \<longleftrightarrow> wd_wf (ext_state e) \<and> (\<forall>k. one_change (wd_look (ext_state e) k))"

definition ext_runs ::
  "(u128 \<Rightarrow> bytes) \<Rightarrow> (bytes \<Rightarrow> u128 option) \<Rightarrow> ('k::linorder, 'ev) change_set_ext
     \<Rightarrow> ('k \<rightharpoonup> bytes) \<Rightarrow> ('k \<rightharpoonup> bytes) \<Rightarrow> bool" where
  "ext_runs tb fb e st st' \<longleftrightarrow> (\<forall>k. key_effect tb fb (wd_look (ext_state e) k) (st k) = Some (st' k))"

lemma freeze_and_check:
  assumes "\<And>c. checker c = Inr ()"
  shows "and_then (wsm_freeze ws) (\<lambda>frozen.
      and_then (map_err CheckerError (change_set_new frozen events checker)) (\<lambda>cs.
      Inr (change_set_ext_new ds cs checker)))
    = Inr \<lparr>ext_deltas = ds, ext_change_set = \<lparr>cs_write_set = V0 ws, cs_events = events\<rparr>, ext_checker = checker\<rparr>"
  by (simp add: wsm_freeze_def change_set_new_def change_set_ext_new_def assms Let_def)

lemma squash_change_set_effect:
  assumes wf: "ext_wf e1" and ws: "btm_wf ws" "into_mut (cs_write_set cs) = ws"
    and check: "\<And>c. ext_checker e1 c = Inr ()"
    and run: "\<And>k. key_effect tb fb (wd_look (ext_state e1) k) (st k) = Some (mid k)"
    and app: "\<And>k op. btm_get ws k = Some op \<Longrightarrow> op_applicable op (mid k)"
  shows "\<exists>e. squash_change_set e1 cs = Inr e \<and> ext_wf e \<and> ext_checker e = ext_checker e1
    \<and> cs_events (ext_change_set e) = cs_events (ext_change_set e1) @ cs_events cs
    \<and> (\<forall>k. snd (wd_look (ext_state e) k) = None \<or> snd (wd_look (ext_state e) k) = snd (wd_look (ext_state e1) k))
    \<and> (\<forall>k. key_effect tb fb (wd_look (ext_state e) k) (st k) =
         Some (case btm_get ws k of None \<Rightarrow> mid k | Some op \<Rightarrow> extract_raw_bytes op))"
proof -
  let ?s = "ext_state e1"
  have "\<forall>k. \<exists>p. (case btm_get ws k of None \<Rightarrow> p = wd_look ?s k | Some op \<Rightarrow> change_at (wd_look ?s k) op = Inr p)
      \<and> one_change p \<and> (snd p = None \<or> snd p = snd (wd_look ?s k))
      \<and> key_effect tb fb p (st k) = Some (case btm_get ws k of None \<Rightarrow> mid k | Some op \<Rightarrow> extract_raw_bytes op)"
  proof
    fix k
    show "\<exists>p. (case btm_get ws k of None \<Rightarrow> p = wd_look ?s k | Some op \<Rightarrow> change_at (wd_look ?s k) op = Inr p)
      \<and> one_change p \<and> (snd p = None \<or> snd p = snd (wd_look ?s k))
      \<and> key_effect tb fb p (st k) = Some (case btm_get ws k of None \<Rightarrow> mid k | Some op \<Rightarrow> extract_raw_bytes op)"
      using wf run [of k] change_at_effect [of "wd_look ?s k" tb fb "st k" "mid k"] app [of k]
      by (cases "btm_get ws k") (auto simp: ext_wf_def)
  qed
  then obtain f where f:
    "\<And>k. case btm_get ws k of None \<Rightarrow> f k = wd_look ?s k | Some op \<Rightarrow> change_at (wd_look ?s k) op = Inr (f k)"
    "\<And>k. one_change (f k)" "\<And>k. snd (f k) = None \<or> snd (f k) = snd (wd_look ?s k)"
    "\<And>k. key_effect tb fb (f k) (st k) = Some (case btm_get ws k of None \<Rightarrow> mid k | Some op \<Rightarrow> extract_raw_bytes op)"
    by metis
  obtain ws' ds' where s': "try_fold squash_change_step ?s ws = Inr (ws', ds')"
    "wd_wf (ws', ds')" "wd_look (ws', ds') = f"
    using change_fold.try_fold_ok [of ?s ws f] wf ws(1) f(1)
    by (auto simp: ext_wf_def btm.distinct_keys btm_get_def)
  show ?thesis
    using s' f(2,3,4) ws(2)
    by (simp add: squash_change_set_def ext_state_def Let_def ext_wf_def
        freeze_and_check [OF check])
qed

lemma squash_delta_change_set_effect:
  assumes rt: "\<And>v. fb (tb v) = Some v"
    and wf: "ext_wf e1" and ds: "btm_wf ds"
    and check: "\<And>c. ext_checker e1 c = Inr ()"
    and run: "\<And>k. key_effect tb fb (wd_look (ext_state e1) k) (st k) = Some (mid k)"
    and valid: "\<And>k d. snd (wd_look (ext_state e1) k) = Some d \<Longrightarrow> delta_valid (lim k) d"
      "\<And>k d. btm_get ds k = Some d \<Longrightarrow> delta_valid (lim k) d"
    and app: "\<And>k. key_effect tb fb (None, btm_get ds k) (mid k) = Some (new k)"
  shows "\<exists>e. squash_delta_change_set tb fb e1 ds = Inr e \<and> ext_wf e
    \<and> cs_events (ext_change_set e) = cs_events (ext_change_set e1)
    \<and> (\<forall>k. key_effect tb fb (wd_look (ext_state e) k) (st k) = Some (new k))"
proof -
  let ?s = "ext_state e1"
  have "\<forall>k. \<exists>p. (case btm_get ds k of None \<Rightarrow> p = wd_look ?s k | Some d \<Rightarrow> delta_at tb fb (wd_look ?s k) d = Inr p)
      \<and> one_change p \<and> key_effect tb fb p (st k) = Some (new k)"
  proof
    fix k
    show "\<exists>p. (case btm_get ds k of None \<Rightarrow> p = wd_look ?s k | Some d \<Rightarrow> delta_at tb fb (wd_look ?s k) d = Inr p)
      \<and> one_change p \<and> key_effect tb fb p (st k) = Some (new k)"
    proof (cases "btm_get ds k")
      case None
      with wf run [of k] app [of k] show ?thesis by (simp add: ext_wf_def)
    next
      case (Some d)
      have "one_change (wd_look ?s k)" using wf by (simp add: ext_wf_def)
      from delta_at_effect [OF rt this run [of k], of d "new k" "lim k"] app [of k] valid [of k] Some
      show ?thesis by auto
    qed
  qed
  then obtain f where f:
    "\<And>k. case btm_get ds k of None \<Rightarrow> f k = wd_look ?s k | Some d \<Rightarrow> delta_at tb fb (wd_look ?s k) d = Inr (f k)"
    "\<And>k. one_change (f k)" "\<And>k. key_effect tb fb (f k) (st k) = Some (new k)"
    by metis
  obtain ws' ds' where s': "try_fold (squash_delta_step tb fb) ?s ds = Inr (ws', ds')"
    "wd_wf (ws', ds')" "wd_look (ws', ds') = f"
    using delta_fold.try_fold_ok [where tb = tb and fb = fb and s = ?s and xs = ds and f = f] wf ds f(1)
    by (auto simp: ext_wf_def btm.distinct_keys btm_get_def)
  show ?thesis
    using s' f(2,3)
    by (simp add: squash_delta_change_set_def ext_state_def Let_def ext_wf_def
        freeze_and_check [OF check])
qed

section \<open>Materialised outputs\<close>

lemma btm_of_list_id: "btm_wf m \<Longrightarrow> btm_of_list m = m"
  by (rule btm.map_ext)
    (simp_all add: btm_wf_of_list btm_get_of_list map_of_rev_distinct btm.distinct_keys btm_get_def fun_eq_iff)

lemma materialize_loop_ok:
  "(\<And>k d. (k, d) \<in> set xs \<Longrightarrow> try_into_write_op tb fb sv d k = Ret (Inr (f k))) \<Longrightarrow>
     materialize_loop tb fb sv xs acc = Ret (Inr (acc @ map (\<lambda>(k, _). (k, f k)) xs))"
proof (induction xs arbitrary: acc)
  case Nil
  then show ?case by simp
next
  case (Cons x xs)
  obtain k d where x: "x = (k, d)" by force
  with Cons.prems have "try_into_write_op tb fb sv d k = Ret (Inr (f k))" by simp
  with x Cons.IH [of "acc @ [(k, f k)]"] Cons.prems show ?case by simp
qed

lemma try_into_write_set_mut_ok:
  assumes "btm_wf ds" and "\<And>k d. btm_get ds k = Some d \<Longrightarrow> try_into_write_op tb fb sv d k = Ret (Inr (f k))"
  shows "\<exists>ws. try_into_write_set_mut tb fb sv ds = Ret (Inr ws) \<and> btm_wf ws \<and> length ws = length ds
    \<and> (\<forall>k. btm_get ws k = map_option (\<lambda>_. f k) (btm_get ds k))"
proof -
  let ?ws = "map (\<lambda>(k, _). (k, f k)) ds"
  have "materialize_loop tb fb sv ds [] = Ret (Inr ([] @ ?ws))"
    using assms by (intro materialize_loop_ok) (auto simp: btm.set_entries)
  moreover have wf: "btm_wf ?ws" using assms(1) by (simp add: btm_wf_def comp_def split_def)
  moreover have "btm_get ?ws k = map_option (\<lambda>_. f k) (btm_get ds k)" for k
    unfolding btm_get_def by (induction ds) auto
  ultimately show ?thesis
    by (simp add: try_into_write_set_mut_def wsm_new_def btm_of_list_id)
qed

lemma merge_delta_writes_disjoint:
  assumes "btm_wf (into_mut (out_write_set out))" and "btm_wf ws"
    and "\<And>k. btm_get (into_mut (out_write_set out)) k = None \<or> btm_get ws k = None"
  shows "\<exists>w. merge_delta_writes out ws = Ret (out\<lparr>out_write_set := V0 w\<rparr>) \<and> btm_wf w
    \<and> (\<forall>k. btm_get w k = (case btm_get ws k of None \<Rightarrow> btm_get (into_mut (out_write_set out)) k | Some op \<Rightarrow> Some op))"
proof -
  let ?w = "into_mut (out_write_set out)"
  have "squash_at (btm_get ?w k) (btm_get ws k) =
      Inr (case btm_get ws k of None \<Rightarrow> btm_get ?w k | Some op \<Rightarrow> Some op)" for k
    using assms(3) [of k] by (cases "btm_get ws k"; cases "btm_get ?w k") auto
  from wsm_squash_ok [OF assms(1,2) this] show ?thesis
    by (auto simp: merge_delta_writes_def wsm_freeze_def)
qed

definition toe_look :: "('k::linorder, 'ev, 'c, 's) transaction_output_ext \<Rightarrow> 'k \<Rightarrow> key_change" where
  "toe_look t = wd_look (into_mut (out_write_set (toe_output t)), toe_deltas t)"

definition toe_wf :: "('k::linorder, 'ev, 'c, 's) transaction_output_ext \<Rightarrow> bool" where
  "toe_wf t \<longleftrightarrow> wd_wf (into_mut (out_write_set (toe_output t)), toe_deltas t)
     \<and> (\<forall>k. one_change (toe_look t k))"

section \<open>Properties\<close>



text \<open>
  Materialising the output of a kept transaction: where its operations and deltas apply to the
  stored state, the deltas can be turned into writes, \<^verbatim>\<open>into_transaction_output\<close> returns without a
  panic, and the write set it returns has the effect of the operations and deltas together. Handing
  the writes in from outside, as the block executor does with \<^verbatim>\<open>output_with_delta_writes\<close>, passes its
  assertion and gives the same output.
\<close>

theorem into_transaction_output_effect:
  assumes "toe_wf t" and "\<not> is_discarded (out_status (toe_output t))"
    and "\<And>k. key_effect tb fb (toe_look t k) (st k) = Some (new k)"
  shows "\<exists>ws out. try_into_write_set_mut tb fb (\<lambda>k. Inr (st k) :: 'e + bytes option) (toe_deltas t) = Ret (Inr ws)
    \<and> into_transaction_output tb fb (\<lambda>k. Inr (st k) :: 'e + bytes option) t = Ret out
    \<and> output_with_delta_writes t ws = Ret out
    \<and> out_events out = out_events (toe_output t) \<and> out_status out = out_status (toe_output t)
    \<and> ws_apply (into_mut (out_write_set out)) st = new"
proof -
  let ?w = "into_mut (out_write_set (toe_output t))" and ?ds = "toe_deltas t"
  have wf: "btm_wf ?w" "btm_wf ?ds" and one: "btm_get ?w k = None \<or> btm_get ?ds k = None" for k
    using assms(1) by (auto simp: toe_wf_def toe_look_def wd_wf_def wd_look_def one_change_def)
  have eff: "key_effect tb fb (btm_get ?w k, btm_get ?ds k) (st k) = Some (new k)" for k
    using assms(3) [of k] by (simp add: toe_look_def wd_look_def)
  have delta: "try_into_write_op tb fb (\<lambda>k. Inr (st k) :: 'e + bytes option) d k = Ret (Inr (Modification (the (new k))))
      \<and> new k \<noteq> None" if "btm_get ?ds k = Some d" for k d
    using eff [of k] one [of k] that
    by (auto simp: try_into_write_op_Inr_iff apply_ok_def dest!: sym [of _ "new k"] split: Option.bind_splits)
  then obtain ws where ws: "try_into_write_set_mut tb fb (\<lambda>k. Inr (st k) :: 'e + bytes option) ?ds = Ret (Inr ws)" "btm_wf ws"
    "length ws = length ?ds" "\<And>k. btm_get ws k = map_option (\<lambda>_. Modification (the (new k))) (btm_get ?ds k)"
    using try_into_write_set_mut_ok
      [OF wf(2), of tb fb "\<lambda>k. Inr (st k) :: 'e + bytes option" "\<lambda>k. Modification (the (new k))"] by auto
  have "btm_get ?w k = None \<or> btm_get ws k = None" for k using one [of k] ws(4) by auto
  from merge_delta_writes_disjoint [OF wf(1) ws(2) this] obtain w where
    w: "merge_delta_writes (toe_output t) ws = Ret (toe_output t\<lparr>out_write_set := V0 w\<rparr>)"
    "\<And>k. btm_get w k = (case btm_get ws k of None \<Rightarrow> btm_get ?w k | Some op \<Rightarrow> Some op)" by blast
  have val: "opt_apply (case btm_get ws k of None \<Rightarrow> btm_get ?w k | Some op \<Rightarrow> Some op) (st k) = new k" for k
    using eff [of k] one [of k] ws(4) [of k] delta [of k]
    by (cases "btm_get ?ds k"; cases "btm_get ?w k") (auto simp: opt_apply_def split: if_splits)
  show ?thesis
  proof (cases "?ds = []")
    case True
    then have "ws_apply ?w st = new"
      using val ws(4) by (simp add: ws_apply_def fun_eq_iff btm_get_def)
    with True ws(1) assms(2) show ?thesis
      by (intro exI [of _ ws] exI [of _ "toe_output t"])
        (simp add: into_transaction_output_def output_with_delta_writes_def)
  next
    case False
    have "ws_apply w st = new" using val w(2) by (simp add: ws_apply_def fun_eq_iff)
    with False w(1) ws(1,3) assms(2) show ?thesis
      by (simp add: into_transaction_output_def output_with_delta_writes_def Let_def)
  qed
qed

theorem into_transaction_output_effect_witness:
  "\<exists>ws out. try_into_write_set_mut u128_to_bytes u128_from_bytes (\<lambda>k. Inr ([1 \<mapsto> u128_to_bytes 4] k) :: unit + bytes option)
        [(1::nat, delta_add 3 10)] = Ret (Inr ws)
    \<and> into_transaction_output u128_to_bytes u128_from_bytes (\<lambda>k. Inr ([1 \<mapsto> u128_to_bytes 4] k) :: unit + bytes option)
        \<lparr>toe_deltas = [(1, delta_add 3 10)], toe_output =
          \<lparr>out_write_set = V0 [(2, Creation [9])], out_events = [''e''], gas_used = 1, out_status = (Keep () :: (unit, unit) transaction_status)\<rparr>\<rparr> = Ret out
    \<and> output_with_delta_writes
        \<lparr>toe_deltas = [(1, delta_add 3 10)], toe_output =
          \<lparr>out_write_set = V0 [(2, Creation [9])], out_events = [''e''], gas_used = 1, out_status = (Keep () :: (unit, unit) transaction_status)\<rparr>\<rparr> ws = Ret out
    \<and> out_events out = [''e''] \<and> out_status out = Keep ()
    \<and> ws_apply (into_mut (out_write_set out)) [1 \<mapsto> u128_to_bytes 4] = [1 \<mapsto> u128_to_bytes 7, 2 \<mapsto> [9]]"
proof -
  let ?t = "\<lparr>toe_deltas = [(1::nat, delta_add 3 10)], toe_output =
    \<lparr>out_write_set = V0 [(2, Creation [9])], out_events = [''e''], gas_used = 1, out_status = (Keep () :: (unit, unit) transaction_status)\<rparr>\<rparr>"
  have "toe_wf ?t"
    by (auto simp: toe_wf_def toe_look_def wd_wf_def wd_look_def one_change_def btm_wf_def btm_get_def)
  moreover have "key_effect u128_to_bytes u128_from_bytes (toe_look ?t k) ([1 \<mapsto> u128_to_bytes 4] k)
      = Some ([1 \<mapsto> u128_to_bytes 7, 2 \<mapsto> [9]] k)" for k
    by (simp add: toe_look_def wd_look_def btm_get_def apply_ok_def apply_to_def
        delta_add_def delta_new_def addition_def subtraction_def)
  ultimately show ?thesis
    using into_transaction_output_effect [of ?t u128_to_bytes u128_from_bytes "[1 \<mapsto> u128_to_bytes 4]"
        "[1 \<mapsto> u128_to_bytes 7, 2 \<mapsto> [9]]"] by simp
qed

end
