(* ===== verification/MVHashMap.thy ===== *)
theory MVHashMap
  imports ChangeSetExt
begin

text \<open>
  The multi-version data structure of the block executor (\<^verbatim>\<open>language/move-hashmap/src/lib.rs\<close>). A
  method has exclusive access to the versions of its key, so every method is one atomic operation on
  the map. Indices and incarnations (\<^verbatim>\<open>usize\<close>) are natural numbers. The type of values is a
  parameter with \<open>extract\<close>, its \<^verbatim>\<open>extract_raw_bytes\<close>, and the codec of aggregator values as before.
\<close>

section \<open>Data\<close>

type_synonym txn_index = nat
type_synonym incarnation = nat
type_synonym version = "txn_index \<times> incarnation"

definition FLAG_DONE :: nat where
  "FLAG_DONE = 0"

definition FLAG_ESTIMATE :: nat where
  "FLAG_ESTIMATE = 1"

datatype 'v entry_cell = CellWrite incarnation 'v | CellDelta delta_op

record 'v mv_entry =
  flag :: nat
  cell :: "'v entry_cell"

definition new_write_from :: "nat \<Rightarrow> incarnation \<Rightarrow> 'v \<Rightarrow> 'v mv_entry" where
  "new_write_from f inc v = \<lparr>flag = f, cell = CellWrite inc v\<rparr>"

definition new_delta_from :: "nat \<Rightarrow> delta_op \<Rightarrow> 'v mv_entry" where
  "new_delta_from f d = \<lparr>flag = f, cell = CellDelta d\<rparr>"

definition entry_mark_estimate :: "'v mv_entry \<Rightarrow> 'v mv_entry" where
  "entry_mark_estimate e = e\<lparr>flag := FLAG_ESTIMATE\<rparr>"

record 'v versioned_value =
  versioned_map :: "(txn_index, 'v mv_entry) btree_map"
  contains_delta :: bool

definition versioned_value_new :: "'v versioned_value" where
  "versioned_value_new = \<lparr>versioned_map = [], contains_delta = False\<rparr>"

record ('k, 'v) mv_hashmap =
  mv_data :: "'k \<rightharpoonup> 'v versioned_value"
  delta_keys :: "'k list"

datatype mv_error = NotFound | Unresolved delta_op | Dependency txn_index | DeltaApplicationFailure

datatype 'v mv_output = Resolved u128 | Version version 'v

definition mv_new :: "('k, 'v) mv_hashmap" where
  "mv_new = \<lparr>mv_data = Map.empty, delta_keys = []\<rparr>"

section \<open>Operations\<close>

definition entry_map_for_key ::
  "('k, 'v) mv_hashmap \<Rightarrow> 'k \<Rightarrow> (txn_index, 'v mv_entry) btree_map option \<times> ('k, 'v) mv_hashmap" where
  "entry_map_for_key m key =
     (map_option versioned_map (mv_data m key), m\<lparr>mv_data := (mv_data m)(key := None)\<rparr>)"

definition aggregator_keys :: "('k, 'v) mv_hashmap \<Rightarrow> 'k list \<times> ('k, 'v) mv_hashmap" where
  "aggregator_keys m = (delta_keys m, m\<lparr>delta_keys := []\<rparr>)"

definition or_default :: "'v versioned_value option \<Rightarrow> 'v versioned_value" where
  "or_default v = (case v of None \<Rightarrow> versioned_value_new | Some x \<Rightarrow> x)"

text \<open>The assertion of \<^verbatim>\<open>add_write\<close>: an overwritten write has a lower incarnation.\<close>

definition lower_incarnation :: "incarnation \<Rightarrow> 'v mv_entry option \<Rightarrow> bool" where
  "lower_incarnation incarnation prev_entry =
     (case prev_entry of
        None \<Rightarrow> True
      | Some entry \<Rightarrow> (case cell entry of CellWrite i _ \<Rightarrow> i < incarnation | CellDelta _ \<Rightarrow> True))"

definition add_write ::
  "('k, 'v) mv_hashmap \<Rightarrow> 'k \<Rightarrow> version \<Rightarrow> 'v \<Rightarrow> ('k, 'v) mv_hashmap outcome" where
  "add_write m key version x =
     (case version of (txn_idx, incarnation) \<Rightarrow>
        let v = or_default (mv_data m key);
            prev_entry = btm_get (versioned_map v) txn_idx;
            v' = v\<lparr>versioned_map := btm_insert txn_idx (new_write_from FLAG_DONE incarnation x) (versioned_map v)\<rparr> in
        assert_that (lower_incarnation incarnation prev_entry) (m\<lparr>mv_data := (mv_data m)(key \<mapsto> v')\<rparr>))"

definition add_delta ::
  "('k, 'v) mv_hashmap \<Rightarrow> 'k \<Rightarrow> txn_index \<Rightarrow> delta_op \<Rightarrow> ('k, 'v) mv_hashmap" where
  "add_delta m key txn_idx delta =
     (let v = or_default (mv_data m key);
          v' = v\<lparr>versioned_map := btm_insert txn_idx (new_delta_from FLAG_DONE delta) (versioned_map v)\<rparr> in
      if contains_delta v' then m\<lparr>mv_data := (mv_data m)(key \<mapsto> v')\<rparr>
      else m\<lparr>mv_data := (mv_data m)(key \<mapsto> v'\<lparr>contains_delta := True\<rparr>), delta_keys := delta_keys m @ [key]\<rparr>)"

definition mark_estimate ::
  "('k, 'v) mv_hashmap \<Rightarrow> 'k \<Rightarrow> txn_index \<Rightarrow> ('k, 'v) mv_hashmap outcome" where
  "mark_estimate m key txn_idx =
     out_bind (expect (mv_data m key)) (\<lambda>v.
     out_bind (expect (btm_get (versioned_map v) txn_idx)) (\<lambda>entry.
       Ret (m\<lparr>mv_data := (mv_data m)(key \<mapsto>
         v\<lparr>versioned_map := btm_insert txn_idx (entry_mark_estimate entry) (versioned_map v)\<rparr>)\<rparr>)))"

definition mv_delete :: "('k, 'v) mv_hashmap \<Rightarrow> 'k \<Rightarrow> txn_index \<Rightarrow> ('k, 'v) mv_hashmap outcome" where
  "mv_delete m key txn_idx =
     out_bind (expect (mv_data m key)) (\<lambda>v.
       Ret (m\<lparr>mv_data := (mv_data m)(key \<mapsto> v\<lparr>versioned_map := btm_remove txn_idx (versioned_map v)\<rparr>)\<rparr>))"

text \<open>\<^verbatim>\<open>AggregatorValue::from_write\<close>: \<open>None\<close> for a deletion; a value that does not decode panics.\<close>

definition from_write ::
  "('v \<Rightarrow> bytes option) \<Rightarrow> (bytes \<Rightarrow> u128 option) \<Rightarrow> 'v \<Rightarrow> u128 option outcome" where
  "from_write extract from_bytes w =
     (case extract w of
        None \<Rightarrow> Ret None
      | Some bs \<Rightarrow> out_bind (deserialize from_bytes bs) (\<lambda>v. Ret (Some v)))"

text \<open>
  The traversal of \<^verbatim>\<open>read\<close>, over the entries below the reader from the highest index down. The
  accumulator holds the merged deltas, or that merging them failed.
\<close>

fun read_loop ::
  "('v \<Rightarrow> bytes option) \<Rightarrow> (bytes \<Rightarrow> u128 option) \<Rightarrow> (unit + delta_op) option
     \<Rightarrow> (txn_index \<times> 'v mv_entry) list \<Rightarrow> (mv_error + 'v mv_output) outcome" where
  "read_loop extract from_bytes accumulator [] =
     Ret (Inl (case accumulator of
        Some (Inr acc) \<Rightarrow> Unresolved acc
      | Some (Inl _) \<Rightarrow> DeltaApplicationFailure
      | None \<Rightarrow> NotFound))"
| "read_loop extract from_bytes accumulator ((idx, entry) # iter) =
     (if flag entry = FLAG_ESTIMATE then Ret (Inl (Dependency idx))
      else case (cell entry, accumulator) of
        (CellWrite incarnation x, None) \<Rightarrow> Ret (Inr (Version (idx, incarnation) x))
      | (CellWrite incarnation x, Some acc) \<Rightarrow>
          out_bind (from_write extract from_bytes x) (\<lambda>maybe_value.
            case maybe_value of
              None \<Rightarrow> Ret (Inr (Version (idx, incarnation) x))
            | Some v \<Rightarrow>
                Ret (and_then (map_err (\<lambda>_. DeltaApplicationFailure) acc) (\<lambda>a.
                  and_then (map_err (\<lambda>_. DeltaApplicationFailure) (apply_to a v)) (\<lambda>result.
                    Inr (Resolved result)))))
      | (CellDelta delta, Some acc) \<Rightarrow>
          read_loop extract from_bytes
            (Some (and_then acc (\<lambda>a. map_err (\<lambda>_. ()) (merge_onto a delta)))) iter
      | (CellDelta delta, None) \<Rightarrow> read_loop extract from_bytes (Some (Inr delta)) iter)"

definition mv_read ::
  "('v \<Rightarrow> bytes option) \<Rightarrow> (bytes \<Rightarrow> u128 option) \<Rightarrow> ('k, 'v) mv_hashmap \<Rightarrow> 'k \<Rightarrow> txn_index
     \<Rightarrow> (mv_error + 'v mv_output) outcome" where
  "mv_read extract from_bytes m key txn_idx =
     (case mv_data m key of
        Some v \<Rightarrow> read_loop extract from_bytes None (rev (btm_below txn_idx (versioned_map v)))
      | None \<Rightarrow> Ret (Inl NotFound))"

section \<open>Specification of a read\<close>

text \<open>
  What a key holds after a prefix of the block: the storage value, the last write, an aggregator value
  computed by deltas, or nothing sensible because a delta did not apply. A delta on a deleted key
  leaves the deletion.
\<close>

datatype 'v slot = SlotStorage | SlotWritten version 'v | SlotValue u128 | SlotFailed

definition slot_of_value :: "u128 option \<Rightarrow> 'v slot" where
  "slot_of_value v = (case v of None \<Rightarrow> SlotFailed | Some x \<Rightarrow> SlotValue x)"

fun delta_on_slot ::
  "('v \<Rightarrow> bytes option) \<Rightarrow> (bytes \<Rightarrow> u128 option) \<Rightarrow> u128 option \<Rightarrow> delta_op \<Rightarrow> 'v slot \<Rightarrow> 'v slot" where
  "delta_on_slot ex fb base d SlotStorage = slot_of_value (Option.bind base (apply_ok d))"
| "delta_on_slot ex fb base d (SlotWritten v x) =
     (case ex x of None \<Rightarrow> SlotWritten v x | Some bs \<Rightarrow> slot_of_value (Option.bind (fb bs) (apply_ok d)))"
| "delta_on_slot ex fb base d (SlotValue x) = slot_of_value (apply_ok d x)"
| "delta_on_slot ex fb base d SlotFailed = SlotFailed"

fun slot_step ::
  "('v \<Rightarrow> bytes option) \<Rightarrow> (bytes \<Rightarrow> u128 option) \<Rightarrow> u128 option \<Rightarrow> txn_index \<times> 'v mv_entry \<Rightarrow> 'v slot \<Rightarrow> 'v slot" where
  "slot_step ex fb base (idx, e) s =
     (case cell e of CellWrite inc x \<Rightarrow> SlotWritten (idx, inc) x | CellDelta d \<Rightarrow> delta_on_slot ex fb base d s)"

definition slot_of ::
  "('v \<Rightarrow> bytes option) \<Rightarrow> (bytes \<Rightarrow> u128 option) \<Rightarrow> u128 option \<Rightarrow> (txn_index \<times> 'v mv_entry) list \<Rightarrow> 'v slot" where
  "slot_of ex fb base es = fold (slot_step ex fb base) es SlotStorage"

fun read_matches :: "u128 option \<Rightarrow> mv_error + 'v mv_output \<Rightarrow> 'v slot \<Rightarrow> bool" where
  "read_matches base (Inr (Version v x)) s = (s = SlotWritten v x)"
| "read_matches base (Inr (Resolved x)) s = (s = SlotValue x)"
| "read_matches base (Inl NotFound) s = (s = SlotStorage)"
| "read_matches base (Inl (Unresolved d)) s = (s = slot_of_value (Option.bind base (apply_ok d)))"
| "read_matches base (Inl DeltaApplicationFailure) s = (s = SlotFailed)"
| "read_matches base (Inl (Dependency _)) s = False"

text \<open>The entries a read may meet: no estimates, deltas of one aggregator, writes that decode.\<close>

fun entry_ok :: "('v \<Rightarrow> bytes option) \<Rightarrow> (bytes \<Rightarrow> u128 option) \<Rightarrow> u128 \<Rightarrow> 'v mv_entry \<Rightarrow> bool" where
  "entry_ok ex fb lim e \<longleftrightarrow> flag e = FLAG_DONE \<and>
     (case cell e of CellWrite _ x \<Rightarrow> (\<forall>bs. ex x = Some bs \<longrightarrow> fb bs \<noteq> None) | CellDelta d \<Rightarrow> delta_valid lim d)"

lemma fold_deltas_value:
  "fold (delta_on_slot ex fb base) ds (slot_of_value v) = slot_of_value (Option.bind v (run_deltas apply_ok ds))"
proof (induction ds arbitrary: v)
  case Nil
  then show ?case by (cases v) (simp_all add: slot_of_value_def)
next
  case (Cons d ds)
  show ?case
  proof (cases v)
    case None
    with Cons.IH [of None] show ?thesis by (simp add: slot_of_value_def)
  next
    case (Some x)
    with Cons.IH [of "apply_ok d x"] show ?thesis
      by (cases "apply_ok d x") (simp_all add: slot_of_value_def)
  qed
qed

text \<open>The accumulator after the deltas \<open>ds\<close>, the newest first.\<close>

definition acc_of :: "delta_op list \<Rightarrow> (unit + delta_op) option" where
  "acc_of ds = (case ds of [] \<Rightarrow> None
     | d # ps \<Rightarrow> Some (case accumulate merge_ok (Some d) ps of Some a \<Rightarrow> Inr a | None \<Rightarrow> Inl ()))"

lemma accumulate_snoc:
  "accumulate mrg a (ps @ [p]) = Option.bind (accumulate mrg a ps) (\<lambda>x. mrg x p)"
  by (induction ps arbitrary: a) auto

lemma acc_of_snoc:
  "acc_of (ds @ [p]) = Some (case acc_of ds of None \<Rightarrow> Inr p
     | Some acc \<Rightarrow> and_then acc (\<lambda>a. map_err (\<lambda>_. ()) (merge_onto a p)))"
proof (cases ds)
  case Nil
  then show ?thesis by (simp add: acc_of_def)
next
  case (Cons d ps)
  then show ?thesis
    by (cases "accumulate merge_ok (Some d) ps"; cases "merge_onto (the (accumulate merge_ok (Some d) ps)) p")
      (simp_all add: acc_of_def accumulate_snoc merge_ok_def)
qed

lemma acc_of_apply:
  assumes "acc_of ds = Some acc" and "list_all (delta_valid lim) ds"
  shows "run_deltas apply_ok (rev ds) x = Option.bind (result_ok acc) (\<lambda>a. apply_ok a x)"
proof -
  from assms(1) obtain d ps where ds: "ds = d # ps" by (cases ds) (auto simp: acc_of_def)
  with assms deltas.accumulate_run [of lim d ps x] show ?thesis
    by (cases "accumulate merge_ok (Some d) ps") (auto simp: acc_of_def)
qed

lemma acc_of_Nil [simp]: "acc_of [] = None"
  by (simp add: acc_of_def)

lemma acc_of_None: "acc_of ds = None \<longleftrightarrow> ds = []"
  by (cases ds) (simp_all add: acc_of_def)

lemma fold_deltas_storage:
  "ds \<noteq> [] \<Longrightarrow> fold (delta_on_slot ex fb base) ds SlotStorage
     = slot_of_value (Option.bind base (run_deltas apply_ok ds))"
  by (cases ds; cases base) (simp_all add: fold_deltas_value)

lemma fold_deltas_deleted:
  "ex x = None \<Longrightarrow> fold (delta_on_slot ex fb base) ds (SlotWritten v x) = SlotWritten v x"
  by (induction ds) simp_all

lemma fold_deltas_written:
  "ds \<noteq> [] \<Longrightarrow> ex x = Some bs \<Longrightarrow> fold (delta_on_slot ex fb base) ds (SlotWritten v x)
     = slot_of_value (Option.bind (fb bs) (run_deltas apply_ok ds))"
  by (cases ds; cases "fb bs") (simp_all add: fold_deltas_value)

lemma slot_of_snoc: "slot_of ex fb base (es @ [e]) = slot_step ex fb base e (slot_of ex fb base es)"
  by (simp add: slot_of_def)

lemma read_loop_end:
  assumes "list_all (delta_valid lim) ds"
  shows "\<exists>r. read_loop ex fb (acc_of ds) [] = Ret r
    \<and> read_matches base r (fold (delta_on_slot ex fb base) (rev ds) SlotStorage)"
proof (cases "acc_of ds")
  case None
  then have "ds = []" by (simp add: acc_of_None)
  then show ?thesis by simp
next
  case (Some acc)
  then have "ds \<noteq> []" using acc_of_None [of ds] by auto
  with acc_of_apply [OF Some assms] Some show ?thesis
    by (cases acc; cases base) (auto simp: fold_deltas_storage slot_of_value_def)
qed

lemma read_loop_write:
  assumes "list_all (delta_valid lim) ds" and "entry_ok ex fb lim e" and e: "cell e = CellWrite inc x"
  shows "\<exists>r. read_loop ex fb (acc_of ds) ((idx, e) # es) = Ret r
    \<and> read_matches base r (fold (delta_on_slot ex fb base) (rev ds) (SlotWritten (idx, inc) x))"
proof (cases "acc_of ds")
  case None
  then have "ds = []" by (simp add: acc_of_None)
  with assms(2) e show ?thesis by (simp add: FLAG_DONE_def FLAG_ESTIMATE_def)
next
  case (Some acc)
  then have ds: "ds \<noteq> []" using acc_of_None [of ds] by auto
  show ?thesis
  proof (cases "ex x")
    case None
    with Some assms(2) e show ?thesis
      by (simp add: FLAG_DONE_def FLAG_ESTIMATE_def from_write_def fold_deltas_deleted)
  next
    case (Some bs)
    with assms(2) e obtain v where v: "fb bs = Some v" by auto
    have "flag e \<noteq> FLAG_ESTIMATE" using assms(2) by (simp add: FLAG_DONE_def FLAG_ESTIMATE_def)
    moreover have "run_deltas apply_ok (rev ds) v = Option.bind (result_ok acc) (\<lambda>a. apply_ok a v)"
      by (rule acc_of_apply [OF \<open>acc_of ds = Some acc\<close> assms(1)])
    ultimately show ?thesis
      using ds v Some \<open>acc_of ds = Some acc\<close> e
      by (cases acc; cases "apply_to (case acc of Inr a \<Rightarrow> a) v")
        (simp_all add: from_write_def deserialize_def fold_deltas_written slot_of_value_def apply_ok_def)
  qed
qed

text \<open>A read over entries without estimates gives what running the entries in block order gives.\<close>

lemma read_loop_matches:
  assumes "list_all (\<lambda>(i, e). entry_ok ex fb lim e) es" and "list_all (delta_valid lim) ds"
  shows "\<exists>r. read_loop ex fb (acc_of ds) es = Ret r
    \<and> read_matches base r (fold (delta_on_slot ex fb base) (rev ds) (slot_of ex fb base (rev es)))"
  using assms
proof (induction es arbitrary: ds)
  case Nil
  then show ?case using read_loop_end by (simp add: slot_of_def)
next
  case (Cons x es)
  obtain idx e where x: "x = (idx, e)" by force
  with Cons.prems have e: "entry_ok ex fb lim e" and es: "list_all (\<lambda>(i, e). entry_ok ex fb lim e) es" by auto
  show ?case
  proof (cases "cell e")
    case (CellWrite inc v)
    with read_loop_write [OF Cons.prems(2) e] x show ?thesis by (simp add: slot_of_snoc)
  next
    case (CellDelta d)
    with e have "delta_valid lim d" and "flag e \<noteq> FLAG_ESTIMATE" by (simp_all add: FLAG_DONE_def FLAG_ESTIMATE_def)
    then have "read_loop ex fb (acc_of ds) (x # es) = read_loop ex fb (acc_of (ds @ [d])) es"
      using x CellDelta by (cases "acc_of ds") (simp_all add: acc_of_snoc)
    moreover have "list_all (delta_valid lim) (ds @ [d])"
      using Cons.prems(2) \<open>delta_valid lim d\<close> by simp
    moreover have "slot_of ex fb base (rev (x # es)) = delta_on_slot ex fb base d (slot_of ex fb base (rev es))"
      using x CellDelta by (simp add: slot_of_snoc)
    ultimately show ?thesis using Cons.IH [OF es, of "ds @ [d]"] by simp
  qed
qed

text \<open>An estimate stops the read with a dependency on a lower transaction that has one.\<close>

lemma read_loop_dependency:
  assumes "read_loop ex fb acc es = Ret (Inl (Dependency i))"
  shows "\<exists>e. (i, e) \<in> set es \<and> flag e = FLAG_ESTIMATE"
  using assms
  by (induction ex fb acc es rule: read_loop.induct)
    (auto simp: from_write_def and_then_eq_Inl_iff out_bind_eq_Ret_iff map_err_eq_Inl_iff
      split: if_splits option.splits sum.splits entry_cell.splits)

section \<open>Invariant\<close>

text \<open>
  The versions of a key are sorted, a key is listed once for its deltas exactly when its flag says so,
  and only such keys have delta entries.
\<close>

definition mv_inv :: "('k, 'v) mv_hashmap \<Rightarrow> bool" where
  "mv_inv m \<longleftrightarrow>
     distinct (delta_keys m) \<and>
     (\<forall>k. k \<in> set (delta_keys m) \<longleftrightarrow> (\<exists>v. mv_data m k = Some v \<and> contains_delta v)) \<and>
     (\<forall>k v. mv_data m k = Some v \<longrightarrow> btm_wf (versioned_map v) \<and>
        (\<forall>i e d. btm_get (versioned_map v) i = Some e \<longrightarrow> cell e = CellDelta d \<longrightarrow> contains_delta v))"

definition entry_at :: "('k, 'v) mv_hashmap \<Rightarrow> 'k \<Rightarrow> txn_index \<Rightarrow> 'v mv_entry option" where
  "entry_at m k i = Option.bind (mv_data m k) (\<lambda>v. btm_get (versioned_map v) i)"

lemma mv_inv_new: "mv_inv mv_new"
  by (simp add: mv_inv_def mv_new_def)

lemma mv_inv_wf: "mv_inv m \<Longrightarrow> mv_data m k = Some v \<Longrightarrow> btm_wf (versioned_map v)"
  by (simp add: mv_inv_def)

lemma or_default_simps [simp]: "or_default None = versioned_value_new" "or_default (Some v) = v"
  by (simp_all add: or_default_def)

lemma versioned_value_new_simps [simp]:
  "versioned_map versioned_value_new = []" "contains_delta versioned_value_new = False"
  by (simp_all add: versioned_value_new_def)

lemma mv_inv_or_default: "mv_inv m \<Longrightarrow> btm_wf (versioned_map (or_default (mv_data m k)))"
  by (cases "mv_data m k") (simp_all add: mv_inv_wf btm_simps)

lemma entry_at_or_default: "entry_at m k i = btm_get (versioned_map (or_default (mv_data m k))) i"
  by (cases "mv_data m k") (simp_all add: entry_at_def btm_simps)

lemma mv_inv_update:
  assumes "mv_inv m" and "btm_wf vm"
    and "contains_delta v = contains_delta (or_default (mv_data m k))"
    and "\<And>i e d. btm_get vm i = Some e \<Longrightarrow> cell e = CellDelta d \<Longrightarrow> contains_delta v"
    and "versioned_map v = vm"
  shows "mv_inv (m\<lparr>mv_data := (mv_data m)(k \<mapsto> v)\<rparr>)"
  using assms
  by (cases "mv_data m k") (auto simp: mv_inv_def)

lemma mv_inv_delta_entry:
  "mv_inv m \<Longrightarrow> entry_at m k i = Some e \<Longrightarrow> cell e = CellDelta d \<Longrightarrow> contains_delta (or_default (mv_data m k))"
  by (cases "mv_data m k") (auto simp: mv_inv_def entry_at_def)

lemma add_write_Ret:
  assumes "mv_inv m" and "lower_incarnation inc (entry_at m k i)"
  shows "\<exists>m'. add_write m k (i, inc) x = Ret m' \<and> mv_inv m'
    \<and> (\<forall>k' i'. entry_at m' k' i' =
         (if k' = k \<and> i' = i then Some (new_write_from FLAG_DONE inc x) else entry_at m k' i'))"
proof -
  let ?v = "or_default (mv_data m k)"
  let ?vm = "btm_insert i (new_write_from FLAG_DONE inc x) (versioned_map ?v)"
  have wf: "btm_wf (versioned_map ?v)" by (rule mv_inv_or_default [OF assms(1)])
  have "mv_inv (m\<lparr>mv_data := (mv_data m)(k \<mapsto> ?v\<lparr>versioned_map := ?vm\<rparr>)\<rparr>)"
    using mv_inv_delta_entry [OF assms(1)] wf
    by (intro mv_inv_update [OF assms(1)])
      (auto simp: btm_simps entry_at_or_default new_write_from_def split: if_splits)
  moreover have "entry_at (m\<lparr>mv_data := (mv_data m)(k \<mapsto> ?v\<lparr>versioned_map := ?vm\<rparr>)\<rparr>) k' i' =
      (if k' = k \<and> i' = i then Some (new_write_from FLAG_DONE inc x) else entry_at m k' i')" for k' i'
    using wf by (simp add: entry_at_or_default btm_simps)
  ultimately show ?thesis
    using assms(2) by (simp add: add_write_def entry_at_or_default Let_def assert_that_def)
qed

lemma add_delta_inv:
  assumes "mv_inv m"
  shows "mv_inv (add_delta m k i d)"
    and "entry_at (add_delta m k i d) k' i' =
      (if k' = k \<and> i' = i then Some (new_delta_from FLAG_DONE d) else entry_at m k' i')"
proof -
  have wf: "btm_wf (versioned_map (or_default (mv_data m k)))" by (rule mv_inv_or_default [OF assms])
  show "entry_at (add_delta m k i d) k' i' =
      (if k' = k \<and> i' = i then Some (new_delta_from FLAG_DONE d) else entry_at m k' i')"
    using wf by (simp add: add_delta_def Let_def entry_at_or_default btm_simps)
  show "mv_inv (add_delta m k i d)"
  proof (cases "contains_delta (or_default (mv_data m k))")
    case True
    with wf show ?thesis
      by (simp add: add_delta_def Let_def) (rule mv_inv_update [OF assms], auto simp: btm_simps)
  next
    case False
    with assms wf show ?thesis
      by (cases "mv_data m k") (auto simp: mv_inv_def add_delta_def Let_def btm_simps)
  qed
qed

lemma mark_estimate_Ret:
  assumes "mv_inv m" and "entry_at m k i = Some e"
  shows "\<exists>m'. mark_estimate m k i = Ret m' \<and> mv_inv m'
    \<and> (\<forall>k' i'. entry_at m' k' i' =
         (if k' = k \<and> i' = i then Some (entry_mark_estimate e) else entry_at m k' i'))"
proof -
  from assms(2) obtain v where v: "mv_data m k = Some v" "btm_get (versioned_map v) i = Some e"
    by (cases "mv_data m k") (auto simp: entry_at_def)
  then have wf: "btm_wf (versioned_map v)" using mv_inv_wf [OF assms(1)] by blast
  let ?v = "v\<lparr>versioned_map := btm_insert i (entry_mark_estimate e) (versioned_map v)\<rparr>"
  have "mv_inv (m\<lparr>mv_data := (mv_data m)(k \<mapsto> ?v)\<rparr>)"
    using mv_inv_delta_entry [OF assms(1), of k] wf v
    by (intro mv_inv_update [OF assms(1)])
      (auto simp: btm_simps entry_at_def entry_mark_estimate_def split: if_splits)
  moreover have "entry_at (m\<lparr>mv_data := (mv_data m)(k \<mapsto> ?v)\<rparr>) k' i' =
      (if k' = k \<and> i' = i then Some (entry_mark_estimate e) else entry_at m k' i')" for k' i'
    using wf v by (simp add: entry_at_def btm_simps)
  ultimately show ?thesis using v by (simp add: mark_estimate_def)
qed

lemma mv_delete_Ret:
  assumes "mv_inv m" and "mv_data m k \<noteq> None"
  shows "\<exists>m'. mv_delete m k i = Ret m' \<and> mv_inv m'
    \<and> (\<forall>k' i'. entry_at m' k' i' = (if k' = k \<and> i' = i then None else entry_at m k' i'))"
proof -
  from assms(2) obtain v where v: "mv_data m k = Some v" by blast
  then have wf: "btm_wf (versioned_map v)" using mv_inv_wf [OF assms(1)] by blast
  let ?v = "v\<lparr>versioned_map := btm_remove i (versioned_map v)\<rparr>"
  have "mv_inv (m\<lparr>mv_data := (mv_data m)(k \<mapsto> ?v)\<rparr>)"
    using mv_inv_delta_entry [OF assms(1), of k] wf v
    by (intro mv_inv_update [OF assms(1)])
      (auto simp: btm_simps entry_at_def split: if_splits)
  moreover have "entry_at (m\<lparr>mv_data := (mv_data m)(k \<mapsto> ?v)\<rparr>) k' i' =
      (if k' = k \<and> i' = i then None else entry_at m k' i')" for k' i'
    using wf v by (simp add: entry_at_def btm_simps)
  ultimately show ?thesis using v by (simp add: mv_delete_def)
qed

text \<open>
  The map as a transition system: the operations the block executor performs on it, each of which
  returns. From the empty map the invariant always holds.
\<close>

inductive mv_step :: "('k, 'v) mv_hashmap \<Rightarrow> ('k, 'v) mv_hashmap \<Rightarrow> bool" where
  step_write: "add_write m k (i, inc) x = Ret m' \<Longrightarrow> mv_step m m'"
| step_delta: "mv_step m (add_delta m k i d)"
| step_estimate: "mark_estimate m k i = Ret m' \<Longrightarrow> mv_step m m'"
| step_delete: "mv_delete m k i = Ret m' \<Longrightarrow> mv_step m m'"

lemma add_write_RetD:
  assumes "mv_inv m" and "add_write m k (i, inc) x = Ret m'"
  shows "lower_incarnation inc (entry_at m k i)" and "mv_inv m'"
    and "entry_at m' k' i' = (if k' = k \<and> i' = i then Some (new_write_from FLAG_DONE inc x) else entry_at m k' i')"
proof -
  show "lower_incarnation inc (entry_at m k i)"
    using assms(2) by (auto simp: add_write_def Let_def entry_at_or_default)
  from add_write_Ret [OF assms(1) this, of x] assms(2) show "mv_inv m'"
    and "entry_at m' k' i' = (if k' = k \<and> i' = i then Some (new_write_from FLAG_DONE inc x) else entry_at m k' i')"
    by auto
qed

lemma mark_estimate_RetD:
  assumes "mv_inv m" and "mark_estimate m k i = Ret m'"
  shows "mv_inv m'"
proof -
  from assms(2) obtain e where "entry_at m k i = Some e"
    by (auto simp: mark_estimate_def out_bind_eq_Ret_iff entry_at_def)
  from mark_estimate_Ret [OF assms(1) this] assms(2) show ?thesis by auto
qed

lemma mv_delete_RetD:
  assumes "mv_inv m" and "mv_delete m k i = Ret m'"
  shows "mv_inv m'"
proof -
  from assms(2) have "mv_data m k \<noteq> None" by (auto simp: mv_delete_def out_bind_eq_Ret_iff)
  from mv_delete_Ret [OF assms(1) this, of i] assms(2) show ?thesis by auto
qed

interpretation mvs: invariant_system "\<lambda>m. m = mv_new" mv_step mv_inv
proof
  fix s :: "('a, 'b) mv_hashmap" and t
  show "mv_inv s" if "s = mv_new" using that by (simp add: mv_inv_new)
  show "mv_inv t" if "mv_inv s" and "mv_step s t"
    using that(2,1)
    by cases (auto intro: add_write_RetD add_delta_inv mark_estimate_RetD mv_delete_RetD)
qed

section \<open>Properties\<close>



text \<open>
  A read reports a dependency only on a lower transaction whose entry for the key is marked as an
  estimate.
\<close>

theorem mv_read_dependency_is_estimate:
  assumes "mv_inv m" and "mv_read ex fb m k i = Ret (Inl (Dependency j))"
  shows "j < i \<and> (\<exists>e. entry_at m k j = Some e \<and> flag e = FLAG_ESTIMATE)"
proof -
  from assms(2) obtain v where v: "mv_data m k = Some v"
    and loop: "read_loop ex fb None (rev (btm_below i (versioned_map v))) = Ret (Inl (Dependency j))"
    by (auto simp: mv_read_def split: option.splits)
  have wf: "btm_wf (versioned_map v)" using assms(1) v by (rule mv_inv_wf)
  from read_loop_dependency [OF loop] obtain e where "(j, e) \<in> set (btm_below i (versioned_map v))"
    "flag e = FLAG_ESTIMATE" by auto
  then show ?thesis
    using v by (auto simp: btm_below_eq_filter [OF wf] btm.set_entries [OF wf] entry_at_def)
qed

theorem mv_read_dependency_is_estimate_witness:
  "(0::nat) < 1 \<and> (\<exists>e. entry_at \<lparr>mv_data = [''k'' \<mapsto> \<lparr>versioned_map = [(0, new_write_from FLAG_ESTIMATE 0 Deletion)],
      contains_delta = False\<rparr>], delta_keys = []\<rparr> ''k'' 0 = Some e \<and> flag e = FLAG_ESTIMATE)"
  by (rule mv_read_dependency_is_estimate [where ex = extract_raw_bytes and fb = u128_from_bytes])
    (auto simp: mv_inv_def btm_wf_def mv_read_def btm_below_def btm_get_def new_write_from_def split: if_splits)

end
