(* ===== verification/TxnIO.thy ===== *)
theory TxnIO
  imports MVHashMap
begin

text \<open>
  What the block executor remembers of the last execution of every transaction
  (\<^verbatim>\<open>block-executor/src/txn_last_input_output.rs\<close>, with \<^verbatim>\<open>ExecutionStatus\<close> and \<^verbatim>\<open>ModulePath\<close> of \<^verbatim>\<open>task.rs\<close> and
  \<^verbatim>\<open>Error\<close> of \<^verbatim>\<open>errors.rs\<close>): the reads that validation repeats, the outputs, and the module paths read
  and written by any execution. The traits of a transaction are parameters: \<open>get_writes\<close> and
  \<open>get_deltas\<close> of its output type and \<open>module_path\<close> of its keys.
\<close>

section \<open>Data\<close>

datatype ('t, 'e) txn_status = Success 't | Abort 'e | SkipRest 't

datatype 'e exec_error = ModulePathReadWrite | UserError 'e

datatype read_kind =
    KindVersion txn_index incarnation
  | KindResolved u128
  | KindUnresolved delta_op
  | KindStorage
  | KindDeltaApplicationFailure

record 'k read_descriptor =
  access_path :: 'k
  kind :: read_kind

definition from_version :: "'k \<Rightarrow> txn_index \<Rightarrow> incarnation \<Rightarrow> 'k read_descriptor" where
  "from_version path txn_idx incarnation = \<lparr>access_path = path, kind = KindVersion txn_idx incarnation\<rparr>"

definition from_resolved :: "'k \<Rightarrow> u128 \<Rightarrow> 'k read_descriptor" where
  "from_resolved path v = \<lparr>access_path = path, kind = KindResolved v\<rparr>"

definition from_unresolved :: "'k \<Rightarrow> delta_op \<Rightarrow> 'k read_descriptor" where
  "from_unresolved path delta = \<lparr>access_path = path, kind = KindUnresolved delta\<rparr>"

definition from_storage :: "'k \<Rightarrow> 'k read_descriptor" where
  "from_storage path = \<lparr>access_path = path, kind = KindStorage\<rparr>"

definition from_delta_application_failure :: "'k \<Rightarrow> 'k read_descriptor" where
  "from_delta_application_failure path = \<lparr>access_path = path, kind = KindDeltaApplicationFailure\<rparr>"

lemmas descriptor_defs = from_version_def from_resolved_def from_unresolved_def from_storage_def
  from_delta_application_failure_def

definition validate_version :: "'k read_descriptor \<Rightarrow> version \<Rightarrow> bool" where
  "validate_version r version = (case version of (txn_idx, incarnation) \<Rightarrow> kind r = KindVersion txn_idx incarnation)"

definition validate_resolved :: "'k read_descriptor \<Rightarrow> u128 \<Rightarrow> bool" where
  "validate_resolved r v \<longleftrightarrow> kind r = KindResolved v"

definition validate_unresolved :: "'k read_descriptor \<Rightarrow> delta_op \<Rightarrow> bool" where
  "validate_unresolved r delta \<longleftrightarrow> kind r = KindUnresolved delta"

definition validate_storage :: "'k read_descriptor \<Rightarrow> bool" where
  "validate_storage r \<longleftrightarrow> kind r = KindStorage"

definition validate_delta_application_failure :: "'k read_descriptor \<Rightarrow> bool" where
  "validate_delta_application_failure r \<longleftrightarrow> kind r = KindDeltaApplicationFailure"

lemmas validate_defs = validate_version_def validate_resolved_def validate_unresolved_def validate_storage_def
  validate_delta_application_failure_def

record ('k, 'p, 'o, 'e) last_io =
  inputs :: "'k read_descriptor list option list"
  outputs :: "('o, 'e exec_error) txn_status option list"
  module_writes :: "'p set"
  module_reads :: "'p set"
  module_read_write_intersection :: bool

definition lio_new :: "nat \<Rightarrow> ('k, 'p, 'o, 'e) last_io" where
  "lio_new num_txns = \<lparr>inputs = replicate num_txns None, outputs = replicate num_txns None,
     module_writes = {}, module_reads = {}, module_read_write_intersection = False\<rparr>"

section \<open>Operations\<close>

text \<open>The extended set and whether a path of the other set was met; the loop stops there.\<close>

fun append_and_check :: "'p list \<Rightarrow> 'p set \<Rightarrow> 'p set \<Rightarrow> bool \<times> 'p set" where
  "append_and_check [] set_to_append set_to_check = (False, set_to_append)"
| "append_and_check (path # paths) set_to_append set_to_check =
     (if path \<in> set_to_check then (True, insert path set_to_append)
      else append_and_check paths (insert path set_to_append) set_to_check)"

fun filter_map :: "('a \<Rightarrow> 'b option) \<Rightarrow> 'a list \<Rightarrow> 'b list" where
  "filter_map f [] = []"
| "filter_map f (x # xs) = (case f x of None \<Rightarrow> filter_map f xs | Some y \<Rightarrow> y # filter_map f xs)"

definition written_modules ::
  "('k \<Rightarrow> 'p option) \<Rightarrow> ('o \<Rightarrow> ('k \<times> 'v) list) \<Rightarrow> ('o, 'e) txn_status \<Rightarrow> 'p list" where
  "written_modules module_path get_writes status =
     (case status of
        Success output \<Rightarrow> filter_map (\<lambda>(k, _). module_path k) (get_writes output)
      | SkipRest output \<Rightarrow> filter_map (\<lambda>(k, _). module_path k) (get_writes output)
      | Abort _ \<Rightarrow> [])"

definition record_modules :: "'p list \<Rightarrow> 'p list \<Rightarrow> ('k, 'p, 'o, 'e) last_io \<Rightarrow> ('k, 'p, 'o, 'e) last_io" where
  "record_modules read_modules written s =
     (if module_read_write_intersection s then s
      else case append_and_check read_modules (module_reads s) (module_writes s) of
          (True, reads) \<Rightarrow> s\<lparr>module_reads := reads, module_read_write_intersection := True\<rparr>
        | (False, reads) \<Rightarrow>
            (case append_and_check written (module_writes s) reads of
               (found, writes) \<Rightarrow> s\<lparr>module_reads := reads, module_writes := writes,
                 module_read_write_intersection := found\<rparr>))"

definition lio_record ::
  "('k \<Rightarrow> 'p option) \<Rightarrow> ('o \<Rightarrow> ('k \<times> 'v) list) \<Rightarrow> ('k, 'p, 'o, 'e) last_io \<Rightarrow> txn_index
     \<Rightarrow> 'k read_descriptor list \<Rightarrow> ('o, 'e exec_error) txn_status \<Rightarrow> ('k, 'p, 'o, 'e) last_io outcome" where
  "lio_record module_path get_writes s txn_idx input output =
     (let read_modules = filter_map (module_path \<circ> access_path) input;
          s = record_modules read_modules (written_modules module_path get_writes output) s in
      out_bind (index (inputs s) txn_idx) (\<lambda>_.
      out_bind (index (outputs s) txn_idx) (\<lambda>_.
        Ret (s\<lparr>inputs := (inputs s)[txn_idx := Some input], outputs := (outputs s)[txn_idx := Some output]\<rparr>))))"

definition module_publishing_may_race :: "('k, 'p, 'o, 'e) last_io \<Rightarrow> bool" where
  "module_publishing_may_race s = module_read_write_intersection s"

definition read_set :: "('k, 'p, 'o, 'e) last_io \<Rightarrow> txn_index \<Rightarrow> 'k read_descriptor list option outcome" where
  "read_set s txn_idx = index (inputs s) txn_idx"

text \<open>
  The keys an output wrote or updated. A hash set is the list of its elements in the order of its iteration,
  which the code leaves open; here it is the order of insertion.
\<close>

definition status_keys ::
  "('o \<Rightarrow> ('k \<times> 'v) list) \<Rightarrow> ('o \<Rightarrow> ('k \<times> delta_op) list) \<Rightarrow> ('o, 'e) txn_status option \<Rightarrow> 'k list" where
  "status_keys get_writes get_deltas output =
     (case output of
        None \<Rightarrow> []
      | Some (Success t) \<Rightarrow> remdups (map fst (get_writes t) @ map fst (get_deltas t))
      | Some (SkipRest t) \<Rightarrow> remdups (map fst (get_writes t) @ map fst (get_deltas t))
      | Some (Abort _) \<Rightarrow> [])"

definition modified_keys ::
  "('o \<Rightarrow> ('k \<times> 'v) list) \<Rightarrow> ('o \<Rightarrow> ('k \<times> delta_op) list) \<Rightarrow> ('k, 'p, 'o, 'e) last_io \<Rightarrow> txn_index
     \<Rightarrow> 'k list outcome" where
  "modified_keys get_writes get_deltas s txn_idx =
     out_bind (index (outputs s) txn_idx) (\<lambda>output. Ret (status_keys get_writes get_deltas output))"

text \<open>The executor holds the only reference when it takes the outputs, so the reference count is one.\<close>

definition take_output ::
  "('k, 'p, 'o, 'e) last_io \<Rightarrow> txn_index \<Rightarrow> (('o, 'e exec_error) txn_status \<times> ('k, 'p, 'o, 'e) last_io) outcome" where
  "take_output s txn_idx =
     out_bind (index (outputs s) txn_idx) (\<lambda>output.
     out_bind (expect output) (\<lambda>output.
       Ret (output, s\<lparr>outputs := (outputs s)[txn_idx := None]\<rparr>)))"

lemma record_modules_frame [simp]:
  "inputs (record_modules rs ws s) = inputs s" "outputs (record_modules rs ws s) = outputs s"
  by (simp_all add: record_modules_def split: prod.split bool.split)

lemma append_and_check_sound:
  "append_and_check paths a c = (found, a') \<Longrightarrow> a \<subseteq> a' \<and> (a \<inter> c = {} \<longrightarrow> \<not> found \<longrightarrow> a' \<inter> c = {})"
  by (induction paths a c arbitrary: found a' rule: append_and_check.induct) (auto split: if_splits)

lemma record_modules_sound:
  assumes "module_reads s \<inter> module_writes s \<noteq> {} \<longrightarrow> module_read_write_intersection s"
  shows "(module_reads (record_modules rs ws s) \<inter> module_writes (record_modules rs ws s) \<noteq> {}
      \<longrightarrow> module_read_write_intersection (record_modules rs ws s))
    \<and> module_reads s \<subseteq> module_reads (record_modules rs ws s) \<and> module_writes s \<subseteq> module_writes (record_modules rs ws s)"
proof (cases "module_read_write_intersection s")
  case True
  then show ?thesis by (simp add: record_modules_def)
next
  case False
  obtain f1 r where 1: "append_and_check rs (module_reads s) (module_writes s) = (f1, r)" by force
  obtain f2 w where 2: "append_and_check ws (module_writes s) r = (f2, w)" by force
  show ?thesis
    using assms False append_and_check_sound [OF 1] append_and_check_sound [OF 2] 1 2
    by (cases f1; cases f2) (auto simp: record_modules_def)
qed

section \<open>The flags principle\<close>

text \<open>
  Several workers record at once. The steps below interleave the accesses to the shared sets one by one:
  a worker loads the flag, inserts each path and then looks it up in the other set, and stores the flag
  when it finds one there.
\<close>

datatype 'p module_op =
    LoadFlag "'p list" "'p list"
  | InsertRead 'p
  | CheckRead 'p
  | InsertWrite 'p
  | CheckWrite 'p
  | StoreFlag

record 'p module_state =
  ms_reads :: "'p set"
  ms_writes :: "'p set"
  ms_flag :: bool
  ms_threads :: "'p module_op list list"

fun module_ops :: "'p list \<Rightarrow> 'p list \<Rightarrow> 'p module_op list" where
  "module_ops [] [] = []"
| "module_ops [] (p # ws) = InsertWrite p # CheckWrite p # module_ops [] ws"
| "module_ops (p # rs) ws = InsertRead p # CheckRead p # module_ops rs ws"

fun run_module_op :: "'p module_op \<Rightarrow> 'p module_op list \<Rightarrow> 'p module_state \<Rightarrow> 'p module_op list \<times> 'p module_state" where
  "run_module_op (LoadFlag rs ws) ops s = (if ms_flag s then ops else module_ops rs ws @ ops, s)"
| "run_module_op (InsertRead p) ops s = (ops, s\<lparr>ms_reads := insert p (ms_reads s)\<rparr>)"
| "run_module_op (CheckRead p) ops s = (if p \<in> ms_writes s then [StoreFlag] else ops, s)"
| "run_module_op (InsertWrite p) ops s = (ops, s\<lparr>ms_writes := insert p (ms_writes s)\<rparr>)"
| "run_module_op (CheckWrite p) ops s = (if p \<in> ms_reads s then [StoreFlag] else ops, s)"
| "run_module_op StoreFlag ops s = (ops, s\<lparr>ms_flag := True\<rparr>)"

text \<open>A worker without pending accesses may start to record; otherwise it performs the next access.\<close>

inductive module_step :: "'p module_state \<Rightarrow> 'p module_state \<Rightarrow> bool" where
  ms_start: "t < length (ms_threads s) \<Longrightarrow> ms_threads s ! t = [] \<Longrightarrow>
    module_step s (s\<lparr>ms_threads := (ms_threads s)[t := [LoadFlag rs ws]]\<rparr>)"
| ms_access: "t < length (ms_threads s) \<Longrightarrow> ms_threads s ! t = op # ops \<Longrightarrow> run_module_op op ops s = (ops', s') \<Longrightarrow>
    module_step s (s'\<lparr>ms_threads := (ms_threads s')[t := ops']\<rparr>)"

definition module_init :: "'p module_state \<Rightarrow> bool" where
  "module_init s \<longleftrightarrow> ms_reads s = {} \<and> ms_writes s = {} \<and> \<not> ms_flag s \<and> (\<forall>ops\<in>set (ms_threads s). ops = [])"

text \<open>Some worker is about to notice that a path is in both sets.\<close>

fun notices :: "'p \<Rightarrow> 'p module_op list \<Rightarrow> bool" where
  "notices p (CheckRead q # _) \<longleftrightarrow> q = p"
| "notices p (CheckWrite q # _) \<longleftrightarrow> q = p"
| "notices p (StoreFlag # _) = True"
| "notices p _ = False"

fun paired :: "'p module_op list \<Rightarrow> bool" where
  "paired [] = True"
| "paired (InsertRead p # CheckRead q # ops) \<longleftrightarrow> p = q \<and> paired ops"
| "paired (InsertWrite p # CheckWrite q # ops) \<longleftrightarrow> p = q \<and> paired ops"
| "paired _ = False"

fun thread_ok :: "'p module_op list \<Rightarrow> bool" where
  "thread_ok [LoadFlag _ _] = True"
| "thread_ok [StoreFlag] = True"
| "thread_ok (CheckRead _ # ops) = paired ops"
| "thread_ok (CheckWrite _ # ops) = paired ops"
| "thread_ok ops = paired ops"

definition module_inv :: "'p module_state \<Rightarrow> bool" where
  "module_inv s \<longleftrightarrow> (\<forall>ops\<in>set (ms_threads s). thread_ok ops) \<and>
     (\<forall>p\<in>ms_reads s \<inter> ms_writes s. ms_flag s \<or> (\<exists>ops\<in>set (ms_threads s). notices p ops))"

lemma paired_module_ops: "paired (module_ops rs ws)"
  by (induction rs ws rule: module_ops.induct) simp_all

lemma thread_ok_paired: "paired ops \<Longrightarrow> thread_ok ops"
  by (cases ops rule: paired.cases) simp_all

lemma notices_update:
  assumes "\<exists>ops\<in>set ths. notices p ops" and "t < length ths" and "notices p (ths ! t) \<Longrightarrow> notices p ops'"
  shows "\<exists>ops\<in>set (ths[t := ops']). notices p ops"
proof -
  from assms(1) obtain u where u: "u < length ths" "notices p (ths ! u)" by (auto simp: in_set_conv_nth)
  show ?thesis
  proof (cases "u = t")
    case True
    with u assms(2,3) show ?thesis by (auto intro: set_update_memI)
  next
    case False
    with u show ?thesis by (metis length_list_update nth_list_update_neq nth_mem)
  qed
qed

lemma thread_ok_tail:
  assumes "thread_ok (op # ops)" and "run_module_op op ops s = (ops', s')"
  shows "thread_ok ops'"
proof (cases op)
  case (LoadFlag rs ws)
  with assms show ?thesis by (cases ops) (auto simp: paired_module_ops thread_ok_paired split: if_splits)
next
  case (InsertRead p)
  with assms have "paired (InsertRead p # ops)" "ops' = ops" by auto
  then show ?thesis by (cases ops rule: paired.cases) (auto elim: paired.elims)
next
  case (InsertWrite p)
  with assms have "paired (InsertWrite p # ops)" "ops' = ops" by auto
  then show ?thesis by (cases ops rule: paired.cases) (auto elim: paired.elims)
next
  case StoreFlag
  with assms show ?thesis by (cases ops) auto
qed (use assms in \<open>auto simp: thread_ok_paired split: if_splits\<close>)

lemma run_module_op_threads: "run_module_op op ops s = (ops', s') \<Longrightarrow> ms_threads s' = ms_threads s"
  by (cases op) auto

lemma insert_then_check:
  assumes "thread_ok (op # ops)"
  shows "op = InsertRead q \<Longrightarrow> notices q ops" and "op = InsertWrite q \<Longrightarrow> notices q ops"
  using assms by (cases ops rule: paired.cases; auto elim: paired.elims)+

lemma access_notices:
  assumes ok: "thread_ok (op # ops)" and run: "run_module_op op ops s = (ops', s')" and t: "t < length (ms_threads s)"
    and th: "ms_threads s ! t = op # ops" and p: "p \<in> ms_reads s' \<inter> ms_writes s'" and nf: "\<not> ms_flag s'"
    and old: "p \<in> ms_reads s \<inter> ms_writes s \<Longrightarrow> ms_flag s \<or> (\<exists>ops\<in>set (ms_threads s). notices p ops)"
  shows "\<exists>ops\<in>set ((ms_threads s)[t := ops']). notices p ops"
proof (cases "p \<in> ms_reads s \<inter> ms_writes s")
  case True
  have "\<not> ms_flag s" using run nf by (cases op) auto
  moreover have "notices p (op # ops) \<Longrightarrow> notices p ops'" using run True nf by (cases op) auto
  ultimately show ?thesis using old [OF True] t th by (intro notices_update) auto
next
  case False
  then have "op = InsertRead p \<or> op = InsertWrite p" "ops' = ops" using run p by (cases op; auto)+
  with insert_then_check [OF ok] have "notices p ops'" by blast
  with t show ?thesis by (meson set_update_memI)
qed

lemma module_step_inv:
  assumes "module_step s u" and "module_inv s"
  shows "module_inv u"
  using assms(1)
proof cases
  case (ms_start t rs ws)
  have "thread_ok ops" if "ops \<in> set (ms_threads u)" for ops
    using that ms_start assms(2) set_update_subset_insert [of "ms_threads s" t "[LoadFlag rs ws]"]
    by (auto simp: module_inv_def)
  moreover have "\<exists>ops\<in>set (ms_threads u). notices p ops" if "\<exists>ops\<in>set (ms_threads s). notices p ops" for p
    unfolding ms_start(1) using ms_start(2,3) notices_update [OF that ms_start(2)] by simp
  ultimately show ?thesis using assms(2) ms_start(1) unfolding module_inv_def by auto
next
  case (ms_access t op ops ops' s')
  note threads = run_module_op_threads [OF ms_access(4)]
  have ok: "thread_ok (op # ops)" using assms(2) ms_access(2,3) by (metis module_inv_def nth_mem)
  have "thread_ok o'" if "o' \<in> set (ms_threads u)" for o'
    using that ms_access(1) threads assms(2) thread_ok_tail [OF ok ms_access(4)]
      set_update_subset_insert [of "ms_threads s" t ops'] by (auto simp: module_inv_def)
  moreover have "ms_flag u \<or> (\<exists>o'\<in>set (ms_threads u). notices p o')" if "p \<in> ms_reads u \<inter> ms_writes u" for p
    using access_notices [OF ok ms_access(4,2,3), of p] that ms_access(1) threads assms(2)
    by (auto simp: module_inv_def)
  ultimately show ?thesis by (simp add: module_inv_def)
qed

interpretation mrw: invariant_system module_init module_step module_inv
proof unfold_locales
  show "module_inv s" if "module_init s" for s :: "'p module_state"
    using that by (auto simp: module_init_def module_inv_def)
qed (rule module_step_inv)

text \<open>Run without interference, the accesses of one worker do what \<open>record_modules\<close> does.\<close>

definition ms_result :: "'p module_state \<Rightarrow> nat \<Rightarrow> 'p set \<Rightarrow> 'p set \<Rightarrow> bool \<Rightarrow> 'p module_state" where
  "ms_result s t r w f = s\<lparr>ms_reads := r, ms_writes := w, ms_flag := f, ms_threads := (ms_threads s)[t := []]\<rparr>"

lemma access_first:
  assumes "t < length (ms_threads s)" and "ms_threads s ! t = op # ops" and "run_module_op op ops s = (ops', s')"
    and "module_step\<^sup>*\<^sup>* (s'\<lparr>ms_threads := (ms_threads s')[t := ops']\<rparr>) u"
  shows "module_step\<^sup>*\<^sup>* s u"
  using ms_access [OF assms(1-3)] assms(4) by (meson converse_rtranclp_into_rtranclp)

lemma store_flag_steps:
  assumes "t < length (ms_threads s)" and "ms_threads s ! t = [StoreFlag]"
  shows "module_step\<^sup>*\<^sup>* s (ms_result s t (ms_reads s) (ms_writes s) True)"
  by (rule access_first [OF assms run_module_op.simps(6)]) (simp add: ms_result_def)

lemma write_accesses:
  assumes "t < length (ms_threads s)" and "ms_threads s ! t = module_ops [] ws" and "\<not> ms_flag s"
  shows "module_step\<^sup>*\<^sup>* s (ms_result s t (ms_reads s) (snd (append_and_check ws (ms_writes s) (ms_reads s)))
    (fst (append_and_check ws (ms_writes s) (ms_reads s))))"
  using assms
proof (induction ws arbitrary: s)
  case Nil
  then have "ms_result s t (ms_reads s) (ms_writes s) False = s" by (simp add: ms_result_def list_update_same_conv)
  then show ?case by simp
next
  case (Cons p ws)
  let ?s = "s\<lparr>ms_writes := insert p (ms_writes s), ms_threads := (ms_threads s)[t := CheckWrite p # module_ops [] ws]\<rparr>"
  have "module_step\<^sup>*\<^sup>* ?s (ms_result s t (ms_reads s) (snd (append_and_check (p # ws) (ms_writes s) (ms_reads s)))
      (fst (append_and_check (p # ws) (ms_writes s) (ms_reads s))))"
  proof (cases "p \<in> ms_reads s")
    case True
    let ?u = "s\<lparr>ms_writes := insert p (ms_writes s), ms_threads := (ms_threads s)[t := [StoreFlag]]\<rparr>"
    show ?thesis
      using True Cons.prems store_flag_steps [of t ?u]
      by (intro access_first [of t ?s "CheckWrite p" "module_ops [] ws" "[StoreFlag]" ?s]) (simp_all add: ms_result_def)
  next
    case False
    let ?u = "s\<lparr>ms_writes := insert p (ms_writes s), ms_threads := (ms_threads s)[t := module_ops [] ws]\<rparr>"
    show ?thesis
      using False Cons.prems Cons.IH [of ?u]
      by (intro access_first [of t ?s "CheckWrite p" "module_ops [] ws" "module_ops [] ws" ?s]) (simp_all add: ms_result_def)
  qed
  then show ?case
    using Cons.prems by (intro access_first [of t s "InsertWrite p" "CheckWrite p # module_ops [] ws" _
          "s\<lparr>ms_writes := insert p (ms_writes s)\<rparr>"]) (simp_all del: append_and_check.simps)
qed

definition record_result :: "'p list \<Rightarrow> 'p list \<Rightarrow> 'p module_state \<Rightarrow> nat \<Rightarrow> 'p module_state" where
  "record_result rs ws s t =
     (case append_and_check rs (ms_reads s) (ms_writes s) of
        (True, r) \<Rightarrow> ms_result s t r (ms_writes s) True
      | (False, r) \<Rightarrow> (case append_and_check ws (ms_writes s) r of (f, w) \<Rightarrow> ms_result s t r w f))"

lemma record_accesses:
  assumes "t < length (ms_threads s)" and "ms_threads s ! t = module_ops rs ws" and "\<not> ms_flag s"
  shows "module_step\<^sup>*\<^sup>* s (record_result rs ws s t)"
  using assms
proof (induction rs arbitrary: s)
  case Nil
  then show ?case using write_accesses [of t s ws] by (simp add: record_result_def split_def)
next
  case (Cons p rs)
  let ?s = "s\<lparr>ms_reads := insert p (ms_reads s), ms_threads := (ms_threads s)[t := CheckRead p # module_ops rs ws]\<rparr>"
  have "module_step\<^sup>*\<^sup>* ?s (record_result (p # rs) ws s t)"
  proof (cases "p \<in> ms_writes s")
    case True
    let ?u = "s\<lparr>ms_reads := insert p (ms_reads s), ms_threads := (ms_threads s)[t := [StoreFlag]]\<rparr>"
    show ?thesis
      using True Cons.prems store_flag_steps [of t ?u]
      by (intro access_first [of t ?s "CheckRead p" "module_ops rs ws" "[StoreFlag]" ?s])
        (simp_all add: record_result_def ms_result_def)
  next
    case False
    let ?u = "s\<lparr>ms_reads := insert p (ms_reads s), ms_threads := (ms_threads s)[t := module_ops rs ws]\<rparr>"
    have "record_result (p # rs) ws s t = record_result rs ws ?u t"
      using False by (auto simp: record_result_def ms_result_def split: prod.splits bool.splits)
    then show ?thesis
      using False Cons.prems Cons.IH [of ?u]
      by (intro access_first [of t ?s "CheckRead p" "module_ops rs ws" "module_ops rs ws" ?s]) simp_all
  qed
  then show ?case
    using Cons.prems by (intro access_first [of t s "InsertRead p" "CheckRead p # module_ops rs ws" _
          "s\<lparr>ms_reads := insert p (ms_reads s)\<rparr>"]) (simp_all del: append_and_check.simps)
qed

section \<open>Properties\<close>

text \<open>
  C15. The flags principle. Whatever the interleaving of the workers' accesses, once no worker is in the
  middle of \<^verbatim>\<open>record\<close> and the flag is not set, no module path was both read and written; so a
  block that goes through without the fallback used no module that it also published.
\<close>

theorem module_race_is_detected:
  assumes "reachable module_init module_step s" and "\<forall>ops\<in>set (ms_threads s). ops = []" and "\<not> ms_flag s"
  shows "ms_reads s \<inter> ms_writes s = {}"
proof -
  have inv: "module_inv s" by (rule mrw.reachable_inv [OF assms(1)])
  have "\<not> notices p ops" if "ops \<in> set (ms_threads s)" for p ops
  proof -
    have "ops = []" using that assms(2) by blast
    then show ?thesis by simp
  qed
  with inv assms(3) show ?thesis by (auto simp: module_inv_def)
qed

text \<open>A run in which one worker records a read of path 1 and then another a write of path 2.\<close>

lemma module_demo:
  "reachable module_init module_step \<lparr>ms_reads = {1::nat}, ms_writes = {2}, ms_flag = False, ms_threads = [[], []]\<rparr>"
proof -
  let ?s = "\<lambda>r w a b. \<lparr>ms_reads = r, ms_writes = w, ms_flag = False, ms_threads = [a, b]\<rparr> :: nat module_state"
  have "reachable module_init module_step (?s {} {} [] [])"
    by (rule reach_init) (simp add: module_init_def)
  moreover have "module_step (?s {} {} [] []) (?s {} {} [LoadFlag [1] []] [])"
    using ms_start [of 0 "?s {} {} [] []" "[1]" "[]"] by simp
  moreover have "module_step (?s {} {} [LoadFlag [1] []] []) (?s {} {} (module_ops [1] []) [])"
    using ms_access [of 0 "?s {} {} [LoadFlag [1] []] []" "LoadFlag [1] []" "[]"] by simp
  moreover have "module_step\<^sup>*\<^sup>* (?s {} {} (module_ops [1] []) []) (?s {1} {} [] [])"
    using record_accesses [of 0 "?s {} {} (module_ops [1] []) []" "[1]" "[]"]
    by (simp add: record_result_def ms_result_def)
  moreover have "module_step (?s {1} {} [] []) (?s {1} {} [] [LoadFlag [] [2]])"
    using ms_start [of 1 "?s {1} {} [] []" "[]" "[2]"] by simp
  moreover have "module_step (?s {1} {} [] [LoadFlag [] [2]]) (?s {1} {} [] (module_ops [] [2]))"
    using ms_access [of 1 "?s {1} {} [] [LoadFlag [] [2]]" "LoadFlag [] [2]" "[]"] by simp
  moreover have "module_step\<^sup>*\<^sup>* (?s {1} {} [] (module_ops [] [2])) (?s {1} {2} [] [])"
    using record_accesses [of 1 "?s {1} {} [] (module_ops [] [2])" "[]" "[2]"]
    by (simp add: record_result_def ms_result_def)
  ultimately show ?thesis by (meson reach_step reach_steps)
qed

theorem module_race_is_detected_witness:
  "reachable module_init module_step \<lparr>ms_reads = {1::nat}, ms_writes = {2}, ms_flag = False, ms_threads = [[], []]\<rparr>
    \<and> {1::nat} \<inter> {2} = {}"
  using module_race_is_detected [OF module_demo] module_demo by simp

text \<open>
  Recording a transaction keeps the flag truthful: if before the call it was set whenever a module path
  was in both sets, it is so afterwards; the call replaces the input and output of its transaction, keeps
  those of the others, and forgets no module path it recorded before.
\<close>

theorem record_keeps_flag:
  assumes "module_reads s \<inter> module_writes s \<noteq> {} \<Longrightarrow> module_publishing_may_race s"
    and "lio_record module_path get_writes s i input output = Ret s'"
  shows "(module_reads s' \<inter> module_writes s' \<noteq> {} \<longrightarrow> module_publishing_may_race s')
    \<and> module_reads s \<subseteq> module_reads s' \<and> module_writes s \<subseteq> module_writes s'
    \<and> read_set s' i = Ret (Some input) \<and> (\<forall>j. j \<noteq> i \<longrightarrow> read_set s' j = read_set s j)
    \<and> modified_keys get_writes get_deltas s' i = Ret (status_keys get_writes get_deltas (Some output))
    \<and> (\<forall>j. j \<noteq> i \<longrightarrow> modified_keys get_writes get_deltas s' j = modified_keys get_writes get_deltas s j)"
proof -
  let ?r = "record_modules (filter_map (module_path \<circ> access_path) input) (written_modules module_path get_writes output) s"
  from assms(2) have s': "s' = ?r\<lparr>inputs := (inputs s)[i := Some input], outputs := (outputs s)[i := Some output]\<rparr>"
    and i: "i < length (inputs s)" "i < length (outputs s)"
    by (auto simp: lio_record_def Let_def out_bind_eq_Ret_iff index_eq_Ret_iff)
  have "(module_reads ?r \<inter> module_writes ?r \<noteq> {} \<longrightarrow> module_read_write_intersection ?r)
      \<and> module_reads s \<subseteq> module_reads ?r \<and> module_writes s \<subseteq> module_writes ?r"
    using assms(1) record_modules_sound [of s] by (simp add: module_publishing_may_race_def)
  with i show ?thesis
    unfolding s' module_publishing_may_race_def read_set_def modified_keys_def
    by (simp add: index_def)
qed

theorem record_keeps_flag_witness:
  "let s = lio_new 2 :: (nat, nat, (nat \<times> nat) list, unit) last_io;
       r = lio_record Some id s 1 [from_storage 5] (Success [(5, 0)]) in
   module_reads s \<inter> module_writes s = {}
   \<and> (case r of Ret s' \<Rightarrow> module_publishing_may_race s' \<and> read_set s' 1 = Ret (Some [from_storage 5])
        \<and> modified_keys id (\<lambda>_. []) s' 1 = Ret [5] | Panic \<Rightarrow> False)"
proof -
  let ?s = "lio_new 2 :: (nat, nat, (nat \<times> nat) list, unit) last_io"
  have f: "module_reads ?s \<inter> module_writes ?s \<noteq> {} \<Longrightarrow> module_publishing_may_race ?s" by (simp add: lio_new_def)
  obtain s' where s': "lio_record Some id ?s 1 [from_storage 5] (Success [(5, 0)]) = Ret s'"
    and b: "5 \<in> module_reads s'" "5 \<in> module_writes s'"
    by (simp add: lio_record_def lio_new_def record_modules_def written_modules_def from_storage_def)
  from record_keeps_flag [OF f s', where get_deltas = "\<lambda>_. []"] b s' show ?thesis
    by (auto simp: Let_def status_keys_def lio_new_def)
qed

end
