(* ===== verification/View.thy ===== *)
theory View
  imports TxnIO
begin

text \<open>
  The views a transaction is executed on (\<^verbatim>\<open>block-executor/src/view.rs\<close>): \<^verbatim>\<open>MVHashMapView\<close>, which reads
  the multi-version map and captures the reads, and \<^verbatim>\<open>LatestView\<close>, which turns a read into the bytes
  the virtual machine sees, from the multi-version map or from the map of the sequential executor, with the
  base view below. The virtual machine is a parameter of the executor; what it does with a view is
  a tree of reads: it asks for a key and goes on with the answer, or it is done.
\<close>

section \<open>Reading the multi-version map\<close>

datatype 'v read_result = ReadValue 'v | ReadU128 u128 | ReadUnresolved delta_op | ReadNone

text \<open>
  One round of the loop of \<^verbatim>\<open>MVHashMapView::read\<close>: the captured read and the result, or the index the
  transaction depends on, in which case the loop goes round again after waiting.
\<close>

fun capture :: "'k \<Rightarrow> mv_error + 'v mv_output \<Rightarrow> txn_index + 'k read_descriptor \<times> 'v read_result" where
  "capture key (Inr (Version (idx, incarnation) v)) = Inr (from_version key idx incarnation, ReadValue v)"
| "capture key (Inr (Resolved x)) = Inr (from_resolved key x, ReadU128 x)"
| "capture key (Inl NotFound) = Inr (from_storage key, ReadNone)"
| "capture key (Inl (Unresolved delta)) = Inr (from_unresolved key delta, ReadUnresolved delta)"
| "capture key (Inl (Dependency dep_idx)) = Inl dep_idx"
| "capture key (Inl DeltaApplicationFailure) = Inr (from_delta_application_failure key, ReadU128 0)"

definition read_round ::
  "('v \<Rightarrow> bytes option) \<Rightarrow> (bytes \<Rightarrow> u128 option) \<Rightarrow> ('k, 'v) mv_hashmap \<Rightarrow> 'k \<Rightarrow> txn_index
     \<Rightarrow> (txn_index + 'k read_descriptor \<times> 'v read_result) outcome" where
  "read_round extract from_bytes m key txn_idx =
     out_bind (mv_read extract from_bytes m key txn_idx) (\<lambda>r. Ret (capture key r))"

text \<open>
  The loop, over the states of the map that its rounds meet; \<open>None\<close> when they all met a dependency.
\<close>

fun view_read ::
  "('v \<Rightarrow> bytes option) \<Rightarrow> (bytes \<Rightarrow> u128 option) \<Rightarrow> ('k, 'v) mv_hashmap list \<Rightarrow> 'k \<Rightarrow> txn_index
     \<Rightarrow> ('k read_descriptor \<times> 'v read_result) option outcome" where
  "view_read extract from_bytes [] key txn_idx = Ret None"
| "view_read extract from_bytes (m # ms) key txn_idx =
     out_bind (read_round extract from_bytes m key txn_idx) (\<lambda>r.
       case r of Inl _ \<Rightarrow> view_read extract from_bytes ms key txn_idx | Inr x \<Rightarrow> Ret (Some x))"

section \<open>The bytes of a key\<close>

datatype 'e view_error = BaseViewError 'e | StorageError | DeltaFailed

text \<open>\<^verbatim>\<open>get_state_value\<close> on the multi-version map, given the result of the read.\<close>

definition mv_state_value ::
  "('v \<Rightarrow> bytes option) \<Rightarrow> (u128 \<Rightarrow> bytes) \<Rightarrow> (bytes \<Rightarrow> u128 option) \<Rightarrow> ('k \<Rightarrow> 'e + bytes option)
     \<Rightarrow> 'k \<Rightarrow> 'v read_result \<Rightarrow> ('e view_error + bytes option) outcome" where
  "mv_state_value extract to_bytes from_bytes base_view state_key r =
     (case r of
        ReadValue v \<Rightarrow> Ret (Inr (extract v))
      | ReadU128 v \<Rightarrow> Ret (Inr (Some (serialize to_bytes v)))
      | ReadUnresolved delta \<Rightarrow>
          (case base_view state_key of
             Inl e \<Rightarrow> Ret (Inl (BaseViewError e))
           | Inr None \<Rightarrow> Ret (Inl StorageError)
           | Inr (Some bs) \<Rightarrow> out_bind (deserialize from_bytes bs) (\<lambda>from_storage.
               Ret (case apply_to delta from_storage of
                      Inl _ \<Rightarrow> Inl DeltaFailed
                    | Inr result \<Rightarrow> Inr (Some (serialize to_bytes result)))))
      | ReadNone \<Rightarrow> Ret (map_err BaseViewError (base_view state_key)))"

text \<open>\<^verbatim>\<open>get_state_value\<close> on the map of the sequential executor.\<close>

definition btree_state_value ::
  "('v \<Rightarrow> bytes option) \<Rightarrow> ('k \<Rightarrow> 'e + bytes option) \<Rightarrow> ('k::linorder, 'v) btree_map \<Rightarrow> 'k \<Rightarrow> 'e view_error + bytes option" where
  "btree_state_value extract base_view m state_key =
     (case btm_get m state_key of
        None \<Rightarrow> map_err BaseViewError (base_view state_key)
      | Some v \<Rightarrow> Inr (extract v))"

section \<open>The virtual machine on a view\<close>

datatype ('k, 'a, 'r) vm = VmDone 'r | VmRead 'k "'a \<Rightarrow> ('k, 'a, 'r) vm"

text \<open>On a view that does not change.\<close>

primrec vm_run :: "('k \<Rightarrow> 'a) \<Rightarrow> ('k, 'a, 'r) vm \<Rightarrow> 'r" where
  "vm_run view (VmDone r) = r"
| "vm_run view (VmRead k f) = vm_run view (f (view k))"

primrec vm_run_out :: "('k \<Rightarrow> 'a outcome) \<Rightarrow> ('k, 'a, 'r) vm \<Rightarrow> 'r outcome" where
  "vm_run_out view (VmDone r) = Ret r"
| "vm_run_out view (VmRead k f) = (case view k of Panic \<Rightarrow> Panic | Ret a \<Rightarrow> vm_run_out view (f a))"

text \<open>
  On the multi-version map, capturing the reads: the result, or the dependency that was met and the machine that
  is suspended there.
\<close>

datatype ('k, 'a, 'r) vm_result =
    Finished_run 'r "'k read_descriptor list"
  | Depends_on txn_index "('k, 'a, 'r) vm" "'k read_descriptor list"

primrec vm_run_mv ::
  "('k \<Rightarrow> (txn_index + 'k read_descriptor \<times> 'a) outcome) \<Rightarrow> ('k, 'a, 'r) vm \<Rightarrow> 'k read_descriptor list
     \<Rightarrow> ('k, 'a, 'r) vm_result outcome" where
  "vm_run_mv view (VmDone r) captured = Ret (Finished_run r captured)"
| "vm_run_mv view (VmRead k f) captured =
     (case view k of
        Panic \<Rightarrow> Panic
      | Ret (Inl dep_idx) \<Rightarrow> Ret (Depends_on dep_idx (VmRead k f) captured)
      | Ret (Inr (r, a)) \<Rightarrow> vm_run_mv view (f a) (captured @ [r]))"

text \<open>The answer the machine gets from the multi-version map.\<close>

definition mv_answer ::
  "('v \<Rightarrow> bytes option) \<Rightarrow> (u128 \<Rightarrow> bytes) \<Rightarrow> (bytes \<Rightarrow> u128 option) \<Rightarrow> ('k \<Rightarrow> 'e + bytes option)
     \<Rightarrow> ('k, 'v) mv_hashmap \<Rightarrow> txn_index \<Rightarrow> 'k
     \<Rightarrow> (txn_index + 'k read_descriptor \<times> ('e view_error + bytes option)) outcome" where
  "mv_answer extract to_bytes from_bytes base_view m txn_idx key =
     out_bind (read_round extract from_bytes m key txn_idx) (\<lambda>r.
       case r of
         Inl dep_idx \<Rightarrow> Ret (Inl dep_idx)
       | Inr (desc, res) \<Rightarrow>
           out_bind (mv_state_value extract to_bytes from_bytes base_view key res) (\<lambda>a. Ret (Inr (desc, a))))"

section \<open>Properties\<close>

text \<open>The bytes a sequential execution of the lower transactions leaves for a key.\<close>

fun slot_bytes ::
  "('v \<Rightarrow> bytes option) \<Rightarrow> (u128 \<Rightarrow> bytes) \<Rightarrow> 'e + bytes option \<Rightarrow> 'v slot \<Rightarrow> 'e view_error + bytes option" where
  "slot_bytes ex tb base SlotStorage = map_err BaseViewError base"
| "slot_bytes ex tb base (SlotWritten _ x) = Inr (ex x)"
| "slot_bytes ex tb base (SlotValue x) = Inr (Some (tb x))"
| "slot_bytes ex tb base SlotFailed = Inl DeltaFailed"

definition base_u128 :: "(bytes \<Rightarrow> u128 option) \<Rightarrow> 'e + bytes option \<Rightarrow> u128 option" where
  "base_u128 fb base = (case base of Inr (Some bs) \<Rightarrow> fb bs | _ \<Rightarrow> None)"

lemma answer_of_match:
  assumes "read_matches (base_u128 fb (base k)) r s" and "s \<noteq> SlotFailed"
  shows "\<exists>d x. capture k r = Inr (d, x) \<and> mv_state_value ex tb fb base k x = Ret (slot_bytes ex tb (base k) s)"
proof (cases "(k, r)" rule: capture.cases)
  case (4 key delta)
  with assms obtain b y where "base_u128 fb (base k) = Some b" and y: "apply_ok delta b = Some y" "s = SlotValue y"
    by (cases "base_u128 fb (base k)") (auto simp: slot_of_value_def split: option.splits)
  then obtain bs where "base k = Inr (Some bs)" "fb bs = Some b"
    by (auto simp: base_u128_def split: sum.splits option.splits)
  with 4 y show ?thesis by (simp add: mv_state_value_def deserialize_def serialize_def apply_ok_def)
qed (use assms in \<open>auto simp: mv_state_value_def serialize_def\<close>)

text \<open>
  The virtual machine sees a sequential state: when no lower entry of the key is an estimate, the entries are
  well-formed and the deltas apply, \<^verbatim>\<open>get_state_value\<close> on the multi-version view answers in the first round,
  with the bytes that the recorded writes and deltas of the lower transactions, run in block order on the
  base view, leave for the key.
\<close>

theorem view_value_is_sequential:
  assumes "mv_inv m" and "mv_data m k = Some v"
    and "\<And>j e. btm_get (versioned_map v) j = Some e \<Longrightarrow> j < i \<Longrightarrow> entry_ok ex fb lim e"
    and "s = slot_of ex fb (base_u128 fb (base k)) (filter (\<lambda>(j, _). j < i) (versioned_map v))" and "s \<noteq> SlotFailed"
  shows "\<exists>d. mv_answer ex tb fb base m i k = Ret (Inr (d, slot_bytes ex tb (base k) s))"
proof -
  let ?el = "filter (\<lambda>(j, _). j < i) (versioned_map v)"
  have wf: "btm_wf (versioned_map v)" using assms(1,2) by (rule mv_inv_wf)
  have below: "btm_below i (versioned_map v) = ?el"
    using btm_below_eq_filter [OF wf, of i] by (simp add: split_def)
  have "list_all (\<lambda>(j, e). entry_ok ex fb lim e) (rev ?el)"
    using assms(3) by (auto simp: list_all_iff btm.set_entries [OF wf])
  from read_loop_matches [OF this, of "[]" "base_u128 fb (base k)"] assms(2,4) below
  obtain r where r: "mv_read ex fb m k i = Ret r" "read_matches (base_u128 fb (base k)) r s"
    by (auto simp: mv_read_def)
  from answer_of_match [of fb base k r s ex tb] r assms(5) show ?thesis
    by (auto simp: mv_answer_def read_round_def)
qed

theorem view_value_is_sequential_witness:
  "\<exists>d. mv_answer extract_raw_bytes u128_to_bytes u128_from_bytes (\<lambda>_. Inr (Some (u128_to_bytes 4)) :: unit + bytes option)
      \<lparr>mv_data = [''k'' \<mapsto> \<lparr>versioned_map = [(2, new_delta_from FLAG_DONE (delta_add 3 10))], contains_delta = True\<rparr>],
        delta_keys = [''k'']\<rparr> 4 ''k'' = Ret (Inr (d, Inr (Some (u128_to_bytes 7))))"
proof -
  let ?v = "\<lparr>versioned_map = [(2, new_delta_from FLAG_DONE (delta_add 3 10))], contains_delta = True\<rparr> :: write_op versioned_value"
  let ?base = "\<lambda>_::string. Inr (Some (u128_to_bytes 4)) :: unit + bytes option"
  have "mv_inv \<lparr>mv_data = [''k'' \<mapsto> ?v], delta_keys = [''k'']\<rparr>"
    by (auto simp: mv_inv_def btm_wf_def split: if_splits)
  moreover have "entry_ok extract_raw_bytes u128_from_bytes 10 e" if "btm_get (versioned_map ?v) j = Some e" for j e
    using that by (auto simp: btm_get_def new_delta_from_def delta_valid_add split: if_splits)
  moreover have "slot_of extract_raw_bytes u128_from_bytes (base_u128 u128_from_bytes (?base ''k''))
      (filter (\<lambda>(j, _). j < 4) (versioned_map ?v)) = SlotValue 7"
    by (simp add: slot_of_def base_u128_def new_delta_from_def delta_add_def apply_ok_def apply_to_def addition_def
        subtraction_def delta_new_def slot_of_value_def)
  ultimately show ?thesis
    using view_value_is_sequential [of "\<lparr>mv_data = [''k'' \<mapsto> ?v], delta_keys = [''k'']\<rparr>" "''k''" ?v 4
        extract_raw_bytes u128_from_bytes 10 "SlotValue 7" ?base u128_to_bytes] by simp
qed

end
