(* ===== verification/DeltaResolver.thy ===== *)
theory DeltaResolver
  imports MVHashMap
begin

text \<open>
  Materialising the deltas of an executed block
  (\<^verbatim>\<open>language/block-executor/src/output_delta_resolver.rs\<close>): for every aggregator key the entries of
  the block are run in order from the storage value, and every delta becomes a write of its
  transaction.
\<close>

section \<open>The resolver\<close>

fun resolve_entries ::
  "('v \<Rightarrow> bytes option) \<Rightarrow> (u128 \<Rightarrow> bytes) \<Rightarrow> (bytes \<Rightarrow> u128 option) \<Rightarrow> 'k \<Rightarrow> (txn_index \<times> 'v mv_entry) list
     \<Rightarrow> u128 option \<Rightarrow> ('k \<times> write_op) list list \<Rightarrow> ('k \<times> write_op) list list outcome" where
  "resolve_entries extract to_bytes from_bytes key [] latest_value ret = Ret ret"
| "resolve_entries extract to_bytes from_bytes key ((idx, entry) # iter) latest_value ret =
     (case cell entry of
        CellWrite _ x \<Rightarrow>
          out_bind (from_write extract from_bytes x) (\<lambda>v.
            resolve_entries extract to_bytes from_bytes key iter v ret)
      | CellDelta delta \<Rightarrow>
          out_bind (expect latest_value) (\<lambda>base.
          out_bind (expect_ok (apply_to delta base)) (\<lambda>aggregator_value.
          out_bind (index ret idx) (\<lambda>writes.
            resolve_entries extract to_bytes from_bytes key iter (Some aggregator_value)
              (ret[idx := writes @ [(key, Modification (serialize to_bytes aggregator_value))]])))))"

text \<open>\<^verbatim>\<open>get_state_value(..).ok().and_then(|value| value.map(deserialize))\<close>\<close>

definition base_value ::
  "(bytes \<Rightarrow> u128 option) \<Rightarrow> ('k \<Rightarrow> 'e + bytes option) \<Rightarrow> 'k \<Rightarrow> u128 option outcome" where
  "base_value from_bytes base_view key =
     (case base_view key of
        Inr (Some bs) \<Rightarrow> out_bind (deserialize from_bytes bs) (\<lambda>v. Ret (Some v))
      | Inr None \<Rightarrow> Ret None
      | Inl _ \<Rightarrow> Ret None)"

fun resolve_keys ::
  "('v \<Rightarrow> bytes option) \<Rightarrow> (u128 \<Rightarrow> bytes) \<Rightarrow> (bytes \<Rightarrow> u128 option) \<Rightarrow> ('k \<Rightarrow> 'e + bytes option)
     \<Rightarrow> ('k, 'v) mv_hashmap \<Rightarrow> 'k list \<Rightarrow> ('k \<times> write_op) list list \<Rightarrow> ('k \<times> write_op) list list outcome" where
  "resolve_keys extract to_bytes from_bytes base_view m [] ret = Ret ret"
| "resolve_keys extract to_bytes from_bytes base_view m (key # keys) ret =
     out_bind (base_value from_bytes base_view key) (\<lambda>latest_value.
       case entry_map_for_key m key of (indexed_entries, m') \<Rightarrow>
         out_bind (expect indexed_entries) (\<lambda>entries.
         out_bind (resolve_entries extract to_bytes from_bytes key entries latest_value ret) (\<lambda>ret'.
           resolve_keys extract to_bytes from_bytes base_view m' keys ret')))"

definition resolve ::
  "('v \<Rightarrow> bytes option) \<Rightarrow> (u128 \<Rightarrow> bytes) \<Rightarrow> (bytes \<Rightarrow> u128 option) \<Rightarrow> ('k \<Rightarrow> 'e + bytes option)
     \<Rightarrow> ('k, 'v) mv_hashmap \<Rightarrow> nat \<Rightarrow> ('k \<times> write_op) list list outcome" where
  "resolve extract to_bytes from_bytes base_view m block_size =
     (case aggregator_keys m of (keys, m') \<Rightarrow>
        resolve_keys extract to_bytes from_bytes base_view m' keys (replicate block_size []))"

section \<open>Its specification\<close>

text \<open>The slots after each delta of a key, by index.\<close>

fun slot_values ::
  "('v \<Rightarrow> bytes option) \<Rightarrow> (bytes \<Rightarrow> u128 option) \<Rightarrow> u128 option \<Rightarrow> 'v slot \<Rightarrow> (txn_index \<times> 'v mv_entry) list
     \<Rightarrow> (txn_index \<times> 'v slot) list" where
  "slot_values ex fb base s [] = []"
| "slot_values ex fb base s (x # es) =
     (case cell (snd x) of CellWrite _ _ \<Rightarrow> [] | CellDelta _ \<Rightarrow> [(fst x, slot_step ex fb base x s)])
       @ slot_values ex fb base (slot_step ex fb base x s) es"

fun slot_value :: "'v slot \<Rightarrow> u128" where
  "slot_value (SlotValue x) = x"
| "slot_value _ = 0"

text \<open>The aggregator value a slot stands for.\<close>

fun slot_latest :: "('v \<Rightarrow> bytes option) \<Rightarrow> (bytes \<Rightarrow> u128 option) \<Rightarrow> u128 option \<Rightarrow> 'v slot \<Rightarrow> u128 option" where
  "slot_latest ex fb base SlotStorage = base"
| "slot_latest ex fb base (SlotWritten _ x) = Option.bind (ex x) fb"
| "slot_latest ex fb base (SlotValue x) = Some x"
| "slot_latest ex fb base SlotFailed = None"

definition push :: "txn_index \<times> 'a \<Rightarrow> 'a list list \<Rightarrow> 'a list list" where
  "push x ret = ret[fst x := ret ! fst x @ [snd x]]"

lemma push_simp: "push (i, a) ret = ret[i := ret ! i @ [a]]"
  by (simp add: push_def)

lemma length_fold_push [simp]: "length (fold push xs ret) = length ret"
  by (induction xs arbitrary: ret) (simp_all add: push_def)

lemma nth_fold_push:
  "j < length ret \<Longrightarrow> fold push xs ret ! j = ret ! j @ map snd (filter (\<lambda>x. fst x = j) xs)"
  by (induction xs arbitrary: ret) (auto simp: push_def nth_list_update)

definition delta_writes ::
  "(u128 \<Rightarrow> bytes) \<Rightarrow> 'k \<Rightarrow> (txn_index \<times> 'v slot) list \<Rightarrow> (txn_index \<times> 'k \<times> write_op) list" where
  "delta_writes tb key vs = map (\<lambda>(j, s). (j, key, Modification (tb (slot_value s)))) vs"

lemma delta_on_slot_value:
  assumes "delta_on_slot ex fb base d s = SlotValue x"
  shows "Option.bind (slot_latest ex fb base s) (apply_ok d) = Some x"
  using assms by (cases s) (auto simp: slot_of_value_def split: option.splits)

lemma resolve_entries_ok:
  assumes "list_all (\<lambda>(i, e). entry_ok ex fb lim e \<and> i < length ret) es"
    and "\<forall>(j, s')\<in>set (slot_values ex fb base s es). \<exists>x. s' = SlotValue x"
  shows "resolve_entries ex tb fb key es (slot_latest ex fb base s) ret =
    Ret (fold push (delta_writes tb key (slot_values ex fb base s es)) ret)"
  using assms
proof (induction es arbitrary: s ret)
  case Nil
  then show ?case by (simp add: delta_writes_def)
next
  case (Cons y es)
  obtain i e where y: "y = (i, e)" by force
  show ?case
  proof (cases "cell e")
    case (CellWrite inc x)
    have "from_write ex fb x = Ret (slot_latest ex fb base (SlotWritten (i, inc) x))"
      using Cons.prems(1) y CellWrite by (cases "ex x") (auto simp: from_write_def deserialize_def)
    with y CellWrite Cons.IH [of ret "SlotWritten (i, inc) x"] Cons.prems show ?thesis by simp
  next
    case (CellDelta d)
    with Cons.prems(2) y obtain x where x: "delta_on_slot ex fb base d s = SlotValue x" by auto
    then obtain b where b: "slot_latest ex fb base s = Some b" "apply_to d b = Inr x"
      using delta_on_slot_value [OF x] by (auto simp: apply_ok_def bind_eq_Some_conv)
    let ?ret = "push (i, key, Modification (tb x)) ret"
    have "resolve_entries ex tb fb key es (slot_latest ex fb base (SlotValue x)) ?ret =
        Ret (fold push (delta_writes tb key (slot_values ex fb base (SlotValue x) es)) ?ret)"
      using Cons.prems y CellDelta x by (intro Cons.IH) (auto simp: push_simp list_all_iff)
    with y CellDelta x b Cons.prems(1) show ?thesis
      by (simp add: delta_writes_def push_simp serialize_def)
  qed
qed

text \<open>What a key needs to be resolved.\<close>

definition resolvable ::
  "('v \<Rightarrow> bytes option) \<Rightarrow> (bytes \<Rightarrow> u128 option) \<Rightarrow> ('k \<Rightarrow> 'e + bytes option) \<Rightarrow> u128 \<Rightarrow> nat
     \<Rightarrow> ('k, 'v) mv_hashmap \<Rightarrow> u128 option \<Rightarrow> 'k \<Rightarrow> bool" where
  "resolvable ex fb bv lim n m base k \<longleftrightarrow>
     base_value fb bv k = Ret base \<and>
     (\<exists>v. mv_data m k = Some v \<and>
        list_all (\<lambda>(i, e). entry_ok ex fb lim e \<and> i < n) (versioned_map v) \<and>
        (\<forall>(j, s)\<in>set (slot_values ex fb base SlotStorage (versioned_map v)). \<exists>x. s = SlotValue x))"

definition key_writes ::
  "('v \<Rightarrow> bytes option) \<Rightarrow> (u128 \<Rightarrow> bytes) \<Rightarrow> (bytes \<Rightarrow> u128 option) \<Rightarrow> ('k, 'v) mv_hashmap \<Rightarrow> ('k \<Rightarrow> u128 option)
     \<Rightarrow> 'k \<Rightarrow> (txn_index \<times> 'k \<times> write_op) list" where
  "key_writes ex tb fb m base k =
     delta_writes tb k (slot_values ex fb (base k) SlotStorage (versioned_map (the (mv_data m k))))"

lemma resolve_keys_ok:
  assumes "distinct keys" and "\<And>k. k \<in> set keys \<Longrightarrow> resolvable ex fb bv (lim k) (length ret) m (base k) k"
  shows "resolve_keys ex tb fb bv m keys ret =
    Ret (fold push (concat (map (key_writes ex tb fb m base) keys)) ret)"
  using assms
proof (induction keys arbitrary: m ret)
  case Nil
  then show ?case by simp
next
  case (Cons k keys)
  from Cons.prems(2) [of k] obtain v where v: "base_value fb bv k = Ret (base k)" "mv_data m k = Some v"
    "list_all (\<lambda>(i, e). entry_ok ex fb (lim k) e \<and> i < length ret) (versioned_map v)"
    "\<forall>(j, s)\<in>set (slot_values ex fb (base k) SlotStorage (versioned_map v)). \<exists>x. s = SlotValue x"
    by (auto simp: resolvable_def)
  let ?m = "m\<lparr>mv_data := (mv_data m)(k := None)\<rparr>" and ?ret = "fold push (key_writes ex tb fb m base k) ret"
  have "resolve_entries ex tb fb k (versioned_map v) (base k) ret = Ret ?ret"
    using resolve_entries_ok [OF v(3,4)] v(2) by (simp add: key_writes_def)
  moreover have "resolvable ex fb bv (lim j) (length ?ret) ?m (base j) j" if "j \<in> set keys" for j
    using Cons.prems(1) Cons.prems(2) [of j] that by (auto simp: resolvable_def)
  then have "resolve_keys ex tb fb bv ?m keys ?ret =
      Ret (fold push (concat (map (key_writes ex tb fb ?m base) keys)) ?ret)"
    using Cons.prems(1) by (intro Cons.IH) auto
  moreover have "map (key_writes ex tb fb ?m base) keys = map (key_writes ex tb fb m base) keys"
    using Cons.prems(1) by (auto simp: key_writes_def)
  ultimately show ?case using v(1,2) by (simp add: entry_map_for_key_def)
qed

lemma split_Cons_iff:
  "(\<exists>ps e rest. y # es = ps @ (j, e) # rest \<and> P ps e) \<longleftrightarrow>
     fst y = j \<and> P [] (snd y) \<or> (\<exists>ps e rest. es = ps @ (j, e) # rest \<and> P (y # ps) e)"
  (is "?lhs \<longleftrightarrow> ?rhs")
proof
  assume ?lhs
  then obtain ps e rest where "y # es = ps @ (j, e) # rest" "P ps e" by blast
  then show ?rhs by (cases ps) auto
next
  assume ?rhs
  then show ?lhs
  proof
    assume "fst y = j \<and> P [] (snd y)"
    then show ?lhs by (intro exI [of _ "[]"] exI [of _ "snd y"] exI [of _ es]) (cases y, simp)
  next
    assume "\<exists>ps e rest. es = ps @ (j, e) # rest \<and> P (y # ps) e"
    then obtain ps e rest where "es = ps @ (j, e) # rest" "P (y # ps) e" by blast
    then show ?lhs by (intro exI [of _ "y # ps"] exI [of _ e] exI [of _ rest]) simp
  qed
qed

lemma slot_values_iff:
  "(j, s') \<in> set (slot_values ex fb base s es) \<longleftrightarrow>
     (\<exists>ps e rest. es = ps @ (j, e) # rest \<and>
        ((\<exists>d. cell e = CellDelta d) \<and> s' = fold (slot_step ex fb base) (ps @ [(j, e)]) s))"
proof (induction es arbitrary: s)
  case Nil
  then show ?case by simp
next
  case (Cons y es)
  obtain i e where y: "y = (i, e)" by force
  show ?case
    unfolding split_Cons_iff using Cons.IH [of "slot_step ex fb base y s"] y
    by (cases "cell e") auto
qed

lemma sorted_prefix:
  assumes "btm_wf (ps @ (j, e) # rest)"
  shows "filter (\<lambda>(i, _). i \<le> j) (ps @ (j, e) # rest) = ps @ [(j, e)]"
proof -
  have "filter (\<lambda>(i, _). i \<le> j) ps = ps" and "filter (\<lambda>(i, _). i \<le> j) rest = []"
    using assms by (auto simp: btm_wf_def sorted_wrt_append filter_id_conv filter_empty_conv)
  then show ?thesis by simp
qed

lemma slot_values_sorted:
  assumes "btm_wf es"
  shows "(j, s') \<in> set (slot_values ex fb base SlotStorage es) \<longleftrightarrow>
    (\<exists>e d. btm_get es j = Some e \<and> cell e = CellDelta d
       \<and> s' = slot_of ex fb base (filter (\<lambda>(i, _). i \<le> j) es))"
  (is "?lhs \<longleftrightarrow> ?rhs")
proof
  assume ?lhs
  then obtain ps e rest d where es: "es = ps @ (j, e) # rest" "cell e = CellDelta d"
    "s' = fold (slot_step ex fb base) (ps @ [(j, e)]) SlotStorage"
    by (auto simp: slot_values_iff)
  moreover have "btm_get es j = Some e"
    using es(1) btm.set_entries [OF assms] by auto
  moreover have "filter (\<lambda>(i, _). i \<le> j) es = ps @ [(j, e)]"
    using sorted_prefix assms unfolding es(1) .
  ultimately show ?rhs unfolding slot_of_def by metis
next
  assume ?rhs
  then obtain e d where e: "btm_get es j = Some e" "cell e = CellDelta d"
    "s' = slot_of ex fb base (filter (\<lambda>(i, _). i \<le> j) es)" by blast
  then have "(j, e) \<in> set es" using btm.set_entries [OF assms] by simp
  then obtain ps rest where es: "es = ps @ (j, e) # rest" by (auto simp: in_set_conv_decomp)
  have "filter (\<lambda>(i, _). i \<le> j) es = ps @ [(j, e)]"
    using sorted_prefix assms unfolding es .
  with es e(2,3) show ?lhs unfolding slot_values_iff slot_of_def by metis
qed

section \<open>Properties\<close>

text \<open>
  C21. \<^verbatim>\<open>OutputDeltaResolver::resolve\<close> gives every delta of the block its final value: when the deltas of
  the aggregator keys apply in block order from the storage values, it returns without a panic one
  list of writes per transaction, and the list of transaction \<open>j\<close> has for every key with a delta of
  \<open>j\<close>, and for no other key, a modification to the value that the writes and deltas of transactions
  up to and including \<open>j\<close> give the key.
\<close>

theorem resolve_is_sequential:
  assumes "mv_inv m"
    and "\<And>k. k \<in> set (delta_keys m) \<Longrightarrow> resolvable ex fb bv (lim k) n m (base k) k"
  shows "\<exists>ret. resolve ex tb fb bv m n = Ret ret \<and> length ret = n \<and>
    (\<forall>j<n. \<forall>k op. (k, op) \<in> set (ret ! j) \<longleftrightarrow>
      (\<exists>v e d x. mv_data m k = Some v \<and> btm_get (versioned_map v) j = Some e \<and> cell e = CellDelta d
         \<and> slot_of ex fb (base k) (filter (\<lambda>(i, _). i \<le> j) (versioned_map v)) = SlotValue x
         \<and> op = Modification (tb x)))"
proof -
  let ?w = "concat (map (key_writes ex tb fb m base) (delta_keys m))"
  let ?ret = "fold push ?w (replicate n [])"
  have m: "mv_data (m\<lparr>delta_keys := []\<rparr>) = mv_data m" by simp
  have "resolve_keys ex tb fb bv (m\<lparr>delta_keys := []\<rparr>) (delta_keys m) (replicate n []) =
      Ret (fold push (concat (map (key_writes ex tb fb (m\<lparr>delta_keys := []\<rparr>) base) (delta_keys m))) (replicate n []))"
    using assms by (intro resolve_keys_ok [where lim = lim]) (auto simp: mv_inv_def resolvable_def)
  then have ret: "resolve ex tb fb bv m n = Ret ?ret"
    by (simp add: resolve_def aggregator_keys_def key_writes_def [abs_def])
  have "(k, op) \<in> set (?ret ! j) \<longleftrightarrow>
      (\<exists>v e d x. mv_data m k = Some v \<and> btm_get (versioned_map v) j = Some e \<and> cell e = CellDelta d
         \<and> slot_of ex fb (base k) (filter (\<lambda>(i, _). i \<le> j) (versioned_map v)) = SlotValue x
         \<and> op = Modification (tb x))" (is "_ \<longleftrightarrow> ?rhs") if "j < n" for j k op
  proof -
    have "(k, op) \<in> set (?ret ! j) \<longleftrightarrow> k \<in> set (delta_keys m) \<and> (\<exists>s. op = Modification (tb (slot_value s))
        \<and> (j, s) \<in> set (slot_values ex fb (base k) SlotStorage (versioned_map (the (mv_data m k)))))"
      using that by (force simp: nth_fold_push key_writes_def delta_writes_def)
    also have "\<dots> \<longleftrightarrow> ?rhs"
    proof (cases "k \<in> set (delta_keys m)")
      case True
      then obtain v where v: "mv_data m k = Some v"
        and val: "\<forall>(j, s)\<in>set (slot_values ex fb (base k) SlotStorage (versioned_map v)). \<exists>x. s = SlotValue x"
        using assms(2) [OF True] unfolding resolvable_def by blast
      note sorted = slot_values_sorted [OF mv_inv_wf [OF assms(1) v], of j _ ex fb "base k"]
      show ?thesis
        using True v val sorted by (fastforce simp: split_def)
    next
      case False
      with assms(1) show ?thesis by (auto simp: mv_inv_def)
    qed
    finally show ?thesis .
  qed
  with ret show ?thesis by simp
qed

theorem resolve_is_sequential_witness:
  "\<exists>ret. resolve extract_raw_bytes u128_to_bytes u128_from_bytes (\<lambda>_. Inr (Some (u128_to_bytes 1)) :: unit + bytes option)
      (add_delta (add_delta mv_new ''k'' 0 (delta_add 3 10)) ''k'' 2 (delta_sub 2 10)) 3 = Ret ret \<and> length ret = 3 \<and>
    (\<forall>j<3. \<forall>k op. (k, op) \<in> set (ret ! j) \<longleftrightarrow>
      (\<exists>v e d x. mv_data (add_delta (add_delta mv_new ''k'' 0 (delta_add 3 10)) ''k'' 2 (delta_sub 2 10)) k = Some v
         \<and> btm_get (versioned_map v) j = Some e \<and> cell e = CellDelta d
         \<and> slot_of extract_raw_bytes u128_from_bytes (Some 1) (filter (\<lambda>(i, _). i \<le> j) (versioned_map v)) = SlotValue x
         \<and> op = Modification (u128_to_bytes x)))"
proof -
  let ?m = "add_delta (add_delta mv_new ''k'' 0 (delta_add 3 10)) ''k'' 2 (delta_sub 2 10)"
  have "mv_inv ?m" by (intro add_delta_inv mv_inv_new)
  moreover have "resolvable extract_raw_bytes u128_from_bytes (\<lambda>_. Inr (Some (u128_to_bytes 1)) :: unit + bytes option)
      10 3 ?m (Some 1) k" if "k \<in> set (delta_keys ?m)" for k
    using that delta_valid_add [of 10 3] delta_valid_sub [of 10 2]
    by (simp add: resolvable_def base_value_def deserialize_def add_delta_def mv_new_def Let_def
        new_delta_from_def slot_of_value_def apply_ok_def apply_to_def delta_add_def delta_sub_def delta_new_def
        addition_def subtraction_def)
  ultimately show ?thesis by (rule resolve_is_sequential)
qed

end
