(* ===== verification/Scheduler.thy ===== *)
theory Scheduler
  imports Prelude
begin

text \<open>
  The scheduler of the parallel block executor (\<^verbatim>\<open>language/block-executor/src/scheduler.rs\<close>). The
  shared state is a record; a method is a function on it that also returns the method's result. The
  locks a method holds make it one atomic step. Indices and incarnations (\<^verbatim>\<open>usize\<close>) are natural
  numbers; the validation index keeps its packed 64-bit form and waves are 32-bit words. The build
  checks arithmetic for overflow, so incrementing the last wave panics. The \<^verbatim>\<open>try_read\<close> locks of \<^verbatim>\<open>try_commit\<close> may fail, so whether they were acquired is
  an argument. A \<^verbatim>\<open>debug_assert\<close> is no branch of the model; that it holds is part of the invariant.
\<close>

unbundle bit_operations_syntax

section \<open>State\<close>

type_synonym wave = u32

text \<open>
  A dependency condition variable is the address of a flag with its waiting thread; the flags are in
  a separate store, so that an allocation extends the store.
\<close>

type_synonym condvar = nat

datatype scheduler_task =
    ExecutionTask "nat \<times> nat" "condvar option"
  | ValidationTask "nat \<times> nat" wave
  | NoTask
  | Done

datatype execution_status =
    ReadyToExecute nat "condvar option"
  | Executing nat
  | Suspended nat condvar
  | Executed nat
  | Committed nat
  | Aborting nat

record validation_status =
  max_triggered_wave :: wave
  required_wave :: wave
  maybe_max_validated_wave :: "wave option"

definition validation_status_new :: validation_status where
  "validation_status_new =
     \<lparr>max_triggered_wave = 0, required_wave = 0, maybe_max_validated_wave = None\<rparr>"

record scheduler =
  num_txns :: nat
  execution_idx :: nat
  validation_idx :: u64
  commit_state :: "nat \<times> wave"
  done_marker :: bool
  txn_dependency :: "nat list list"
  txn_status :: "(execution_status \<times> validation_status) list"

definition scheduler_new :: "nat \<Rightarrow> scheduler" where
  "scheduler_new n =
     \<lparr>num_txns = n, execution_idx = 0, validation_idx = 0, commit_state = (0, 0), done_marker = False,
      txn_dependency = replicate n [],
      txn_status = replicate n (ReadyToExecute 0 None, validation_status_new)\<rparr>"

text \<open>Writing one of the two statuses of a transaction.\<close>

definition set_exec :: "scheduler \<Rightarrow> nat \<Rightarrow> execution_status \<Rightarrow> scheduler" where
  "set_exec s i e = s\<lparr>txn_status := (txn_status s)[i := (e, snd (txn_status s ! i))]\<rparr>"

definition set_val :: "scheduler \<Rightarrow> nat \<Rightarrow> validation_status \<Rightarrow> scheduler" where
  "set_val s i v = s\<lparr>txn_status := (txn_status s)[i := (fst (txn_status s ! i), v)]\<rparr>"

section \<open>Private methods\<close>

definition TXN_IDX_MASK :: u64 where
  "TXN_IDX_MASK = push_bit 32 1 - 1"

definition unpack_validation_idx :: "u64 \<Rightarrow> nat \<times> wave" where
  "unpack_validation_idx v = (unat (v AND TXN_IDX_MASK), ucast (drop_bit 32 v))"

definition decrease_validation_idx :: "scheduler \<Rightarrow> nat \<Rightarrow> (wave option \<times> scheduler) outcome" where
  "decrease_validation_idx s target_idx =
     (case unpack_validation_idx (validation_idx s) of (txn_idx, wave) \<Rightarrow>
        if txn_idx > target_idx
        then out_bind (word_add wave 1) (\<lambda>next_wave. Ret (Some next_wave,
               s\<lparr>validation_idx := word_of_nat target_idx OR push_bit 32 (ucast wave + 1)\<rparr>))
        else Ret (None, s))"

definition try_incarnate :: "scheduler \<Rightarrow> nat \<Rightarrow> (nat \<times> condvar option) option \<times> scheduler" where
  "try_incarnate s txn_idx =
     (if txn_idx \<ge> length (txn_status s) then (None, s)
      else case fst (txn_status s ! txn_idx) of
        ReadyToExecute incarnation maybe_condvar \<Rightarrow>
          (Some (incarnation, maybe_condvar), set_exec s txn_idx (Executing incarnation))
      | _ \<Rightarrow> (None, s))"

definition is_executed :: "scheduler \<Rightarrow> nat \<Rightarrow> bool \<Rightarrow> nat option" where
  "is_executed s txn_idx include_committed =
     (if txn_idx \<ge> length (txn_status s) then None
      else case fst (txn_status s ! txn_idx) of
        Executed incarnation \<Rightarrow> Some incarnation
      | Committed incarnation \<Rightarrow> if include_committed then Some incarnation else None
      | _ \<Rightarrow> None)"

definition try_validate_next_version :: "scheduler \<Rightarrow> ((nat \<times> nat) \<times> wave) option \<times> scheduler" where
  "try_validate_next_version s =
     (case unpack_validation_idx (validation_idx s) of (idx_to_validate, wave) \<Rightarrow>
        let s' = s\<lparr>validation_idx := validation_idx s + 1\<rparr> in
        if idx_to_validate \<ge> num_txns s' then (None, s')
        else (map_option (\<lambda>incarnation. ((idx_to_validate, incarnation), wave))
                (is_executed s' idx_to_validate False), s'))"

definition try_execute_next_version :: "scheduler \<Rightarrow> ((nat \<times> nat) \<times> condvar option) option \<times> scheduler" where
  "try_execute_next_version s =
     (let idx_to_execute = execution_idx s;
          s' = s\<lparr>execution_idx := idx_to_execute + 1\<rparr> in
      if idx_to_execute \<ge> num_txns s' then (None, s')
      else case try_incarnate s' idx_to_execute of (r, s'') \<Rightarrow>
        (map_option (\<lambda>(incarnation, maybe_condvar). ((idx_to_execute, incarnation), maybe_condvar)) r, s''))"

definition suspend :: "scheduler \<Rightarrow> nat \<Rightarrow> condvar \<Rightarrow> scheduler outcome" where
  "suspend s txn_idx dep_condvar =
     out_bind (index (txn_status s) txn_idx) (\<lambda>st.
       case fst st of
         Executing incarnation \<Rightarrow> Ret (set_exec s txn_idx (Suspended incarnation dep_condvar))
       | _ \<Rightarrow> Panic)"

definition resume :: "scheduler \<Rightarrow> nat \<Rightarrow> scheduler outcome" where
  "resume s txn_idx =
     out_bind (index (txn_status s) txn_idx) (\<lambda>st.
       case fst st of
         Suspended incarnation dep_condvar \<Rightarrow>
           Ret (set_exec s txn_idx (ReadyToExecute incarnation (Some dep_condvar)))
       | _ \<Rightarrow> Panic)"

definition set_executed_status :: "scheduler \<Rightarrow> nat \<Rightarrow> nat \<Rightarrow> scheduler outcome" where
  "set_executed_status s txn_idx incarnation =
     out_bind (index (txn_status s) txn_idx) (\<lambda>_. Ret (set_exec s txn_idx (Executed incarnation)))"

definition set_aborted_status :: "scheduler \<Rightarrow> nat \<Rightarrow> nat \<Rightarrow> scheduler outcome" where
  "set_aborted_status s txn_idx incarnation =
     out_bind (index (txn_status s) txn_idx) (\<lambda>_.
       Ret (set_exec s txn_idx (ReadyToExecute (incarnation + 1) None)))"

section \<open>Public methods\<close>

definition try_commit :: "bool \<Rightarrow> bool \<Rightarrow> scheduler \<Rightarrow> (nat option \<times> scheduler) outcome" where
  "try_commit read_acquired upgradable_acquired s =
     (case commit_state s of (commit_idx, commit_wave) \<Rightarrow>
        if commit_idx = num_txns s then Ret (None, s\<lparr>done_marker := True\<rparr>)
        else
          out_bind (index (txn_status s) commit_idx) (\<lambda>(status, validation_status).
            if \<not> read_acquired \<or> \<not> upgradable_acquired then Ret (None, s)
            else case status of
              Executed incarnation \<Rightarrow>
                (let commit_wave = max commit_wave (max_triggered_wave validation_status);
                     s = s\<lparr>commit_state := (commit_idx, commit_wave)\<rparr> in
                 case maybe_max_validated_wave validation_status of
                   Some validated_wave \<Rightarrow>
                     if validated_wave \<ge> max commit_wave (required_wave validation_status)
                     then Ret (Some commit_idx,
                       (set_exec s commit_idx (Committed incarnation))
                         \<lparr>commit_state := (commit_idx + 1, commit_wave)\<rparr>)
                     else Ret (None, s)
                 | None \<Rightarrow> Ret (None, s))
            | _ \<Rightarrow> Ret (None, s)))"

definition try_abort :: "scheduler \<Rightarrow> nat \<Rightarrow> nat \<Rightarrow> (bool \<times> scheduler) outcome" where
  "try_abort s txn_idx incarnation =
     out_bind (index (txn_status s) txn_idx) (\<lambda>st.
       if fst st = Executed incarnation then Ret (True, set_exec s txn_idx (Aborting incarnation))
       else Ret (False, s))"

text \<open>
  The loop of \<^verbatim>\<open>next_task\<close> has no bound in the code; \<open>None\<close> stands for a loop that does not end.
\<close>

partial_function (option) next_task :: "bool \<Rightarrow> scheduler \<Rightarrow> (scheduler_task \<times> scheduler) option" where
  "next_task committing s =
     (if done_marker s then Some (Done, s)
      else case unpack_validation_idx (validation_idx s) of (idx_to_validate, _) \<Rightarrow>
        let idx_to_execute = execution_idx s in
        if idx_to_execute \<ge> num_txns s \<and> idx_to_validate \<ge> num_txns s
        then Some (if done_marker s then Done else NoTask, s)
        else if idx_to_validate < idx_to_execute
        then case try_validate_next_version s of
            (Some (version, wave), s') \<Rightarrow> Some (ValidationTask version wave, s')
          | (None, s') \<Rightarrow> next_task committing s'
        else case try_execute_next_version s of
            (Some (version, maybe_condvar), s') \<Rightarrow> Some (ExecutionTask version maybe_condvar, s')
          | (None, s') \<Rightarrow> next_task committing s')"

definition wait_for_dependency ::
  "scheduler \<Rightarrow> bool list \<Rightarrow> nat \<Rightarrow> nat \<Rightarrow> (condvar option \<times> bool list \<times> scheduler) outcome" where
  "wait_for_dependency s condvars txn_idx dep_txn_idx =
     (let dep_condvar = length condvars; condvars' = condvars @ [False] in
      out_bind (index (txn_dependency s) dep_txn_idx) (\<lambda>stored_deps.
        if is_executed s dep_txn_idx True \<noteq> None then Ret (None, condvars', s)
        else out_bind (suspend s txn_idx dep_condvar) (\<lambda>s'.
          Ret (Some dep_condvar, condvars',
               s'\<lparr>txn_dependency := (txn_dependency s')[dep_txn_idx := stored_deps @ [txn_idx]]\<rparr>))))"

definition finish_validation :: "scheduler \<Rightarrow> nat \<Rightarrow> wave \<Rightarrow> scheduler outcome" where
  "finish_validation s txn_idx wave =
     out_bind (index (txn_status s) txn_idx) (\<lambda>(_, validation_status).
       Ret (set_val s txn_idx (validation_status\<lparr>maybe_max_validated_wave :=
         Some (case maybe_max_validated_wave validation_status of
                 None \<Rightarrow> wave | Some prev_wave \<Rightarrow> max prev_wave wave)\<rparr>)))"

fun resume_all :: "scheduler \<Rightarrow> nat list \<Rightarrow> scheduler outcome" where
  "resume_all s [] = Ret s"
| "resume_all s (dep # deps) = out_bind (resume s dep) (\<lambda>s'. resume_all s' deps)"

definition set_max_triggered_wave :: "scheduler \<Rightarrow> nat \<Rightarrow> wave \<Rightarrow> scheduler" where
  "set_max_triggered_wave s i w = set_val s i ((snd (txn_status s ! i))\<lparr>max_triggered_wave := w\<rparr>)"

definition set_required_wave :: "scheduler \<Rightarrow> nat \<Rightarrow> wave \<Rightarrow> scheduler" where
  "set_required_wave s i w = set_val s i ((snd (txn_status s ! i))\<lparr>required_wave := w\<rparr>)"

definition finish_execution ::
  "scheduler \<Rightarrow> nat \<Rightarrow> nat \<Rightarrow> bool \<Rightarrow> (scheduler_task \<times> scheduler) outcome" where
  "finish_execution s txn_idx incarnation revalidate_suffix =
     out_bind (set_executed_status s txn_idx incarnation) (\<lambda>s.
     out_bind (index (txn_dependency s) txn_idx) (\<lambda>txn_deps.
     out_bind (resume_all (s\<lparr>txn_dependency := (txn_dependency s)[txn_idx := []]\<rparr>) txn_deps) (\<lambda>s.
       let s = (case txn_deps of [] \<Rightarrow> s
                | dep # deps \<Rightarrow> s\<lparr>execution_idx := min (execution_idx s) (fold min deps dep)\<rparr>) in
       case unpack_validation_idx (validation_idx s) of (cur_val_idx, cur_wave) \<Rightarrow>
         if cur_val_idx > txn_idx
         then if revalidate_suffix
              then out_bind (decrease_validation_idx s txn_idx) (\<lambda>r. case r of
                  (Some wave, s) \<Rightarrow> Ret (NoTask, set_max_triggered_wave s txn_idx wave)
                | (None, s) \<Rightarrow> Ret (NoTask, s))
              else Ret (ValidationTask (txn_idx, incarnation) cur_wave, set_required_wave s txn_idx cur_wave)
         else Ret (NoTask, s))))"

definition finish_abort :: "scheduler \<Rightarrow> nat \<Rightarrow> nat \<Rightarrow> (scheduler_task \<times> scheduler) outcome" where
  "finish_abort s txn_idx incarnation =
     out_bind (set_aborted_status s txn_idx incarnation) (\<lambda>s.
     out_bind (decrease_validation_idx s txn_idx) (\<lambda>r.
       let s = (case r of
                  (Some wave, s) \<Rightarrow> set_max_triggered_wave s txn_idx wave
                | (None, s) \<Rightarrow> s) in
       if execution_idx s > txn_idx
       then case try_incarnate s txn_idx of
           (Some (new_incarnation, maybe_condvar), s) \<Rightarrow>
             Ret (ExecutionTask (txn_idx, new_incarnation) maybe_condvar, s)
         | (None, s) \<Rightarrow> Ret (NoTask, s)
       else Ret (NoTask, s)))"

section \<open>Views of the state\<close>

text \<open>The lemmas speak about the state through these views; a method is described by what it does to them.\<close>

definition es :: "scheduler \<Rightarrow> nat \<Rightarrow> execution_status" where
  "es s i = fst (txn_status s ! i)"

definition mt :: "scheduler \<Rightarrow> nat \<Rightarrow> wave" where
  "mt s i = max_triggered_wave (snd (txn_status s ! i))"

definition rq :: "scheduler \<Rightarrow> nat \<Rightarrow> wave" where
  "rq s i = required_wave (snd (txn_status s ! i))"

definition mvw :: "scheduler \<Rightarrow> nat \<Rightarrow> wave option" where
  "mvw s i = maybe_max_validated_wave (snd (txn_status s ! i))"

definition deps :: "scheduler \<Rightarrow> nat \<Rightarrow> nat list" where
  "deps s i = txn_dependency s ! i"

definition val_idx :: "scheduler \<Rightarrow> nat" where
  "val_idx s = fst (unpack_validation_idx (validation_idx s))"

definition cur_wave :: "scheduler \<Rightarrow> wave" where
  "cur_wave s = snd (unpack_validation_idx (validation_idx s))"

definition well_sized :: "scheduler \<Rightarrow> bool" where
  "well_sized s \<longleftrightarrow> length (txn_status s) = num_txns s \<and> length (txn_dependency s) = num_txns s
     \<and> num_txns s < 2 ^ 32"

lemma unpack_eq: "unpack_validation_idx (validation_idx s) = (val_idx s, cur_wave s)"
  by (simp add: val_idx_def cur_wave_def)

lemma TXN_IDX_MASK_eq: "TXN_IDX_MASK = mask 32"
  by (simp add: TXN_IDX_MASK_def mask_eq_exp_minus_1)

lemma unpack_nat:
  "fst (unpack_validation_idx v) = unat v mod 2 ^ 32"
  "unat (snd (unpack_validation_idx v)) = unat v div 2 ^ 32"
proof -
  have "fst (unpack_validation_idx v) = unat (take_bit 32 v)"
    by (simp add: unpack_validation_idx_def TXN_IDX_MASK_eq take_bit_eq_mask)
  also have "\<dots> = take_bit 32 (unat v)" by (rule unsigned_take_bit_eq)
  finally show "fst (unpack_validation_idx v) = unat v mod 2 ^ 32" by (simp add: take_bit_eq_mod)
  have "unat v div 2 ^ 32 < 2 ^ 32"
    using unsigned_less [of v, where 'a = nat] by (simp add: less_mult_imp_div_less)
  moreover have "unat (drop_bit 32 v) = unat v div 2 ^ 32"
    using unsigned_less [of v, where 'a = nat]
    unfolding unsigned_drop_bit_eq by (simp add: take_bit_eq_mod drop_bit_eq_div)
  ultimately show "unat (snd (unpack_validation_idx v)) = unat v div 2 ^ 32"
    unfolding unpack_validation_idx_def snd_conv unsigned_ucast_eq by (simp add: take_bit_eq_mod)
qed

lemma val_idx_nat: "val_idx s = unat (validation_idx s) mod 2 ^ 32"
  and cur_wave_nat: "unat (cur_wave s) = unat (validation_idx s) div 2 ^ 32"
  by (simp_all add: val_idx_def cur_wave_def unpack_nat)

text \<open>Packing an index below \<open>2 ^ 32\<close> with a wave is undone by unpacking.\<close>

lemma unpack_pack:
  fixes w :: wave
  assumes "i < 2 ^ 32" and "unat w + 1 < 2 ^ 32"
  shows "unpack_validation_idx (word_of_nat i OR push_bit 32 (ucast w + 1)) = (i, w + 1)"
proof -
  let ?h = "ucast w + 1 :: u64"
  have h: "unat ?h = unat w + 1"
  proof -
    have "unat (ucast w :: u64) = unat w"
      using unsigned_less [of w, where 'a = nat] by (simp add: unsigned_ucast_eq take_bit_eq_mod)
    moreover have "unat w + 1 < 2 ^ 64" using assms(2) by simp
    ultimately show ?thesis by (simp add: unat_word_ariths(1))
  qed
  have w1: "unat (w + 1) = unat w + 1" using assms(2) by (simp add: unat_word_ariths(1))
  have i: "unat (word_of_nat i :: u64) = i" using assms(1) by (intro of_nat_inverse [OF refl]) simp
  have "word_of_nat i OR push_bit 32 ?h = word_of_nat i + push_bit 32 ?h"
  proof (rule disjunctive_add [symmetric])
    fix n
    show "\<not> bit (word_of_nat i :: u64) n \<or> \<not> bit (push_bit 32 ?h) n"
    proof (cases "n < 32")
      case True
      then show ?thesis by (simp add: bit_push_bit_iff)
    next
      case False
      then have "i < 2 ^ n" using assms(1) by (meson less_le_trans not_less one_le_numeral power_increasing)
      then have "\<not> bit i n" by (simp add: bit_nat_def)
      then show ?thesis using bit_unsigned_iff [of "word_of_nat i :: u64" n, where 'a = nat] i by simp
    qed
  qed
  moreover have "unat (push_bit 32 ?h) = (unat w + 1) * 2 ^ 32"
    using assms(2) unfolding unsigned_push_bit_eq h by (simp add: take_bit_eq_mod push_bit_eq_mult)
  ultimately have v: "unat (word_of_nat i OR push_bit 32 ?h) = i + (unat w + 1) * 2 ^ 32"
    using assms i by (simp add: unat_word_ariths(1))
  have "fst (unpack_validation_idx (word_of_nat i OR push_bit 32 ?h)) = i"
    using assms(1) by (simp only: unpack_nat(1) v mod_mult_self1 mod_less)
  moreover have "unat (snd (unpack_validation_idx (word_of_nat i OR push_bit 32 ?h))) = unat (w + 1)"
    using assms(1) by (simp add: unpack_nat(2) v w1 del: mult_Suc)
  ultimately show ?thesis by (metis prod.collapse word_unat_eq_iff)
qed

lemma val_idx_incr:
  assumes "val_idx s + 1 < 2 ^ 32"
  shows "val_idx (s\<lparr>validation_idx := validation_idx s + 1\<rparr>) = val_idx s + 1"
    and "cur_wave (s\<lparr>validation_idx := validation_idx s + 1\<rparr>) = cur_wave s"
proof -
  let ?v = "unat (validation_idx s)"
  have lt: "?v < 2 ^ 64" using unsigned_less [of "validation_idx s", where 'a = nat] by simp
  have "?v mod 2 ^ 32 + 1 < 2 ^ 32" using assms by (simp add: val_idx_nat)
  then have m: "(?v + 1) mod 2 ^ 32 = ?v mod 2 ^ 32 + 1" and d: "(?v + 1) div 2 ^ 32 = ?v div 2 ^ 32"
    by (simp_all add: mod_Suc div_Suc)
  have "?v + 1 < 2 ^ 64"
  proof (rule ccontr)
    assume "\<not> ?thesis"
    with lt have "?v = 2 ^ 64 - 1" by linarith
    with \<open>?v mod 2 ^ 32 + 1 < 2 ^ 32\<close> show False by simp
  qed
  then have "unat (validation_idx s + 1) = ?v + 1" by (simp add: unat_word_ariths(1))
  with m d show "val_idx (s\<lparr>validation_idx := validation_idx s + 1\<rparr>) = val_idx s + 1"
    and "cur_wave (s\<lparr>validation_idx := validation_idx s + 1\<rparr>) = cur_wave s"
    by (simp_all add: val_idx_nat cur_wave_nat word_unat_eq_iff)
qed

section \<open>What the methods do to the views\<close>

named_theorems sched_views \<open>views of an updated state\<close>

lemma set_exec_views [sched_views]:
  "i < length (txn_status s) \<Longrightarrow> es (set_exec s i e) = (es s)(i := e)"
  "mt (set_exec s i e) = mt s" "rq (set_exec s i e) = rq s" "mvw (set_exec s i e) = mvw s"
  "deps (set_exec s i e) = deps s" "val_idx (set_exec s i e) = val_idx s"
  "cur_wave (set_exec s i e) = cur_wave s" "num_txns (set_exec s i e) = num_txns s"
  "execution_idx (set_exec s i e) = execution_idx s" "commit_state (set_exec s i e) = commit_state s"
  "done_marker (set_exec s i e) = done_marker s" "well_sized (set_exec s i e) = well_sized s"
  "length (txn_status (set_exec s i e)) = length (txn_status s)"
  "txn_dependency (set_exec s i e) = txn_dependency s"
  "validation_idx (set_exec s i e) = validation_idx s"
  by (auto simp: set_exec_def es_def mt_def rq_def mvw_def deps_def val_idx_def cur_wave_def well_sized_def
      fun_eq_iff nth_list_update)
    (cases "i < length (txn_status s)"; auto simp: nth_list_update list_update_beyond)+

lemma set_val_views [sched_views]:
  "i < length (txn_status s) \<Longrightarrow> mt (set_val s i v) = (mt s)(i := max_triggered_wave v)"
  "i < length (txn_status s) \<Longrightarrow> rq (set_val s i v) = (rq s)(i := required_wave v)"
  "i < length (txn_status s) \<Longrightarrow> mvw (set_val s i v) = (mvw s)(i := maybe_max_validated_wave v)"
  "es (set_val s i v) = es s"
  "deps (set_val s i v) = deps s" "val_idx (set_val s i v) = val_idx s"
  "cur_wave (set_val s i v) = cur_wave s" "num_txns (set_val s i v) = num_txns s"
  "execution_idx (set_val s i v) = execution_idx s" "commit_state (set_val s i v) = commit_state s"
  "done_marker (set_val s i v) = done_marker s" "well_sized (set_val s i v) = well_sized s"
  "length (txn_status (set_val s i v)) = length (txn_status s)"
  "txn_dependency (set_val s i v) = txn_dependency s"
  "validation_idx (set_val s i v) = validation_idx s"
  by (auto simp: set_val_def es_def mt_def rq_def mvw_def deps_def val_idx_def cur_wave_def well_sized_def
      fun_eq_iff nth_list_update)
    (cases "i < length (txn_status s)"; auto simp: nth_list_update list_update_beyond)+

lemma set_wave_views [sched_views]:
  "i < length (txn_status s) \<Longrightarrow> mt (set_max_triggered_wave s i w) = (mt s)(i := w)"
  "i < length (txn_status s) \<Longrightarrow> rq (set_max_triggered_wave s i w) = rq s"
  "i < length (txn_status s) \<Longrightarrow> mvw (set_max_triggered_wave s i w) = mvw s"
  "i < length (txn_status s) \<Longrightarrow> mt (set_required_wave s i w) = mt s"
  "i < length (txn_status s) \<Longrightarrow> rq (set_required_wave s i w) = (rq s)(i := w)"
  "i < length (txn_status s) \<Longrightarrow> mvw (set_required_wave s i w) = mvw s"
  by (auto simp: set_max_triggered_wave_def set_required_wave_def sched_views)
    (auto simp: mt_def rq_def mvw_def fun_eq_iff)

lemmas set_wave_defs = set_max_triggered_wave_def set_required_wave_def

lemma set_wave_views' [sched_views]:
  "es (set_max_triggered_wave s i w) = es s" "es (set_required_wave s i w) = es s"
  "deps (set_max_triggered_wave s i w) = deps s" "deps (set_required_wave s i w) = deps s"
  "val_idx (set_max_triggered_wave s i w) = val_idx s" "val_idx (set_required_wave s i w) = val_idx s"
  "cur_wave (set_max_triggered_wave s i w) = cur_wave s" "cur_wave (set_required_wave s i w) = cur_wave s"
  "num_txns (set_max_triggered_wave s i w) = num_txns s" "num_txns (set_required_wave s i w) = num_txns s"
  "execution_idx (set_max_triggered_wave s i w) = execution_idx s"
  "execution_idx (set_required_wave s i w) = execution_idx s"
  "commit_state (set_max_triggered_wave s i w) = commit_state s"
  "commit_state (set_required_wave s i w) = commit_state s"
  "done_marker (set_max_triggered_wave s i w) = done_marker s"
  "done_marker (set_required_wave s i w) = done_marker s"
  "well_sized (set_max_triggered_wave s i w) = well_sized s"
  "well_sized (set_required_wave s i w) = well_sized s"
  "length (txn_status (set_max_triggered_wave s i w)) = length (txn_status s)"
  "length (txn_status (set_required_wave s i w)) = length (txn_status s)"
  by (simp_all add: set_wave_defs sched_views)

text \<open>Updates of the other fields.\<close>

lemma field_views [sched_views]:
  "es (s\<lparr>execution_idx := k\<rparr>) = es s" "mt (s\<lparr>execution_idx := k\<rparr>) = mt s" "rq (s\<lparr>execution_idx := k\<rparr>) = rq s"
  "mvw (s\<lparr>execution_idx := k\<rparr>) = mvw s" "deps (s\<lparr>execution_idx := k\<rparr>) = deps s"
  "val_idx (s\<lparr>execution_idx := k\<rparr>) = val_idx s" "cur_wave (s\<lparr>execution_idx := k\<rparr>) = cur_wave s"
  "well_sized (s\<lparr>execution_idx := k\<rparr>) = well_sized s"
  "es (s\<lparr>validation_idx := v\<rparr>) = es s" "mt (s\<lparr>validation_idx := v\<rparr>) = mt s" "rq (s\<lparr>validation_idx := v\<rparr>) = rq s"
  "mvw (s\<lparr>validation_idx := v\<rparr>) = mvw s" "deps (s\<lparr>validation_idx := v\<rparr>) = deps s"
  "well_sized (s\<lparr>validation_idx := v\<rparr>) = well_sized s"
  "es (s\<lparr>commit_state := c\<rparr>) = es s" "mt (s\<lparr>commit_state := c\<rparr>) = mt s" "rq (s\<lparr>commit_state := c\<rparr>) = rq s"
  "mvw (s\<lparr>commit_state := c\<rparr>) = mvw s" "deps (s\<lparr>commit_state := c\<rparr>) = deps s"
  "val_idx (s\<lparr>commit_state := c\<rparr>) = val_idx s" "cur_wave (s\<lparr>commit_state := c\<rparr>) = cur_wave s"
  "well_sized (s\<lparr>commit_state := c\<rparr>) = well_sized s"
  "es (s\<lparr>done_marker := b\<rparr>) = es s" "mt (s\<lparr>done_marker := b\<rparr>) = mt s" "rq (s\<lparr>done_marker := b\<rparr>) = rq s"
  "mvw (s\<lparr>done_marker := b\<rparr>) = mvw s" "deps (s\<lparr>done_marker := b\<rparr>) = deps s"
  "val_idx (s\<lparr>done_marker := b\<rparr>) = val_idx s" "cur_wave (s\<lparr>done_marker := b\<rparr>) = cur_wave s"
  "well_sized (s\<lparr>done_marker := b\<rparr>) = well_sized s"
  "es (s\<lparr>txn_dependency := d\<rparr>) = es s" "mt (s\<lparr>txn_dependency := d\<rparr>) = mt s" "rq (s\<lparr>txn_dependency := d\<rparr>) = rq s"
  "mvw (s\<lparr>txn_dependency := d\<rparr>) = mvw s" "val_idx (s\<lparr>txn_dependency := d\<rparr>) = val_idx s"
  "cur_wave (s\<lparr>txn_dependency := d\<rparr>) = cur_wave s" "deps (s\<lparr>txn_dependency := d\<rparr>) = (!) d"
  "well_sized (s\<lparr>txn_dependency := d\<rparr>) \<longleftrightarrow>
     length (txn_status s) = num_txns s \<and> length d = num_txns s \<and> num_txns s < 2 ^ 32"
  by (auto simp: es_def mt_def rq_def mvw_def deps_def val_idx_def cur_wave_def well_sized_def fun_eq_iff)

lemma index_txn_status: "well_sized s \<Longrightarrow> i < num_txns s \<Longrightarrow> index (txn_status s) i = Ret (txn_status s ! i)"
  and index_txn_dependency: "well_sized s \<Longrightarrow> i < num_txns s \<Longrightarrow> index (txn_dependency s) i = Ret (deps s i)"
  by (simp_all add: well_sized_def deps_def)

lemma in_range: "well_sized s \<Longrightarrow> i < num_txns s \<Longrightarrow> i < length (txn_status s)"
  by (simp add: well_sized_def)

lemma decrease_validation_idx_eq:
  assumes "target < 2 ^ 32" and "cur_wave s \<noteq> - 1"
  shows "\<exists>v. decrease_validation_idx s target =
      Ret (if val_idx s > target then (Some (cur_wave s + 1), s\<lparr>validation_idx := v\<rparr>) else (None, s))
    \<and> (val_idx s > target \<longrightarrow> val_idx (s\<lparr>validation_idx := v\<rparr>) = target
        \<and> cur_wave (s\<lparr>validation_idx := v\<rparr>) = cur_wave s + 1)"
proof -
  let ?v = "word_of_nat target OR push_bit 32 (ucast (cur_wave s) + 1) :: u64"
  have "unat (cur_wave s) \<noteq> 2 ^ 32 - 1"
    using assms(2) word_unat_eq_iff [of "cur_wave s" "- 1"] by (simp add: unsigned_minus_1_eq_mask mask_eq_exp_minus_1)
  then have "unat (cur_wave s) + 1 < 2 ^ 32"
    using unsigned_less [of "cur_wave s", where 'a = nat] by simp
  from unpack_pack [OF assms(1) this] this show ?thesis
    by (intro exI [of _ ?v])
      (auto simp: decrease_validation_idx_def val_idx_def cur_wave_def split_def word_add_def)
qed

text \<open>
  One call of \<^verbatim>\<open>next_task\<close>: indices are skipped while their transaction has nothing to do, then a task is
  taken or there is none.
\<close>

inductive next_rel :: "scheduler \<Rightarrow> scheduler_task \<Rightarrow> scheduler \<Rightarrow> bool" where
  nr_done: "done_marker s \<Longrightarrow> next_rel s Done s"
| nr_none: "\<not> done_marker s \<Longrightarrow> num_txns s \<le> execution_idx s \<Longrightarrow> num_txns s \<le> val_idx s \<Longrightarrow> next_rel s NoTask s"
| nr_validate: "\<not> done_marker s \<Longrightarrow> val_idx s < num_txns s \<Longrightarrow> es s (val_idx s) = Executed inc \<Longrightarrow>
    next_rel s (ValidationTask (val_idx s, inc) (cur_wave s)) (s\<lparr>validation_idx := validation_idx s + 1\<rparr>)"
| nr_validate_skip: "\<not> done_marker s \<Longrightarrow> val_idx s < num_txns s \<Longrightarrow> (\<And>inc. es s (val_idx s) \<noteq> Executed inc) \<Longrightarrow>
    next_rel (s\<lparr>validation_idx := validation_idx s + 1\<rparr>) task s' \<Longrightarrow> next_rel s task s'"
| nr_execute: "\<not> done_marker s \<Longrightarrow> execution_idx s < num_txns s \<Longrightarrow>
    es s (execution_idx s) = ReadyToExecute inc cv \<Longrightarrow>
    next_rel s (ExecutionTask (execution_idx s, inc) cv)
      (set_exec (s\<lparr>execution_idx := Suc (execution_idx s)\<rparr>) (execution_idx s) (Executing inc))"
| nr_execute_skip: "\<not> done_marker s \<Longrightarrow> execution_idx s < num_txns s \<Longrightarrow>
    (\<And>inc cv. es s (execution_idx s) \<noteq> ReadyToExecute inc cv) \<Longrightarrow>
    next_rel (s\<lparr>execution_idx := Suc (execution_idx s)\<rparr>) task s' \<Longrightarrow> next_rel s task s'"

lemma is_executed_eq:
  assumes "well_sized s" and "i < num_txns s"
  shows "is_executed s i False = (case es s i of Executed inc \<Rightarrow> Some inc | _ \<Rightarrow> None)"
    and "is_executed s i True = (case es s i of Executed inc \<Rightarrow> Some inc | Committed inc \<Rightarrow> Some inc | _ \<Rightarrow> None)"
  using assms by (simp_all add: is_executed_def es_def well_sized_def split: execution_status.splits)

lemma try_validate_eq:
  assumes "well_sized s" and "val_idx s < num_txns s"
  shows "try_validate_next_version s =
    ((case es s (val_idx s) of Executed inc \<Rightarrow> Some ((val_idx s, inc), cur_wave s) | _ \<Rightarrow> None),
     s\<lparr>validation_idx := validation_idx s + 1\<rparr>)"
proof -
  have "is_executed (s\<lparr>validation_idx := validation_idx s + 1\<rparr>) (val_idx s) False = is_executed s (val_idx s) False"
    by (simp add: is_executed_def)
  with assms(2) is_executed_eq(1) [OF assms] show ?thesis
    by (simp add: try_validate_next_version_def unpack_eq Let_def split: execution_status.splits)
qed

lemma try_incarnate_eq:
  assumes "well_sized s" and "i < num_txns s"
  shows "try_incarnate s i = (case es s i of
      ReadyToExecute inc cv \<Rightarrow> (Some (inc, cv), set_exec s i (Executing inc)) | _ \<Rightarrow> (None, s))"
  using assms by (simp add: try_incarnate_def es_def well_sized_def split: execution_status.splits)

lemma try_execute_eq:
  assumes "well_sized s" and "execution_idx s < num_txns s"
  shows "try_execute_next_version s = (let s' = s\<lparr>execution_idx := execution_idx s + 1\<rparr> in
    (case es s (execution_idx s) of
       ReadyToExecute inc cv \<Rightarrow> (Some ((execution_idx s, inc), cv), set_exec s' (execution_idx s) (Executing inc))
     | _ \<Rightarrow> (None, s')))"
proof -
  let ?s = "s\<lparr>execution_idx := execution_idx s + 1\<rparr>"
  have "well_sized ?s" using assms(1) by (simp add: sched_views)
  from try_incarnate_eq [OF this, of "execution_idx s"] assms(2) show ?thesis
    by (simp add: try_execute_next_version_def Let_def sched_views split: execution_status.splits)
qed

text \<open>\<^verbatim>\<open>next_task\<close> ends: every round moves one of the two indices towards the block size.\<close>

lemma next_task_returns:
  assumes "well_sized s" and "val_idx s \<le> num_txns s" and "execution_idx s \<le> num_txns s"
  shows "\<exists>task s'. next_task c s = Some (task, s') \<and> next_rel s task s'"
  using assms
proof (induction "(num_txns s - val_idx s) + (num_txns s - execution_idx s)" arbitrary: s rule: less_induct)
  case less
  note sized = less.prems(1)
  show ?case
  proof (cases "done_marker s \<or> execution_idx s \<ge> num_txns s \<and> val_idx s \<ge> num_txns s")
    case True
    then show ?thesis
      by (subst next_task.simps) (auto simp: unpack_eq Let_def intro: next_rel.intros)
  next
    case False
    show ?thesis
    proof (cases "val_idx s < execution_idx s")
      case True
      let ?s = "s\<lparr>validation_idx := validation_idx s + 1\<rparr>"
      have vi: "val_idx s < num_txns s" using True False less.prems by linarith
      then have s': "val_idx ?s = val_idx s + 1" "well_sized ?s"
        using sized val_idx_incr by (auto simp: well_sized_def)
      have rec: "\<exists>task s'. next_task c ?s = Some (task, s') \<and> next_rel ?s task s'"
        using s' vi less.prems by (intro less.hyps) simp_all
      have step: "next_task c s = (case es s (val_idx s) of
          Executed inc \<Rightarrow> Some (ValidationTask (val_idx s, inc) (cur_wave s), ?s) | _ \<Rightarrow> next_task c ?s)"
        using True False vi by (subst next_task.simps)
          (simp add: unpack_eq Let_def try_validate_eq [OF sized vi] split: execution_status.split)
      show ?thesis
      proof (cases "\<exists>inc. es s (val_idx s) = Executed inc")
        case True
        with step False vi show ?thesis by (auto intro: nr_validate)
      next
        case skip: False
        then have "next_task c s = next_task c ?s" using step by (simp split: execution_status.splits)
        with rec skip False vi show ?thesis by (auto intro: nr_validate_skip)
      qed
    next
      case ge: False
      let ?s = "s\<lparr>execution_idx := execution_idx s + 1\<rparr>"
      have ei: "execution_idx s < num_txns s" using ge False less.prems by linarith
      have rec: "\<exists>task s'. next_task c ?s = Some (task, s') \<and> next_rel ?s task s'"
        using ei sized less.prems by (intro less.hyps) (simp_all add: sched_views)
      have step: "next_task c s = (case es s (execution_idx s) of
          ReadyToExecute inc cv \<Rightarrow> Some (ExecutionTask (execution_idx s, inc) cv,
            set_exec ?s (execution_idx s) (Executing inc))
        | _ \<Rightarrow> next_task c ?s)"
        using ge False ei by (subst next_task.simps)
          (simp add: unpack_eq Let_def try_execute_eq [OF sized ei] split: execution_status.split)
      show ?thesis
      proof (cases "\<exists>inc cv. es s (execution_idx s) = ReadyToExecute inc cv")
        case True
        with step False ei show ?thesis by (auto intro: nr_execute)
      next
        case skip: False
        then have "next_task c s = next_task c ?s" using step by (simp split: execution_status.splits)
        moreover obtain task s' where "next_task c ?s = Some (task, s')" "next_rel ?s task s'" using rec by blast
        moreover have "next_rel s task s'"
          using skip False ei \<open>next_rel ?s task s'\<close> by - (rule nr_execute_skip, auto)
        ultimately show ?thesis by simp
      qed
    qed
  qed
qed

text \<open>Finishing an execution resumes the transactions that depend on it.\<close>

fun resumed :: "execution_status \<Rightarrow> execution_status" where
  "resumed (Suspended inc cv) = ReadyToExecute inc (Some cv)"
| "resumed st = st"

lemma resume_all_effect:
  assumes "well_sized s" and "distinct ds"
    and "\<And>j. j \<in> set ds \<Longrightarrow> j < num_txns s \<and> (\<exists>inc cv. es s j = Suspended inc cv)"
  shows "\<exists>s'. resume_all s ds = Ret s' \<and> es s' = (\<lambda>j. if j \<in> set ds then resumed (es s j) else es s j)
    \<and> mt s' = mt s \<and> rq s' = rq s \<and> mvw s' = mvw s \<and> deps s' = deps s \<and> well_sized s'
    \<and> num_txns s' = num_txns s \<and> execution_idx s' = execution_idx s \<and> validation_idx s' = validation_idx s
    \<and> commit_state s' = commit_state s \<and> done_marker s' = done_marker s"
  using assms
proof (induction ds arbitrary: s)
  case Nil
  then show ?case by simp
next
  case (Cons d ds)
  from Cons.prems(3) [of d] obtain inc cv where d: "d < num_txns s" "es s d = Suspended inc cv" by auto
  let ?s = "set_exec s d (ReadyToExecute inc (Some cv))"
  have range: "d < length (txn_status s)" using in_range Cons.prems(1) d(1) .
  have "resume s d = Ret ?s"
    using d by (simp add: resume_def index_txn_status [OF Cons.prems(1)]) (simp add: es_def)
  moreover have "j < num_txns ?s \<and> (\<exists>inc cv. es ?s j = Suspended inc cv)" if "j \<in> set ds" for j
    using Cons.prems(2,3) range that by (auto simp: sched_views)
  from Cons.IH [OF _ _ this] Cons.prems(1,2)
  obtain s' where s': "resume_all ?s ds = Ret s'"
    "es s' = (\<lambda>j. if j \<in> set ds then resumed (es ?s j) else es ?s j)"
    "mt s' = mt s \<and> rq s' = rq s \<and> mvw s' = mvw s \<and> deps s' = deps s \<and> well_sized s'
    \<and> num_txns s' = num_txns s \<and> execution_idx s' = execution_idx s \<and> validation_idx s' = validation_idx s
    \<and> commit_state s' = commit_state s \<and> done_marker s' = done_marker s"
    by (auto simp: sched_views)
  moreover have "es s' = (\<lambda>j. if j \<in> set (d # ds) then resumed (es s j) else es s j)"
    using s'(2) Cons.prems(2) d(2) range by (auto simp: sched_views fun_eq_iff)
  ultimately show ?case by simp
qed

lemma fold_min_eq: "fold min ds d = Min (set (d # ds))"
  by (simp only: Min.set_eq_fold)

definition finish_execution_spec ::
  "scheduler \<Rightarrow> nat \<Rightarrow> nat \<Rightarrow> bool \<Rightarrow> scheduler_task \<Rightarrow> scheduler \<Rightarrow> bool" where
  "finish_execution_spec s i inc r task s' \<longleftrightarrow>
     es s' = (\<lambda>j. if j = i then Executed inc else if j \<in> set (deps s i) then resumed (es s j) else es s j) \<and>
     deps s' = (deps s)(i := []) \<and> execution_idx s' = Min (insert (execution_idx s) (set (deps s i))) \<and>
     mvw s' = mvw s \<and> well_sized s' \<and> num_txns s' = num_txns s \<and>
     commit_state s' = commit_state s \<and> done_marker s' = done_marker s \<and>
     (if val_idx s > i then
        if r then task = NoTask \<and> val_idx s' = i \<and> cur_wave s' = cur_wave s + 1
          \<and> mt s' = (mt s)(i := cur_wave s + 1) \<and> rq s' = rq s
        else task = ValidationTask (i, inc) (cur_wave s) \<and> val_idx s' = val_idx s \<and> cur_wave s' = cur_wave s
          \<and> mt s' = mt s \<and> rq s' = (rq s)(i := cur_wave s)
      else task = NoTask \<and> val_idx s' = val_idx s \<and> cur_wave s' = cur_wave s \<and> mt s' = mt s \<and> rq s' = rq s)"

lemma finish_execution_effect:
  assumes sized: "well_sized s" and i: "i < num_txns s" and wave: "cur_wave s \<noteq> - 1"
    and ds: "distinct (deps s i)"
      "\<And>j. j \<in> set (deps s i) \<Longrightarrow> j < num_txns s \<and> j \<noteq> i \<and> (\<exists>inc cv. es s j = Suspended inc cv)"
  shows "\<exists>task s'. finish_execution s i inc r = Ret (task, s') \<and> finish_execution_spec s i inc r task s'"
proof -
  let ?s1 = "(set_exec s i (Executed inc))\<lparr>txn_dependency := (txn_dependency s)[i := []]\<rparr>"
  have range: "i < length (txn_status s)" using in_range sized i .
  have "well_sized ?s1" using sized by (simp add: sched_views) (simp add: well_sized_def)
  moreover have "j < num_txns ?s1 \<and> (\<exists>inc cv. es ?s1 j = Suspended inc cv)" if "j \<in> set (deps s i)" for j
    using ds(2) [OF that] range by (simp add: sched_views)
  ultimately obtain s2 where s2: "resume_all ?s1 (deps s i) = Ret s2"
    "es s2 = (\<lambda>j. if j \<in> set (deps s i) then resumed (es ?s1 j) else es ?s1 j)"
    "mt s2 = mt s" "rq s2 = rq s" "mvw s2 = mvw s" "deps s2 = deps ?s1" "well_sized s2"
    "num_txns s2 = num_txns s" "execution_idx s2 = execution_idx s" "validation_idx s2 = validation_idx s"
    "commit_state s2 = commit_state s" "done_marker s2 = done_marker s"
    using resume_all_effect [OF _ ds(1), of ?s1] by (auto simp: sched_views)
  let ?s3 = "case deps s i of [] \<Rightarrow> s2
    | dep # ds \<Rightarrow> s2\<lparr>execution_idx := min (execution_idx s2) (fold min ds dep)\<rparr>"
  have es3: "es ?s3 = (\<lambda>j. if j = i then Executed inc else if j \<in> set (deps s i) then resumed (es s j) else es s j)"
    using s2(2) ds(2) range by (auto simp: sched_views fun_eq_iff split: list.split)
  have dep3: "deps ?s3 = (deps s)(i := [])"
    using s2(6) sized i by (auto simp: sched_views deps_def fun_eq_iff well_sized_def nth_list_update split: list.split)
  have ei3: "execution_idx ?s3 = Min (insert (execution_idx s) (set (deps s i)))"
    using s2(9) by (cases "deps s i") (simp_all add: fold_min_eq)
  have rest3: "mt ?s3 = mt s" "rq ?s3 = rq s" "mvw ?s3 = mvw s" "well_sized ?s3" "num_txns ?s3 = num_txns s"
    "validation_idx ?s3 = validation_idx s" "commit_state ?s3 = commit_state s" "done_marker ?s3 = done_marker s"
    using s2 by (auto simp: sched_views split: list.split)
  then have w3: "val_idx ?s3 = val_idx s" "cur_wave ?s3 = cur_wave s" by (simp_all add: val_idx_def cur_wave_def)
  have i32: "i < 2 ^ 32" using sized i by (simp add: well_sized_def)
  obtain v where v: "decrease_validation_idx ?s3 i =
      Ret (if val_idx s > i then (Some (cur_wave s + 1), ?s3\<lparr>validation_idx := v\<rparr>) else (None, ?s3))"
    "val_idx s > i \<Longrightarrow> val_idx (?s3\<lparr>validation_idx := v\<rparr>) = i \<and> cur_wave (?s3\<lparr>validation_idx := v\<rparr>) = cur_wave s + 1"
    using decrease_validation_idx_eq [OF i32, of ?s3] wave unfolding w3 by blast
  have range3: "i < length (txn_status ?s3)" using rest3(4,5) i by (simp add: well_sized_def)
  have run: "finish_execution s i inc r =
      (if val_idx s > i
       then if r then Ret (NoTask, set_max_triggered_wave (?s3\<lparr>validation_idx := v\<rparr>) i (cur_wave s + 1))
            else Ret (ValidationTask (i, inc) (cur_wave s), set_required_wave ?s3 i (cur_wave s))
       else Ret (NoTask, ?s3))"
    using s2(1) v(1) w3 sized i
    by (simp add: finish_execution_def set_executed_status_def index_txn_status sched_views
        index_txn_dependency unpack_eq Let_def)
  show ?thesis
    unfolding run using v(2) es3 dep3 ei3 rest3 w3 range3
    by (auto simp: finish_execution_spec_def sched_views)
qed

definition finish_abort_spec ::
  "scheduler \<Rightarrow> nat \<Rightarrow> nat \<Rightarrow> scheduler_task \<Rightarrow> scheduler \<Rightarrow> bool" where
  "finish_abort_spec s i inc task s' \<longleftrightarrow>
     deps s' = deps s \<and> execution_idx s' = execution_idx s \<and> mvw s' = mvw s \<and> rq s' = rq s \<and> well_sized s' \<and>
     num_txns s' = num_txns s \<and> commit_state s' = commit_state s \<and> done_marker s' = done_marker s \<and>
     (if execution_idx s > i then task = ExecutionTask (i, inc + 1) None \<and> es s' = (es s)(i := Executing (inc + 1))
      else task = NoTask \<and> es s' = (es s)(i := ReadyToExecute (inc + 1) None)) \<and>
     (if val_idx s > i then val_idx s' = i \<and> cur_wave s' = cur_wave s + 1 \<and> mt s' = (mt s)(i := cur_wave s + 1)
      else val_idx s' = val_idx s \<and> cur_wave s' = cur_wave s \<and> mt s' = mt s)"

lemma finish_abort_effect:
  assumes sized: "well_sized s" and i: "i < num_txns s" and wave: "cur_wave s \<noteq> - 1"
  shows "\<exists>task s'. finish_abort s i inc = Ret (task, s') \<and> finish_abort_spec s i inc task s'"
proof -
  let ?s1 = "set_exec s i (ReadyToExecute (inc + 1) None)"
  have range: "i < length (txn_status s)" using in_range sized i .
  have i32: "i < 2 ^ 32" using sized i by (simp add: well_sized_def)
  have w1: "val_idx ?s1 = val_idx s" "cur_wave ?s1 = cur_wave s" by (simp_all add: sched_views)
  obtain v where v: "decrease_validation_idx ?s1 i =
      Ret (if val_idx s > i then (Some (cur_wave s + 1), ?s1\<lparr>validation_idx := v\<rparr>) else (None, ?s1))"
    "val_idx s > i \<Longrightarrow> val_idx (?s1\<lparr>validation_idx := v\<rparr>) = i \<and> cur_wave (?s1\<lparr>validation_idx := v\<rparr>) = cur_wave s + 1"
    using decrease_validation_idx_eq [OF i32, of ?s1] wave unfolding w1 by blast
  define s2 where "s2 = (if val_idx s > i then set_max_triggered_wave (?s1\<lparr>validation_idx := v\<rparr>) i (cur_wave s + 1) else ?s1)"
  have views: "es s2 = (es s)(i := ReadyToExecute (inc + 1) None)" "well_sized s2" "num_txns s2 = num_txns s"
    "execution_idx s2 = execution_idx s" "deps s2 = deps s" "mvw s2 = mvw s" "rq s2 = rq s"
    "commit_state s2 = commit_state s" "done_marker s2 = done_marker s"
    using range sized by (simp_all add: s2_def sched_views)
  have waves: "if val_idx s > i then val_idx s2 = i \<and> cur_wave s2 = cur_wave s + 1 \<and> mt s2 = (mt s)(i := cur_wave s + 1)
      else val_idx s2 = val_idx s \<and> cur_wave s2 = cur_wave s \<and> mt s2 = mt s"
    using range v(2) by (simp add: s2_def sched_views)
  have inc: "try_incarnate s2 i = (Some (inc + 1, None), set_exec s2 i (Executing (inc + 1)))"
    using try_incarnate_eq [OF views(2), of i] i views(1,3) by simp
  have run: "finish_abort s i inc =
      (if execution_idx s > i then Ret (ExecutionTask (i, inc + 1) None, set_exec s2 i (Executing (inc + 1)))
       else Ret (NoTask, s2))"
    using v(1) sized i inc views(4) unfolding s2_def
    by (simp add: finish_abort_def set_aborted_status_def index_txn_status Let_def split: if_splits)
  have range2: "i < length (txn_status s2)" using views(2,3) i by (simp add: well_sized_def)
  show ?thesis
    unfolding run using views waves range2 by (simp add: finish_abort_spec_def sched_views)
qed

text \<open>Waiting for a dependency, aborting, validating and committing.\<close>

fun done_status :: "execution_status \<Rightarrow> bool" where
  "done_status (Executed _) = True"
| "done_status (Committed _) = True"
| "done_status _ = False"

definition wait_spec :: "scheduler \<Rightarrow> nat \<Rightarrow> nat \<Rightarrow> nat \<Rightarrow> condvar \<Rightarrow> scheduler \<Rightarrow> bool" where
  "wait_spec s i inc dep cv s' \<longleftrightarrow>
     es s' = (es s)(i := Suspended inc cv) \<and> deps s' = (deps s)(dep := deps s dep @ [i]) \<and>
     mt s' = mt s \<and> rq s' = rq s \<and> mvw s' = mvw s \<and> val_idx s' = val_idx s \<and> cur_wave s' = cur_wave s \<and>
     execution_idx s' = execution_idx s \<and> well_sized s' \<and> num_txns s' = num_txns s \<and>
     commit_state s' = commit_state s \<and> done_marker s' = done_marker s"

lemma wait_for_dependency_effect:
  assumes sized: "well_sized s" and "i < num_txns s" and "dep < num_txns s" and "es s i = Executing inc"
  shows "if done_status (es s dep) then wait_for_dependency s cvs i dep = Ret (None, cvs @ [False], s)
    else \<exists>s'. wait_for_dependency s cvs i dep = Ret (Some (length cvs), cvs @ [False], s')
           \<and> wait_spec s i inc dep (length cvs) s'"
proof -
  have "is_executed s dep True \<noteq> None \<longleftrightarrow> done_status (es s dep)"
    using is_executed_eq(2) [OF sized assms(3)] by (simp split: execution_status.splits)
  moreover have "suspend s i (length cvs) = Ret (set_exec s i (Suspended inc (length cvs)))"
    using assms by (simp add: suspend_def index_txn_status) (simp add: es_def)
  moreover have "i < length (txn_status s)" "dep < length (txn_dependency s)"
    using assms by (simp_all add: well_sized_def)
  ultimately show ?thesis
    using assms
    by (auto simp: wait_for_dependency_def index_txn_dependency Let_def wait_spec_def sched_views
        well_sized_def deps_def fun_eq_iff nth_list_update)
qed

lemma try_abort_effect:
  assumes "well_sized s" and "i < num_txns s"
  shows "try_abort s i inc =
    (if es s i = Executed inc then Ret (True, set_exec s i (Aborting inc)) else Ret (False, s))"
  using assms by (simp add: try_abort_def index_txn_status) (simp add: es_def)

definition finish_validation_spec :: "scheduler \<Rightarrow> nat \<Rightarrow> wave \<Rightarrow> scheduler \<Rightarrow> bool" where
  "finish_validation_spec s i w s' \<longleftrightarrow>
     mvw s' = (mvw s)(i := Some (case mvw s i of None \<Rightarrow> w | Some p \<Rightarrow> max p w)) \<and>
     es s' = es s \<and> deps s' = deps s \<and> mt s' = mt s \<and> rq s' = rq s \<and> val_idx s' = val_idx s \<and>
     cur_wave s' = cur_wave s \<and> execution_idx s' = execution_idx s \<and> well_sized s' \<and>
     num_txns s' = num_txns s \<and> commit_state s' = commit_state s \<and> done_marker s' = done_marker s"

lemma finish_validation_effect:
  assumes "well_sized s" and "i < num_txns s"
  shows "\<exists>s'. finish_validation s i w = Ret s' \<and> finish_validation_spec s i w s'"
proof -
  let ?v = "snd (txn_status s ! i)"
  let ?s = "set_val s i (?v\<lparr>maybe_max_validated_wave := Some (case mvw s i of None \<Rightarrow> w | Some p \<Rightarrow> max p w)\<rparr>)"
  have range: "i < length (txn_status s)" using in_range assms .
  have "finish_validation s i w = Ret ?s"
    using assms by (simp add: finish_validation_def index_txn_status split_def mvw_def)
  moreover have "(mt s)(i := max_triggered_wave ?v) = mt s" "(rq s)(i := required_wave ?v) = rq s"
    by (auto simp: mt_def rq_def)
  ultimately show ?thesis
    using range assms(1) by (simp add: finish_validation_spec_def sched_views)
qed

definition try_commit_spec :: "bool \<Rightarrow> scheduler \<Rightarrow> nat option \<Rightarrow> scheduler \<Rightarrow> bool" where
  "try_commit_spec locked s r s' \<longleftrightarrow>
     (case commit_state s of (c, w) \<Rightarrow>
        if c = num_txns s then r = None \<and> s' = s\<lparr>done_marker := True\<rparr>
        else if locked \<and> (\<exists>inc. es s c = Executed inc)
        then let w' = max w (mt s c) in
             if \<exists>v. mvw s c = Some v \<and> max w' (rq s c) \<le> v
             then \<exists>inc. es s c = Executed inc \<and> r = Some c
               \<and> s' = (set_exec (s\<lparr>commit_state := (c, w')\<rparr>) c (Committed inc))\<lparr>commit_state := (c + 1, w')\<rparr>
             else r = None \<and> s' = s\<lparr>commit_state := (c, w')\<rparr>
        else r = None \<and> s' = s)"

lemma try_commit_effect:
  assumes "well_sized s" and "fst (commit_state s) \<le> num_txns s"
  shows "\<exists>r s'. try_commit a b s = Ret (r, s') \<and> try_commit_spec (a \<and> b) s r s'"
proof -
  obtain c w where c: "commit_state s = (c, w)" by force
  show ?thesis
  proof (cases "c = num_txns s")
    case True
    with c show ?thesis by (simp add: try_commit_def try_commit_spec_def)
  next
    case False
    with assms(2) c have "c < num_txns s" by simp
    then have "index (txn_status s) c = Ret (txn_status s ! c)" by (rule index_txn_status [OF assms(1)])
    with False c show ?thesis
      by (cases "es s c"; cases "mvw s c")
        (auto simp: try_commit_def try_commit_spec_def split_def Let_def es_def mvw_def mt_def rq_def)
  qed
qed

section \<open>Properties\<close>

lemma next_rel_task:
  assumes "next_rel s task s'" and "well_sized s"
  shows "case task of
      ExecutionTask (i, inc) cv \<Rightarrow> i < num_txns s \<and> es s i = ReadyToExecute inc cv \<and> es s' = (es s)(i := Executing inc)
    | ValidationTask (i, inc) w \<Rightarrow> i < num_txns s \<and> es s i = Executed inc \<and> w = cur_wave s \<and> es s' = es s
    | NoTask \<Rightarrow> \<not> done_marker s \<and> es s' = es s
    | Done \<Rightarrow> done_marker s \<and> s' = s"
  using assms
proof (induction rule: next_rel.induct)
  case (nr_execute s inc cv)
  then have "execution_idx s < length (txn_status s)" by (simp add: well_sized_def)
  with nr_execute show ?case by (simp add: sched_views)
next
  case (nr_validate_skip s task s')
  have "cur_wave (s\<lparr>validation_idx := validation_idx s + 1\<rparr>) = cur_wave s"
    using nr_validate_skip.hyps(2) nr_validate_skip.prems by (intro val_idx_incr) (simp add: well_sized_def)
  with nr_validate_skip show ?case
    by (cases task) (auto simp: sched_views)
next
  case (nr_execute_skip s task s')
  then show ?case by (cases task) (auto simp: sched_views)
qed (simp_all add: sched_views)



text \<open>
  The validation index and the wave share one 64-bit word without touching each other: as long as the
  wave counter is not exhausted, decreasing the index to one below \<open>2 ^ 32\<close> does not panic, sets exactly that index
  and the next wave, and an index that is already small enough leaves the state alone.
\<close>

theorem decrease_validation_idx_packs:
  assumes "target < 2 ^ 32" and "cur_wave s \<noteq> - 1"
  shows "\<exists>r s'. decrease_validation_idx s target = Ret (r, s')
    \<and> val_idx s' = min (val_idx s) target
    \<and> cur_wave s' = (if target < val_idx s then cur_wave s + 1 else cur_wave s)
    \<and> r = (if target < val_idx s then Some (cur_wave s') else None)
    \<and> s' = s\<lparr>validation_idx := validation_idx s'\<rparr>"
  using decrease_validation_idx_eq [OF assms] by (auto simp: min_def)

theorem decrease_validation_idx_packs_witness:
  "\<exists>r s'. decrease_validation_idx ((scheduler_new 9)\<lparr>validation_idx := 0x0000000700000005\<rparr>) 3 = Ret (r, s')
     \<and> val_idx s' = 3 \<and> cur_wave s' = 8 \<and> r = Some 8"
proof -
  let ?s = "(scheduler_new 9)\<lparr>validation_idx := 0x0000000700000005\<rparr>"
  have v: "val_idx ?s = 5" "cur_wave ?s = 7"
    by (simp_all add: val_idx_def cur_wave_def unpack_validation_idx_def TXN_IDX_MASK_def)
  then have "cur_wave ?s \<noteq> - 1" by simp
  from decrease_validation_idx_packs [OF _ this, of 3] v show ?thesis by auto
qed

end
