(* ===== verification/SchedulerInv.thy ===== *)
theory SchedulerInv
  imports Scheduler
begin

text \<open>
  The invariant of the scheduler's shared state and that every method keeps it: dependency lists hold
  exactly the suspended transactions, a transaction that is ready is not behind the execution index,
  no transaction's wave is above the current wave, and the committed transactions are the prefix
  below the commit index.
\<close>

section \<open>The invariant\<close>

definition deps_ok :: "scheduler \<Rightarrow> bool" where
  "deps_ok s \<longleftrightarrow>
     (\<forall>d<num_txns s. distinct (deps s d) \<and> (deps s d \<noteq> [] \<longrightarrow> \<not> done_status (es s d)) \<and>
        (\<forall>i\<in>set (deps s d). d < i \<and> i < num_txns s \<and> (\<exists>inc cv. es s i = Suspended inc cv))) \<and>
     (\<forall>d<num_txns s. \<forall>d'<num_txns s. d \<noteq> d' \<longrightarrow> set (deps s d) \<inter> set (deps s d') = {}) \<and>
     (\<forall>i<num_txns s. \<forall>inc cv. es s i = Suspended inc cv \<longrightarrow> (\<exists>d<i. i \<in> set (deps s d)))"

definition ready_ok :: "scheduler \<Rightarrow> bool" where
  "ready_ok s \<longleftrightarrow> execution_idx s \<le> num_txns s \<and> val_idx s \<le> num_txns s \<and>
     (\<forall>i<num_txns s. \<forall>inc cv. es s i = ReadyToExecute inc cv \<longrightarrow> execution_idx s \<le> i)"

definition waves_ok :: "scheduler \<Rightarrow> bool" where
  "waves_ok s \<longleftrightarrow> (\<forall>i<num_txns s. mt s i \<le> cur_wave s \<and> rq s i \<le> cur_wave s)"

definition commit_ok :: "scheduler \<Rightarrow> bool" where
  "commit_ok s \<longleftrightarrow>
     (case commit_state s of (c, w) \<Rightarrow>
        c \<le> num_txns s \<and> (\<forall>i<num_txns s. (\<exists>inc. es s i = Committed inc) \<longleftrightarrow> i < c) \<and>
        (\<forall>k<c. mt s k \<le> w) \<and> (w = 0 \<or> (\<exists>k<num_txns s. k \<le> c \<and> w \<le> mt s k)) \<and>
        (done_marker s \<longrightarrow> c = num_txns s))"

definition sched_inv :: "scheduler \<Rightarrow> bool" where
  "sched_inv s \<longleftrightarrow> well_sized s \<and> deps_ok s \<and> ready_ok s \<and> waves_ok s \<and> commit_ok s"

lemmas sched_inv_defs = sched_inv_def deps_ok_def ready_ok_def waves_ok_def commit_ok_def

lemma sched_invD:
  assumes "sched_inv s"
  shows "well_sized s" "deps_ok s" "ready_ok s" "waves_ok s" "commit_ok s"
  using assms by (simp_all add: sched_inv_def)

lemma wave_succ: "(w :: wave) \<noteq> - 1 \<Longrightarrow> w < w + 1"
proof -
  assume "w \<noteq> - 1"
  then have "unat w \<noteq> 2 ^ 32 - 1"
    using word_unat_eq_iff [of w "- 1"] by (simp add: unsigned_minus_1_eq_mask mask_eq_exp_minus_1)
  then have "unat w + 1 < 2 ^ 32" using unsigned_less [of w, where 'a = nat] by simp
  then have "unat (w + 1) = unat w + 1" by (simp add: unat_word_ariths(1))
  then show ?thesis by (simp add: word_less_nat_alt)
qed

lemma done_status_iff: "done_status st \<longleftrightarrow> (\<exists>inc. st = Executed inc \<or> st = Committed inc)"
  by (cases st) auto

lemma sched_inv_new: "n < 2 ^ 32 \<Longrightarrow> sched_inv (scheduler_new n)"
  by (auto simp: sched_inv_defs well_sized_def scheduler_new_def es_def mt_def rq_def deps_def val_idx_def
      cur_wave_def unpack_validation_idx_def validation_status_new_def)

section \<open>The methods keep it\<close>

text \<open>
  Changing one status keeps the commit part when the transaction was and is not committed.
\<close>

lemma commit_ok_update:
  assumes "commit_ok s" and "num_txns s' = num_txns s" and "commit_state s' = commit_state s"
    and "done_marker s' = done_marker s"
    and "\<And>j. j < num_txns s \<Longrightarrow> (\<exists>inc. es s' j = Committed inc) \<longleftrightarrow> (\<exists>inc. es s j = Committed inc)"
    and "\<And>j. j < num_txns s \<Longrightarrow> mt s j \<le> mt s' j"
    and "\<And>j inc. j < num_txns s \<Longrightarrow> es s j = Committed inc \<Longrightarrow> mt s' j = mt s j"
  shows "commit_ok s'"
proof -
  obtain c w where c: "commit_state s = (c, w)" by force
  have "mt s' k \<le> w" if "k < c" for k
  proof -
    have "k < num_txns s" "mt s k \<le> w" "\<exists>inc. es s k = Committed inc"
      using assms(1) c that by (simp_all add: commit_ok_def)
    with assms(7) show ?thesis by auto
  qed
  moreover have "w = 0 \<or> (\<exists>k<num_txns s. k \<le> c \<and> w \<le> mt s' k)"
    using assms(1) c assms(6) [THEN order_trans [rotated]] by (auto simp: commit_ok_def)
  ultimately show ?thesis
    using assms(1-5) c by (simp add: commit_ok_def)
qed

lemma deps_ok_cong:
  assumes "num_txns s' = num_txns s" and "deps s' = deps s" and "es s' = es s"
  shows "deps_ok s' \<longleftrightarrow> deps_ok s"
  unfolding deps_ok_def assms ..

lemma deps_okD:
  assumes "deps_ok s" and "d < num_txns s"
  shows "distinct (deps s d)" and "done_status (es s d) \<Longrightarrow> deps s d = []"
    and "i \<in> set (deps s d) \<Longrightarrow> d < i \<and> i < num_txns s \<and> (\<exists>inc cv. es s i = Suspended inc cv)"
    and "d' < num_txns s \<Longrightarrow> d \<noteq> d' \<Longrightarrow> set (deps s d) \<inter> set (deps s d') = {}"
    and "es s d = Suspended inc cv \<Longrightarrow> \<exists>k<d. d \<in> set (deps s k)"
  using assms unfolding deps_ok_def by blast+

lemma deps_okI:
  assumes "\<And>d. d < num_txns s \<Longrightarrow> distinct (deps s d)"
    and "\<And>d. d < num_txns s \<Longrightarrow> done_status (es s d) \<Longrightarrow> deps s d = []"
    and "\<And>d i. d < num_txns s \<Longrightarrow> i \<in> set (deps s d) \<Longrightarrow> d < i \<and> i < num_txns s \<and> (\<exists>inc cv. es s i = Suspended inc cv)"
    and "\<And>d d'. d < num_txns s \<Longrightarrow> d' < num_txns s \<Longrightarrow> d \<noteq> d' \<Longrightarrow> set (deps s d) \<inter> set (deps s d') = {}"
    and "\<And>d inc cv. d < num_txns s \<Longrightarrow> es s d = Suspended inc cv \<Longrightarrow> \<exists>k<d. d \<in> set (deps s k)"
  shows "deps_ok s"
  unfolding deps_ok_def using assms by blast

lemma deps_ok_set:
  assumes "deps_ok s" and "num_txns s' = num_txns s" and "deps s' = deps s" and es: "es s' = (es s)(i := st)"
    and "i < num_txns s" and old: "\<And>inc cv. es s i \<noteq> Suspended inc cv" and new: "\<And>inc cv. st \<noteq> Suspended inc cv"
    and dn: "done_status st \<Longrightarrow> deps s i = []"
  shows "deps_ok s'"
proof (rule deps_okI, unfold assms(2,3))
  note D = deps_okD [OF assms(1)]
  fix d assume d: "d < num_txns s"
  show "distinct (deps s d)" using D(1) d .
  show "deps s d = []" if "done_status (es s' d)"
    using that dn D(2) [OF d] es by (cases "d = i") simp_all
  show "d < j \<and> j < num_txns s \<and> (\<exists>inc cv. es s' j = Suspended inc cv)" if "j \<in> set (deps s d)" for j
    using D(3) [OF d that] old es by (cases "j = i") auto
  show "set (deps s d) \<inter> set (deps s d') = {}" if "d' < num_txns s" "d \<noteq> d'" for d'
    using D(4) [OF d that] .
  show "\<exists>k<d. d \<in> set (deps s k)" if "es s' d = Suspended inc cv" for inc cv
    using that new D(5) [OF d] es by (cases "d = i") simp_all
qed

lemma ready_ok_set:
  assumes "ready_ok s" and "num_txns s' = num_txns s" and "es s' = (es s)(i := st)"
    and "execution_idx s' = execution_idx s" and "val_idx s' \<le> num_txns s"
    and "\<And>inc cv. st = ReadyToExecute inc cv \<Longrightarrow> execution_idx s \<le> i"
  shows "ready_ok s'"
  using assms by (auto simp: ready_ok_def)

lemma val_idx_step:
  assumes "sched_inv s" and "val_idx s < num_txns s"
  shows "val_idx (s\<lparr>validation_idx := validation_idx s + 1\<rparr>) = Suc (val_idx s)"
    and "cur_wave (s\<lparr>validation_idx := validation_idx s + 1\<rparr>) = cur_wave s"
proof -
  have "val_idx s + 1 < 2 ^ 32" using assms by (simp add: sched_inv_def well_sized_def)
  from val_idx_incr [OF this] show "val_idx (s\<lparr>validation_idx := validation_idx s + 1\<rparr>) = Suc (val_idx s)"
    and "cur_wave (s\<lparr>validation_idx := validation_idx s + 1\<rparr>) = cur_wave s" by simp_all
qed

lemma sched_inv_validate:
  assumes "sched_inv s" and "val_idx s < num_txns s"
  shows "sched_inv (s\<lparr>validation_idx := validation_idx s + 1\<rparr>)"
  using assms val_idx_step [OF assms] deps_ok_cong [of "s\<lparr>validation_idx := validation_idx s + 1\<rparr>" s]
  by (simp add: sched_inv_def ready_ok_def waves_ok_def commit_ok_def sched_views)

lemma sched_inv_skip_execute:
  assumes "sched_inv s" and "execution_idx s < num_txns s"
    and "\<And>inc cv. es s (execution_idx s) \<noteq> ReadyToExecute inc cv"
  shows "sched_inv (s\<lparr>execution_idx := Suc (execution_idx s)\<rparr>)"
proof -
  have "Suc (execution_idx s) \<le> i" if "i < num_txns s" "es s i = ReadyToExecute inc cv" for i inc cv
  proof -
    have "execution_idx s \<le> i" using assms(1) that by (simp add: sched_inv_def ready_ok_def)
    moreover have "execution_idx s \<noteq> i" using assms(3) that by auto
    ultimately show ?thesis by simp
  qed
  with assms(1,2) deps_ok_cong [of "s\<lparr>execution_idx := Suc (execution_idx s)\<rparr>" s] show ?thesis
    by (auto simp: sched_inv_def ready_ok_def waves_ok_def commit_ok_def sched_views)
qed

lemma sched_inv_execute:
  assumes "sched_inv s" and i: "execution_idx s < num_txns s" and st: "es s (execution_idx s) = ReadyToExecute inc cv"
  shows "sched_inv (set_exec (s\<lparr>execution_idx := Suc (execution_idx s)\<rparr>) (execution_idx s) (Executing inc))"
    (is "sched_inv ?s'")
proof -
  note inv = sched_invD [OF assms(1)]
  have range: "execution_idx s < length (txn_status s)" using inv(1) i by (rule in_range)
  have es: "es ?s' = (es s)(execution_idx s := Executing inc)" using range by (simp add: sched_views)
  have same: "num_txns ?s' = num_txns s" "deps ?s' = deps s" "mt ?s' = mt s" "rq ?s' = rq s"
    "cur_wave ?s' = cur_wave s" "val_idx ?s' = val_idx s" "commit_state ?s' = commit_state s"
    "done_marker ?s' = done_marker s" "well_sized ?s'" "execution_idx ?s' = Suc (execution_idx s)"
    using inv(1) by (simp_all add: sched_views)
  have "deps_ok ?s'" using i st by (intro deps_ok_set [OF inv(2) same(1,2) es]) simp_all
  moreover have "ready_ok ?s'"
  proof -
    have "Suc (execution_idx s) \<le> j" if "j < num_txns s" "((es s)(execution_idx s := Executing inc)) j = ReadyToExecute a b" for j a b
      using inv(3) that by (cases "j = execution_idx s") (auto simp: ready_ok_def less_eq_Suc_le [symmetric] le_less)
    then show ?thesis using inv(3) i same es by (simp add: ready_ok_def)
  qed
  moreover have "waves_ok ?s'" using inv(4) same by (simp add: waves_ok_def)
  moreover have "commit_ok ?s'"
    using st es same by (intro commit_ok_update [OF inv(5)]) auto
  ultimately show ?thesis using same(9) by (simp add: sched_inv_def)
qed

lemma next_rel_sched_inv:
  assumes "next_rel s task s'" and "sched_inv s"
  shows "sched_inv s'"
  using assms
  by (induction rule: next_rel.induct)
    (blast intro: sched_inv_validate sched_inv_skip_execute sched_inv_execute)+

lemma sched_inv_wait:
  assumes "sched_inv s" and i: "i < num_txns s" and st: "es s i = Executing inc" and dep: "dep < i"
    and nd: "\<not> done_status (es s dep)" and w: "wait_spec s i inc dep cv s'"
  shows "sched_inv s'"
proof -
  note inv = sched_invD [OF assms(1)] and D = deps_okD [OF sched_invD(2) [OF assms(1)]]
  have es: "es s' = (es s)(i := Suspended inc cv)" and ds: "deps s' = (deps s)(dep := deps s dep @ [i])"
    and same: "num_txns s' = num_txns s" "mt s' = mt s" "rq s' = rq s" "cur_wave s' = cur_wave s"
      "val_idx s' = val_idx s" "commit_state s' = commit_state s" "done_marker s' = done_marker s"
      "well_sized s'" "execution_idx s' = execution_idx s"
    using w by (simp_all add: wait_spec_def)
  have fresh: "i \<notin> set (deps s d)" if "d < num_txns s" for d
    using D(3) [OF that, of i] st by auto
  have "deps_ok s'"
  proof (rule deps_okI, unfold same(1))
    fix d assume d: "d < num_txns s"
    show "distinct (deps s' d)" using D(1) [OF d] fresh [OF d] ds by (cases "d = dep") simp_all
    show "deps s' d = []" if "done_status (es s' d)"
      using that D(2) [OF d] nd ds es by (cases "d = dep"; cases "d = i") simp_all
    show "d < j \<and> j < num_txns s \<and> (\<exists>inc cv. es s' j = Suspended inc cv)" if "j \<in> set (deps s' d)" for j
      using that D(3) [OF d, of j] i dep ds es by (cases "d = dep"; cases "j = i") auto
    show "set (deps s' d) \<inter> set (deps s' d') = {}" if "d' < num_txns s" "d \<noteq> d'" for d'
      using D(4) [OF d that] fresh [OF d] fresh [OF that(1)] that(2) ds
      by (cases "d = dep"; cases "d' = dep") simp_all
    show "\<exists>k<d. d \<in> set (deps s' k)" if "es s' d = Suspended a b" for a b
    proof (cases "d = i")
      case True
      with dep ds show ?thesis by (intro exI [of _ dep]) simp
    next
      case False
      with that es D(5) [OF d] obtain k where "k < d" "d \<in> set (deps s k)" by auto
      with ds show ?thesis by (intro exI [of _ k]) auto
    qed
  qed
  moreover have "ready_ok s'" using inv(3) same by (intro ready_ok_set [OF inv(3) same(1) es]) (simp_all add: ready_ok_def)
  moreover have "waves_ok s'" using inv(4) same by (simp add: waves_ok_def)
  moreover have "commit_ok s'" using st es same by (intro commit_ok_update [OF inv(5)]) auto
  ultimately show ?thesis using same(8) by (simp add: sched_inv_def)
qed

lemma waves_ok_trigger:
  assumes "waves_ok s" and "cur_wave s \<noteq> - 1" and "num_txns s' = num_txns s" and "i < num_txns s"
    and "mt s' = (mt s)(i := cur_wave s + 1)" and "rq s' = rq s" and "cur_wave s' = cur_wave s + 1"
  shows "waves_ok s' \<and> (\<forall>j<num_txns s. mt s j \<le> mt s' j) \<and> (\<forall>j. j \<noteq> i \<longrightarrow> mt s' j = mt s j)"
proof -
  have lt: "cur_wave s < cur_wave s + 1" using assms(2) by (rule wave_succ)
  have "waves_ok s'"
    using assms(1,3,5-7) lt by (auto simp: waves_ok_def intro: order_trans [OF _ less_imp_le])
  moreover have "mt s i \<le> cur_wave s + 1"
    using assms(1,4) lt by (auto simp: waves_ok_def intro: order_trans [OF _ less_imp_le])
  ultimately show ?thesis using assms(5) by simp
qed

lemma resumed_iff [simp]:
  "resumed st = Committed k \<longleftrightarrow> st = Committed k"
  "resumed st = Suspended k cv \<longleftrightarrow> False"
  "resumed st = Executed k \<longleftrightarrow> st = Executed k"
  "resumed st = Executing k \<longleftrightarrow> st = Executing k"
  "resumed st = Aborting k \<longleftrightarrow> st = Aborting k"
  "done_status (resumed st) \<longleftrightarrow> done_status st"
  by (cases st; simp)+

lemma sched_inv_finish_execution:
  assumes "sched_inv s" and i: "i < num_txns s" and st: "es s i = Executing inc" and wave: "cur_wave s \<noteq> - 1"
    and spec: "finish_execution_spec s i inc r task s'"
  shows "sched_inv s'"
proof -
  note inv = sched_invD [OF assms(1)] and D = deps_okD [OF sched_invD(2) [OF assms(1)]]
  have es: "es s' = (\<lambda>j. if j = i then Executed inc else if j \<in> set (deps s i) then resumed (es s j) else es s j)"
    and ds: "deps s' = (deps s)(i := [])" and ei: "execution_idx s' = Min (insert (execution_idx s) (set (deps s i)))"
    and same: "num_txns s' = num_txns s" "commit_state s' = commit_state s" "done_marker s' = done_marker s" "well_sized s'"
    using spec by (simp_all add: finish_execution_spec_def)
  have fresh: "i \<notin> set (deps s d)" if "d < num_txns s" for d
    using D(3) [OF that, of i] st by auto
  have "deps_ok s'"
  proof (rule deps_okI, unfold same(1))
    fix d assume d: "d < num_txns s"
    show "distinct (deps s' d)" using D(1) [OF d] ds by simp
    show "deps s' d = []" if "done_status (es s' d)"
      using that D(2) [OF d] ds es by (cases "d = i") (simp_all split: if_splits)
    show "d < j \<and> j < num_txns s \<and> (\<exists>inc cv. es s' j = Suspended inc cv)" if "j \<in> set (deps s' d)" for j
    proof -
      have "d \<noteq> i" and j: "j \<in> set (deps s d)" using that ds by (auto split: if_splits)
      then have "j \<notin> set (deps s i)" "j \<noteq> i" using D(4) [OF d i] fresh [OF d] by auto
      then show ?thesis using D(3) [OF d j] es by simp
    qed
    show "set (deps s' d) \<inter> set (deps s' d') = {}" if "d' < num_txns s" "d \<noteq> d'" for d'
      using D(4) [OF d that] ds by simp
    show "\<exists>k<d. d \<in> set (deps s' k)" if "es s' d = Suspended a b" for a b
    proof -
      have "d \<noteq> i" "d \<notin> set (deps s i)" "es s d = Suspended a b"
        using that es by (auto split: if_splits)
      with D(5) [OF d] obtain k where "k < d" "d \<in> set (deps s k)" "k \<noteq> i" by blast
      with ds show ?thesis by (intro exI [of _ k]) simp
    qed
  qed
  moreover have "ready_ok s'"
  proof -
    have "execution_idx s' \<le> j" if "j < num_txns s" "es s' j = ReadyToExecute a b" for j a b
    proof (cases "j \<in> set (deps s i)")
      case True
      then show ?thesis using ei by simp
    next
      case False
      with that es have "es s j = ReadyToExecute a b" by (simp split: if_splits)
      with inv(3) that(1) have "execution_idx s \<le> j" by (simp add: ready_ok_def)
      then show ?thesis using ei by (simp add: Min_le_iff)
    qed
    moreover have "execution_idx s' \<le> num_txns s" using inv(3) ei by (simp add: ready_ok_def Min_le_iff)
    moreover have "val_idx s' \<le> num_txns s"
      using inv(3) spec i by (auto simp: ready_ok_def finish_execution_spec_def split: if_splits)
    ultimately show ?thesis using same(1) by (simp add: ready_ok_def)
  qed
  moreover have w: "waves_ok s' \<and> (\<forall>j<num_txns s. mt s j \<le> mt s' j) \<and> (\<forall>j. j \<noteq> i \<longrightarrow> mt s' j = mt s j)"
  proof (cases "val_idx s > i \<and> r")
    case True
    with spec have "mt s' = (mt s)(i := cur_wave s + 1)" "rq s' = rq s" "cur_wave s' = cur_wave s + 1"
      by (simp_all add: finish_execution_spec_def)
    from waves_ok_trigger [OF inv(4) wave same(1) i this] show ?thesis .
  next
    case False
    with spec inv(4) i show ?thesis
      by (auto simp: finish_execution_spec_def waves_ok_def split: if_splits)
  qed
  moreover have "commit_ok s'"
  proof -
    have "mt s' j = mt s j" if "es s j = Committed a" for j a using that st w by (cases "j = i") auto
    then show ?thesis using st es w same(1-3) by (intro commit_ok_update [OF inv(5)]) auto
  qed
  ultimately show ?thesis using same(4) by (simp add: sched_inv_def)
qed

lemma sched_inv_finish_abort:
  assumes "sched_inv s" and i: "i < num_txns s" and st: "es s i = Aborting inc" and wave: "cur_wave s \<noteq> - 1"
    and spec: "finish_abort_spec s i inc task s'"
  shows "sched_inv s'"
proof -
  note inv = sched_invD [OF assms(1)]
  obtain st' where es: "es s' = (es s)(i := st')" and st': "st' = Executing (inc + 1) \<and> execution_idx s > i
      \<or> st' = ReadyToExecute (inc + 1) None \<and> execution_idx s \<le> i"
    using spec by (auto simp: finish_abort_spec_def split: if_splits)
  have same: "num_txns s' = num_txns s" "deps s' = deps s" "commit_state s' = commit_state s"
    "done_marker s' = done_marker s" "well_sized s'" "execution_idx s' = execution_idx s"
    using spec by (simp_all add: finish_abort_spec_def)
  have vi: "val_idx s' \<le> num_txns s"
    using inv(3) i spec by (auto simp: ready_ok_def finish_abort_spec_def split: if_splits)
  have "deps_ok s'" using i st st' by (intro deps_ok_set [OF inv(2) same(1,2) es]) auto
  moreover have "ready_ok s'" using vi st' by (intro ready_ok_set [OF inv(3) same(1) es same(6)]) auto
  moreover have w: "waves_ok s' \<and> (\<forall>j<num_txns s. mt s j \<le> mt s' j) \<and> (\<forall>j. j \<noteq> i \<longrightarrow> mt s' j = mt s j)"
  proof (cases "val_idx s > i")
    case True
    with spec have "mt s' = (mt s)(i := cur_wave s + 1)" "rq s' = rq s" "cur_wave s' = cur_wave s + 1"
      by (simp_all add: finish_abort_spec_def)
    from waves_ok_trigger [OF inv(4) wave same(1) i this] show ?thesis .
  next
    case False
    with spec inv(4) i show ?thesis by (auto simp: finish_abort_spec_def waves_ok_def)
  qed
  moreover have "commit_ok s'"
  proof -
    have "mt s' j = mt s j" if "es s j = Committed a" for j a using that st w by (cases "j = i") auto
    then show ?thesis using st st' es w same(1-4) by (intro commit_ok_update [OF inv(5)]) auto
  qed
  ultimately show ?thesis using same(5) by (simp add: sched_inv_def)
qed

lemma sched_inv_try_abort:
  assumes "sched_inv s" and i: "i < num_txns s" and st: "es s i = Executed inc"
  shows "sched_inv (set_exec s i (Aborting inc))"
proof -
  note inv = sched_invD [OF assms(1)]
  let ?s = "set_exec s i (Aborting inc)"
  have es: "es ?s = (es s)(i := Aborting inc)" using in_range [OF inv(1) i] by (simp add: sched_views)
  have "deps_ok ?s" using i st by (intro deps_ok_set [OF inv(2) _ _ es]) (simp_all add: sched_views)
  moreover have "ready_ok ?s"
    using inv(3) by (intro ready_ok_set [OF inv(3) _ es]) (simp_all add: sched_views ready_ok_def)
  moreover have "commit_ok ?s" using st es by (intro commit_ok_update [OF inv(5)]) (auto simp: sched_views)
  ultimately show ?thesis using inv(1,4) by (simp add: sched_inv_def waves_ok_def sched_views)
qed

lemma sched_inv_finish_validation:
  assumes "sched_inv s" and "finish_validation_spec s i w s'"
  shows "sched_inv s'"
  using assms deps_ok_cong [of s' s]
  by (simp add: sched_inv_def finish_validation_spec_def ready_ok_def waves_ok_def commit_ok_def)

lemma sched_inv_try_commit:
  assumes "sched_inv s" and spec: "try_commit_spec l s r s'"
  shows "sched_inv s'"
proof -
  note inv = sched_invD [OF assms(1)]
  obtain c w where c: "commit_state s = (c, w)" by force
  have C: "c \<le> num_txns s" "\<And>i. i < num_txns s \<Longrightarrow> (\<exists>inc. es s i = Committed inc) \<longleftrightarrow> i < c"
    "\<And>k. k < c \<Longrightarrow> mt s k \<le> w" "w = 0 \<or> (\<exists>k<num_txns s. k \<le> c \<and> w \<le> mt s k)"
    "done_marker s \<Longrightarrow> c = num_txns s"
    using inv(5) c by (simp_all add: commit_ok_def)
  let ?w = "max w (mt s c)" and ?s1 = "s\<lparr>commit_state := (c, max w (mt s c))\<rparr>"
  have keep: "sched_inv t" if "deps t = deps s" "es t = es s" "mt t = mt s" "rq t = rq s" "num_txns t = num_txns s"
      "execution_idx t = execution_idx s" "val_idx t = val_idx s" "cur_wave t = cur_wave s" "well_sized t" "commit_ok t" for t
    using that inv deps_ok_cong [of t s] by (simp add: sched_inv_def ready_ok_def waves_ok_def)
  consider (all) "c = num_txns s" "s' = s\<lparr>done_marker := True\<rparr>" | (none) "s' = s"
    | (wave) "c < num_txns s" "s' = ?s1"
    | (commit) inc where "c < num_txns s" "es s c = Executed inc"
        "s' = (set_exec ?s1 c (Committed inc))\<lparr>commit_state := (c + 1, ?w)\<rparr>"
    using spec c C(1) by (auto simp: try_commit_spec_def Let_def split: if_splits)
  then show ?thesis
  proof cases
    case all
    then show ?thesis using inv c C by (intro keep) (simp_all add: sched_views commit_ok_def)
  next
    case none
    with assms(1) show ?thesis by simp
  next
    case wave
    have wmt: "?w = 0 \<or> (\<exists>k<num_txns s. k \<le> c \<and> ?w \<le> mt s k)" using C(4) wave(1) by (auto simp: max_def)
    have "commit_ok ?s1" using wave(1) C(1,2,5) wmt C(3) [THEN order_trans] by (auto simp: commit_ok_def sched_views max_def)
    with wave inv show ?thesis by (intro keep) (simp_all add: sched_views)
  next
    case commit
    let ?s2 = "set_exec ?s1 c (Committed inc)"
    have range: "c < length (txn_status s)" using in_range [OF inv(1) commit(1)] .
    have es: "es s' = (es s)(c := Committed inc)" using commit(3) range by (simp add: sched_views)
    have same: "deps s' = deps s" "mt s' = mt s" "rq s' = rq s" "num_txns s' = num_txns s"
      "execution_idx s' = execution_idx s" "val_idx s' = val_idx s" "cur_wave s' = cur_wave s" "well_sized s'"
      "commit_state s' = (Suc c, ?w)" "done_marker s' = done_marker s"
      using commit(3) inv(1) by (simp_all add: sched_views)
    have "deps_ok s'"
      using commit(1,2) deps_okD(2) [OF inv(2) commit(1)]
      by (intro deps_ok_set [OF inv(2) same(4,1) es]) simp_all
    moreover have "ready_ok s'" using inv(3) same(6) by (intro ready_ok_set [OF inv(3) same(4) es same(5)]) (simp_all add: ready_ok_def)
    moreover have "waves_ok s'" using inv(4) same by (simp add: waves_ok_def)
    moreover have "commit_ok s'"
    proof -
      have "(\<exists>a. es s' i = Committed a) \<longleftrightarrow> i < Suc c" if "i < num_txns s" for i
        using C(2) [OF that] es by (cases "i = c") auto
      moreover have "mt s k \<le> ?w" if "k < Suc c" for k
        using C(3) [of k] that by (cases "k = c") (auto simp: max_def)
      moreover have "?w = 0 \<or> (\<exists>k<num_txns s. k \<le> Suc c \<and> ?w \<le> mt s k)"
        using C(4) commit(1) by (auto simp: max_def intro: le_SucI)
      moreover have "\<not> done_marker s" using C(5) commit(1) by auto
      ultimately show ?thesis using same commit(1) by (simp add: commit_ok_def)
    qed
    ultimately show ?thesis using same(8) by (simp add: sched_inv_def)
  qed
qed

end
