(* ===== verification/SchedulerSystem.thy ===== *)
theory SchedulerSystem
  imports SchedulerInv
begin

text \<open>
  The worker threads of the block executor on the shared scheduler: the loop of
  \<^verbatim>\<open>work_task_with_scope\<close> and the scheduler calls of \<^verbatim>\<open>execute\<close> and \<^verbatim>\<open>validate\<close>
  (\<^verbatim>\<open>language/block-executor/src/executor.rs\<close>), and the wait on a read dependency in \<^verbatim>\<open>MVHashMapView::read\<close>
  (\<^verbatim>\<open>view.rs\<close>). What a transaction reads and writes is left open: a running transaction may meet a
  dependency on any lower transaction, may or may not write outside its previous write set, and a
  validation may succeed or fail. The steps of different workers interleave freely. The wave
  counter is assumed not to reach its maximum.
\<close>

section \<open>Workers and their steps\<close>

text \<open>
  \<open>Blocked i inc cv\<close> waits on the condition variable; \<open>AbortingTxn i inc\<close> has aborted the version and
  marks its writes as estimates; \<open>Notifying cv\<close> has taken the task of a suspended execution.
\<close>

datatype worker =
    Idle
  | Running nat nat
  | Blocked nat nat condvar
  | Validating nat nat wave
  | AbortingTxn nat nat
  | Notifying condvar
  | Finished

record world =
  sched :: scheduler
  condvars :: "bool list"
  workers :: "worker list"

fun dispatch :: "scheduler_task \<Rightarrow> worker" where
  "dispatch (ExecutionTask (i, inc) None) = Running i inc"
| "dispatch (ExecutionTask (i, inc) (Some cv)) = Notifying cv"
| "dispatch (ValidationTask (i, inc) w) = Validating i inc w"
| "dispatch NoTask = Idle"
| "dispatch Done = Finished"

definition set_worker :: "world \<Rightarrow> nat \<Rightarrow> worker \<Rightarrow> world" where
  "set_worker w t x = w\<lparr>workers := (workers w)[t := x]\<rparr>"

inductive world_step :: "world \<Rightarrow> world \<Rightarrow> bool" where
  ws_next: "t < length (workers w) \<Longrightarrow> workers w ! t = Idle \<Longrightarrow> next_task c (sched w) = Some (task, s') \<Longrightarrow>
    world_step w (set_worker (w\<lparr>sched := s'\<rparr>) t (dispatch task))"
| ws_notify: "t < length (workers w) \<Longrightarrow> workers w ! t = Notifying cv \<Longrightarrow>
    world_step w (set_worker (w\<lparr>condvars := (condvars w)[cv := True]\<rparr>) t Idle)"
| ws_wait: "t < length (workers w) \<Longrightarrow> workers w ! t = Running i inc \<Longrightarrow> dep < i \<Longrightarrow>
    wait_for_dependency (sched w) (condvars w) i dep = Ret (r, cvs', s') \<Longrightarrow>
    world_step w (set_worker (w\<lparr>sched := s', condvars := cvs'\<rparr>) t
      (case r of None \<Rightarrow> Running i inc | Some cv \<Rightarrow> Blocked i inc cv))"
| ws_wake: "t < length (workers w) \<Longrightarrow> workers w ! t = Blocked i inc cv \<Longrightarrow> condvars w ! cv \<Longrightarrow>
    world_step w (set_worker w t (Running i inc))"
| ws_finish: "t < length (workers w) \<Longrightarrow> workers w ! t = Running i inc \<Longrightarrow> cur_wave (sched w) \<noteq> - 1 \<Longrightarrow>
    finish_execution (sched w) i inc revalidate = Ret (task, s') \<Longrightarrow>
    world_step w (set_worker (w\<lparr>sched := s'\<rparr>) t (dispatch task))"
| ws_valid: "t < length (workers w) \<Longrightarrow> workers w ! t = Validating i inc v \<Longrightarrow>
    finish_validation (sched w) i v = Ret s' \<Longrightarrow>
    world_step w (set_worker (w\<lparr>sched := s'\<rparr>) t Idle)"
| ws_abort: "t < length (workers w) \<Longrightarrow> workers w ! t = Validating i inc v \<Longrightarrow>
    try_abort (sched w) i inc = Ret (True, s') \<Longrightarrow>
    world_step w (set_worker (w\<lparr>sched := s'\<rparr>) t (AbortingTxn i inc))"
| ws_abort_lost: "t < length (workers w) \<Longrightarrow> workers w ! t = Validating i inc v \<Longrightarrow>
    try_abort (sched w) i inc = Ret (False, s1) \<Longrightarrow> finish_validation s1 i v = Ret s' \<Longrightarrow>
    world_step w (set_worker (w\<lparr>sched := s'\<rparr>) t Idle)"
| ws_aborted: "t < length (workers w) \<Longrightarrow> workers w ! t = AbortingTxn i inc \<Longrightarrow> cur_wave (sched w) \<noteq> - 1 \<Longrightarrow>
    finish_abort (sched w) i inc = Ret (task, s') \<Longrightarrow>
    world_step w (set_worker (w\<lparr>sched := s'\<rparr>) t (dispatch task))"
| ws_commit: "try_commit a b (sched w) = Ret (r, s') \<Longrightarrow> world_step w (w\<lparr>sched := s'\<rparr>)"

definition world_init :: "nat \<Rightarrow> nat \<Rightarrow> world" where
  "world_init n m = \<lparr>sched = scheduler_new n, condvars = [], workers = replicate m Idle\<rparr>"

section \<open>The invariant\<close>

text \<open>Which worker works on which transaction.\<close>

fun owns :: "worker \<Rightarrow> nat option" where
  "owns (Running i _) = Some i"
| "owns (Blocked i _ _) = Some i"
| "owns (AbortingTxn i _) = Some i"
| "owns _ = None"

fun needs_owner :: "execution_status \<Rightarrow> bool" where
  "needs_owner (ReadyToExecute _ cv) \<longleftrightarrow> cv \<noteq> None"
| "needs_owner (Executing _) = True"
| "needs_owner (Suspended _ _) = True"
| "needs_owner (Aborting _) = True"
| "needs_owner _ = False"

text \<open>
  The states of a transaction and of its worker that fit together, where \<open>pend cv\<close> says that a
  notification of the condition variable is pending and \<open>res cv\<close> that it was sent.
\<close>

fun fits :: "(condvar \<Rightarrow> bool) \<Rightarrow> (condvar \<Rightarrow> bool) \<Rightarrow> execution_status \<Rightarrow> worker \<Rightarrow> bool" where
  "fits res pend (Executing inc) (Running _ inc') \<longleftrightarrow> inc' = inc"
| "fits res pend (Executing inc) (Blocked _ inc' cv) \<longleftrightarrow> inc' = inc \<and> (res cv \<longleftrightarrow> \<not> pend cv)"
| "fits res pend (Suspended inc cv) (Blocked _ inc' cv') \<longleftrightarrow> inc' = inc \<and> cv' = cv \<and> \<not> res cv \<and> \<not> pend cv"
| "fits res pend (ReadyToExecute inc (Some cv)) (Blocked _ inc' cv') \<longleftrightarrow> inc' = inc \<and> cv' = cv \<and> \<not> res cv \<and> \<not> pend cv"
| "fits res pend (Aborting inc) (AbortingTxn _ inc') \<longleftrightarrow> inc' = inc"
| "fits res pend _ _ = False"

definition pending :: "worker list \<Rightarrow> condvar \<Rightarrow> bool" where
  "pending ws cv \<longleftrightarrow> Notifying cv \<in> set ws"

definition owners_ok :: "scheduler \<Rightarrow> bool list \<Rightarrow> worker list \<Rightarrow> bool" where
  "owners_ok s cvs ws \<longleftrightarrow>
     (\<forall>t<length ws. \<forall>i. owns (ws ! t) = Some i \<longrightarrow>
        i < num_txns s \<and> fits ((!) cvs) (pending ws) (es s i) (ws ! t)) \<and>
     (\<forall>t<length ws. \<forall>t'<length ws. owns (ws ! t) \<noteq> None \<longrightarrow> owns (ws ! t) = owns (ws ! t') \<longrightarrow> t = t') \<and>
     (\<forall>i<num_txns s. needs_owner (es s i) \<longrightarrow> (\<exists>t<length ws. owns (ws ! t) = Some i))"

definition condvars_ok :: "bool list \<Rightarrow> worker list \<Rightarrow> bool" where
  "condvars_ok cvs ws \<longleftrightarrow>
     (\<forall>t<length ws. \<forall>i inc cv. ws ! t = Blocked i inc cv \<longrightarrow> cv < length cvs) \<and>
     (\<forall>t<length ws. \<forall>t'<length ws. \<forall>i inc j inc' cv.
        ws ! t = Blocked i inc cv \<longrightarrow> ws ! t' = Blocked j inc' cv \<longrightarrow> t = t') \<and>
     (\<forall>t<length ws. \<forall>cv. ws ! t = Notifying cv \<longrightarrow> cv < length cvs) \<and>
     (\<forall>t<length ws. \<forall>t'<length ws. \<forall>cv. ws ! t = Notifying cv \<longrightarrow> ws ! t' = Notifying cv \<longrightarrow> t = t')"

definition validators_ok :: "scheduler \<Rightarrow> worker list \<Rightarrow> bool" where
  "validators_ok s ws \<longleftrightarrow> (\<forall>i inc v. Validating i inc v \<in> set ws \<longrightarrow> i < num_txns s)"

text \<open>A wave that suffices to commit transaction \<open>i\<close>.\<close>

definition covers :: "scheduler \<Rightarrow> nat \<Rightarrow> wave \<Rightarrow> bool" where
  "covers s i v \<longleftrightarrow> (\<forall>k\<le>i. mt s k \<le> v) \<and> rq s i \<le> v"

definition valid_ok :: "scheduler \<Rightarrow> worker list \<Rightarrow> bool" where
  "valid_ok s ws \<longleftrightarrow> (\<forall>i<num_txns s. \<forall>inc. es s i = Executed inc \<longrightarrow>
     val_idx s \<le> i \<or> (\<exists>v. covers s i v \<and> (mvw s i = Some v \<or> Validating i inc v \<in> set ws)))"

text \<open>Workers that can take up tasks, and workers that execute.\<close>

fun free :: "worker \<Rightarrow> bool" where
  "free Idle = True"
| "free (Validating _ _ _) = True"
| "free (AbortingTxn _ _) = True"
| "free (Notifying _) = True"
| "free _ = False"

fun runs :: "bool list \<Rightarrow> worker \<Rightarrow> nat \<Rightarrow> bool" where
  "runs cvs (Running i _) j \<longleftrightarrow> j = i"
| "runs cvs (Blocked i _ cv) j \<longleftrightarrow> j = i \<and> cvs ! cv"
| "runs cvs _ j = False"

definition awake :: "bool list \<Rightarrow> worker list \<Rightarrow> nat \<Rightarrow> bool" where
  "awake cvs ws d \<longleftrightarrow> (\<exists>t<length ws. free (ws ! t) \<or> (\<exists>j\<le>d. runs cvs (ws ! t) j))"

definition awake_ok :: "scheduler \<Rightarrow> bool list \<Rightarrow> worker list \<Rightarrow> bool" where
  "awake_ok s cvs ws \<longleftrightarrow> (\<forall>d<num_txns s. \<forall>inc cv. es s d = ReadyToExecute inc cv \<longrightarrow> awake cvs ws d)"

definition finished_ok :: "scheduler \<Rightarrow> worker list \<Rightarrow> bool" where
  "finished_ok s ws \<longleftrightarrow> (Finished \<in> set ws \<longrightarrow> done_marker s)"

definition world_inv :: "world \<Rightarrow> bool" where
  "world_inv w \<longleftrightarrow> sched_inv (sched w) \<and> owners_ok (sched w) (condvars w) (workers w) \<and>
     condvars_ok (condvars w) (workers w) \<and> validators_ok (sched w) (workers w) \<and>
     valid_ok (sched w) (workers w) \<and> awake_ok (sched w) (condvars w) (workers w) \<and>
     finished_ok (sched w) (workers w) \<and> workers w \<noteq> []"

lemma world_invD:
  assumes "world_inv w"
  shows "sched_inv (sched w)" "owners_ok (sched w) (condvars w) (workers w)"
    "condvars_ok (condvars w) (workers w)" "validators_ok (sched w) (workers w)"
    "valid_ok (sched w) (workers w)" "awake_ok (sched w) (condvars w) (workers w)"
    "finished_ok (sched w) (workers w)" "workers w \<noteq> []"
  using assms by (simp_all add: world_inv_def)

lemma world_inv_init:
  assumes "n < 2 ^ 32" and "0 < m"
  shows "world_inv (world_init n m)"
proof -
  have "es (scheduler_new n) i = ReadyToExecute 0 None" if "i < n" for i
    using that by (simp add: scheduler_new_def es_def)
  then show ?thesis
    using assms sched_inv_new [OF assms(1)]
    by (auto simp: world_inv_def world_init_def owners_ok_def condvars_ok_def validators_ok_def valid_ok_def
        awake_ok_def awake_def finished_ok_def scheduler_new_def)
qed

section \<open>Owners\<close>

lemma in_set_update: "y \<in> set ws \<Longrightarrow> y \<noteq> ws ! t \<Longrightarrow> y \<in> set (ws[t := x])"
  by (metis in_set_conv_nth length_list_update nth_list_update_neq)

lemma in_set_updateD: "y \<in> set (ws[t := x]) \<Longrightarrow> y = x \<or> y \<in> set ws"
  using set_update_subset_insert by fastforce

lemma updated_in_set: "t < length ws \<Longrightarrow> x \<in> set (ws[t := x])"
  by (rule set_update_memI)

lemma pending_update:
  assumes "t < length ws" and "\<And>cv. ws ! t \<noteq> Notifying cv"
  shows "pending (ws[t := x]) cv \<longleftrightarrow> pending ws cv \<or> x = Notifying cv"
  using in_set_updateD [of "Notifying cv" ws t x] in_set_update [of "Notifying cv" ws t x]
    updated_in_set [OF assms(1), of x] assms(2) [of cv]
  by (auto simp: pending_def)

lemma owners_okD:
  assumes "owners_ok s cvs ws"
  shows "t < length ws \<Longrightarrow> owns (ws ! t) = Some i \<Longrightarrow> i < num_txns s"
    and "t < length ws \<Longrightarrow> owns (ws ! t) = Some i \<Longrightarrow> fits ((!) cvs) (pending ws) (es s i) (ws ! t)"
    and "t < length ws \<Longrightarrow> t' < length ws \<Longrightarrow> owns (ws ! t) = Some i \<Longrightarrow> owns (ws ! t') = Some i \<Longrightarrow> t = t'"
    and "i < num_txns s \<Longrightarrow> needs_owner (es s i) \<Longrightarrow> \<exists>t<length ws. owns (ws ! t) = Some i"
proof -
  note A = assms [unfolded owners_ok_def]
  show "t < length ws \<Longrightarrow> owns (ws ! t) = Some i \<Longrightarrow> i < num_txns s"
    and "t < length ws \<Longrightarrow> owns (ws ! t) = Some i \<Longrightarrow> fits ((!) cvs) (pending ws) (es s i) (ws ! t)"
    using A by blast+
  show "t = t'" if "t < length ws" "t' < length ws" "owns (ws ! t) = Some i" "owns (ws ! t') = Some i"
  proof -
    have "owns (ws ! t) \<noteq> None" "owns (ws ! t) = owns (ws ! t')" using that by simp_all
    with A that(1,2) show ?thesis by blast
  qed
  show "i < num_txns s \<Longrightarrow> needs_owner (es s i) \<Longrightarrow> \<exists>t<length ws. owns (ws ! t) = Some i"
    using A by blast
qed

lemma owners_okI:
  assumes "\<And>t i. t < length ws \<Longrightarrow> owns (ws ! t) = Some i \<Longrightarrow>
        i < num_txns s \<and> fits ((!) cvs) (pending ws) (es s i) (ws ! t)"
    and "\<And>t t' i. t < length ws \<Longrightarrow> t' < length ws \<Longrightarrow> owns (ws ! t) = Some i \<Longrightarrow> owns (ws ! t') = Some i \<Longrightarrow> t = t'"
    and "\<And>i. i < num_txns s \<Longrightarrow> needs_owner (es s i) \<Longrightarrow> \<exists>t<length ws. owns (ws ! t) = Some i"
  shows "owners_ok s cvs ws"
proof -
  have "t = t'" if "t < length ws" "t' < length ws" "owns (ws ! t) \<noteq> None" "owns (ws ! t) = owns (ws ! t')" for t t'
  proof -
    from that(3) obtain i where "owns (ws ! t) = Some i" by blast
    with assms(2) [OF that(1,2), of i] that(4) show ?thesis by auto
  qed
  with assms(1,3) show ?thesis unfolding owners_ok_def by blast
qed

lemma fits_cong:
  assumes "\<And>i inc cv. w = Blocked i inc cv \<Longrightarrow> res' cv = res cv \<and> pend' cv = pend cv"
  shows "fits res' pend' st w \<longleftrightarrow> fits res pend st w"
proof (cases w)
  case (Blocked i inc cv)
  with assms have "res' cv = res cv" "pend' cv = pend cv" by simp_all
  with Blocked show ?thesis by (cases st rule: execution_status.exhaust; cases "case st of ReadyToExecute _ c \<Rightarrow> c") auto
qed (cases st; simp)+

text \<open>A step of worker \<open>t\<close> on the statuses: what has to be checked.\<close>

lemma owners_ok_step:
  assumes own: "owners_ok s cvs ws" and t: "t < length ws" and n: "num_txns s' = num_txns s"
    and mine: "\<And>j. owns x = Some j \<Longrightarrow>
      j < num_txns s \<and> fits ((!) cvs') (pending (ws[t := x])) (es s' j) x
      \<and> (owns (ws ! t) = Some j \<or> (\<forall>t'<length ws. owns (ws ! t') \<noteq> Some j))"
    and others: "\<And>t' j. t' < length ws \<Longrightarrow> t' \<noteq> t \<Longrightarrow> owns (ws ! t') = Some j \<Longrightarrow>
      fits ((!) cvs) (pending ws) (es s j) (ws ! t') \<Longrightarrow> fits ((!) cvs') (pending (ws[t := x])) (es s' j) (ws ! t')"
    and needed: "\<And>j. j < num_txns s \<Longrightarrow> needs_owner (es s' j) \<Longrightarrow>
      owns x = Some j \<or> needs_owner (es s j) \<and> owns (ws ! t) \<noteq> Some j"
  shows "owners_ok s' cvs' (ws[t := x])"
proof (rule owners_okI)
  note D = owners_okD [OF own]
  fix u j assume u: "u < length (ws[t := x])" and o: "owns (ws[t := x] ! u) = Some j"
  show "j < num_txns s' \<and> fits ((!) cvs') (pending (ws[t := x])) (es s' j) (ws[t := x] ! u)"
  proof (cases "u = t")
    case True
    with mine [of j] o t n show ?thesis by simp
  next
    case False
    with u o have "u < length ws" "owns (ws ! u) = Some j" by simp_all
    with D(1,2) [of u j] others [of u j] False n show ?thesis by simp
  qed
  fix u' assume u': "u' < length (ws[t := x])" and o': "owns (ws[t := x] ! u') = Some j"
  show "u = u'"
  proof (cases "u = t")
    case True
    then have "owns x = Some j" using o t by simp
    with mine [of j] have "owns (ws ! t) = Some j \<or> (\<forall>t'<length ws. owns (ws ! t') \<noteq> Some j)" by blast
    with True u' o' t D(3) [of t u' j] show ?thesis by (cases "u' = t") auto
  next
    case False
    then have ou: "owns (ws ! u) = Some j" "u < length ws" using o u by simp_all
    show ?thesis
    proof (cases "u' = t")
      case True
      then have "owns x = Some j" using o' t by simp
      with mine [of j] have "owns (ws ! t) = Some j \<or> (\<forall>t'<length ws. owns (ws ! t') \<noteq> Some j)" by blast
      with ou D(3) [of t u j] t True show ?thesis by auto
    next
      case u't: False
      with o' u' ou D(3) [of u u' j] show ?thesis by simp
    qed
  qed
next
  fix j assume "j < num_txns s'" "needs_owner (es s' j)"
  then consider "owns x = Some j" | "needs_owner (es s j)" "owns (ws ! t) \<noteq> Some j" "j < num_txns s"
    using needed [of j] n by auto
  then show "\<exists>u<length (ws[t := x]). owns (ws[t := x] ! u) = Some j"
  proof cases
    case 1
    with t show ?thesis by (intro exI [of _ t]) simp
  next
    case 2
    with owners_okD(4) [OF own, of j] obtain u where "u < length ws" "owns (ws ! u) = Some j" by blast
    with 2 show ?thesis by (intro exI [of _ u]) (cases "u = t", auto)
  qed
qed

text \<open>The step leaves the other workers alone when it touches neither their status nor their condition variable.\<close>

lemma fits_frame:
  assumes "fits res pend (es s j) w" and "es s' j = es s j"
    and "\<And>i inc cv. w = Blocked i inc cv \<Longrightarrow> res' cv = res cv \<and> pend' cv = pend cv"
  shows "fits res' pend' (es s' j) w"
  using assms fits_cong [of w res' res pend' pend] by simp

lemma pending_same:
  assumes "t < length ws" and "\<And>cv. ws ! t \<noteq> Notifying cv" and "\<And>cv. x \<noteq> Notifying cv"
  shows "pending (ws[t := x]) = pending ws"
  using pending_update [OF assms(1,2)] assms(3) by (auto simp: fun_eq_iff)

lemma not_owned:
  assumes "owners_ok s cvs ws" and "\<And>w. \<not> fits ((!) cvs) (pending ws) (es s i) w"
  shows "\<forall>t<length ws. owns (ws ! t) \<noteq> Some i"
  using owners_okD(2) [OF assms(1)] assms(2) by blast

lemma fits_unowned:
  "\<not> fits res pend (ReadyToExecute inc None) w" "\<not> fits res pend (Executed inc) w" "\<not> fits res pend (Committed inc) w"
  by (cases w; simp)+

lemma owners_neutral:
  assumes "owners_ok s cvs ws" and "t < length ws" and "num_txns s' = num_txns s" and "es s' = es s"
    and "owns (ws ! t) = None" and "\<And>cv. ws ! t \<noteq> Notifying cv" and "owns x = None" and "\<And>cv. x \<noteq> Notifying cv"
  shows "owners_ok s' cvs (ws[t := x])"
  using assms pending_same [OF assms(2,6,8)]
  by (intro owners_ok_step [OF assms(1,2,3)]) simp_all

lemma owners_execute:
  assumes own: "owners_ok s cvs ws" and t: "t < length ws" "ws ! t = Idle" and n: "num_txns s' = num_txns s"
    and i: "i < num_txns s" "es s i = ReadyToExecute inc None" and es: "es s' = (es s)(i := Executing inc)"
  shows "owners_ok s' cvs (ws[t := Running i inc])"
proof (rule owners_ok_step [OF own t(1) n])
  have pend: "pending (ws[t := Running i inc]) = pending ws" using t by (intro pending_same) simp_all
  have free: "\<forall>t'<length ws. owns (ws ! t') \<noteq> Some i" using i(2) fits_unowned(1) by (intro not_owned [OF own]) simp
  show "j < num_txns s \<and> fits ((!) cvs) (pending (ws[t := Running i inc])) (es s' j) (Running i inc) \<and>
      (owns (ws ! t) = Some j \<or> (\<forall>t'<length ws. owns (ws ! t') \<noteq> Some j))" if "owns (Running i inc) = Some j" for j
    using that i(1) es free by simp
  show "fits ((!) cvs) (pending (ws[t := Running i inc])) (es s' j) (ws ! t')"
    if "t' < length ws" "owns (ws ! t') = Some j" "fits ((!) cvs) (pending ws) (es s j) (ws ! t')" for t' j
    using that free es pend by (intro fits_frame [OF that(3)]) auto
  show "owns (Running i inc) = Some j \<or> needs_owner (es s j) \<and> owns (ws ! t) \<noteq> Some j"
    if "needs_owner (es s' j)" for j
    using that es t by (cases "j = i") simp_all
qed

lemma owners_take_suspended:
  assumes own: "owners_ok s cvs ws" and cv_ok: "condvars_ok cvs ws" and t: "t < length ws" "ws ! t = Idle"
    and n: "num_txns s' = num_txns s"
    and i: "i < num_txns s" "es s i = ReadyToExecute inc (Some cv)" and es: "es s' = (es s)(i := Executing inc)"
  shows "owners_ok s' cvs (ws[t := Notifying cv])"
proof (rule owners_ok_step [OF own t(1) n])
  have pend: "pending (ws[t := Notifying cv]) c \<longleftrightarrow> pending ws c \<or> c = cv" for c
    using pending_update [OF t(1), of "Notifying cv"] t(2) by auto
  obtain u where u: "u < length ws" "owns (ws ! u) = Some i" using owners_okD(4) [OF own i(1)] i(2) by auto
  with owners_okD(2) [OF own u] i(2) have wu: "ws ! u = Blocked i inc cv" "\<not> cvs ! cv" "\<not> pending ws cv"
    by (cases "ws ! u"; auto)+
  show "fits ((!) cvs) (pending (ws[t := Notifying cv])) (es s' j) (ws ! t')"
    if t': "t' < length ws" "owns (ws ! t') = Some j" "fits ((!) cvs) (pending ws) (es s j) (ws ! t')" for t' j
  proof (cases "j = i")
    case True
    then have "t' = u" using owners_okD(3) [OF own t'(1) u(1)] t'(2) u(2) by blast
    with wu es True pend show ?thesis by simp
  next
    case False
    have "c \<noteq> cv" if "ws ! t' = Blocked k a c" for k a c
      using that cv_ok wu(1) u t'(1,2) False unfolding condvars_ok_def by (metis owns.simps(2) option.inject)
    with False es pend show ?thesis by (intro fits_frame [OF t'(3)]) auto
  qed
  show "owns (Notifying cv) = Some j \<or> needs_owner (es s j) \<and> owns (ws ! t) \<noteq> Some j"
    if "needs_owner (es s' j)" for j
    using that es t i(2) by (cases "j = i") simp_all
qed simp

lemma condvars_okD:
  assumes "condvars_ok cvs ws"
  shows "t < length ws \<Longrightarrow> ws ! t = Blocked i inc cv \<Longrightarrow> cv < length cvs"
    and "t < length ws \<Longrightarrow> t' < length ws \<Longrightarrow> ws ! t = Blocked i inc cv \<Longrightarrow> ws ! t' = Blocked j inc' cv \<Longrightarrow> t = t'"
    and "t < length ws \<Longrightarrow> ws ! t = Notifying cv \<Longrightarrow> cv < length cvs"
    and "t < length ws \<Longrightarrow> t' < length ws \<Longrightarrow> ws ! t = Notifying cv \<Longrightarrow> ws ! t' = Notifying cv \<Longrightarrow> t = t'"
proof -
  note A = assms [unfolded condvars_ok_def]
  show "t < length ws \<Longrightarrow> ws ! t = Blocked i inc cv \<Longrightarrow> cv < length cvs"
    using A [THEN conjunct1] by blast
  show "t < length ws \<Longrightarrow> t' < length ws \<Longrightarrow> ws ! t = Blocked i inc cv \<Longrightarrow> ws ! t' = Blocked j inc' cv \<Longrightarrow> t = t'"
    using A [THEN conjunct2, THEN conjunct1] by blast
  show "t < length ws \<Longrightarrow> ws ! t = Notifying cv \<Longrightarrow> cv < length cvs"
    using A [THEN conjunct2, THEN conjunct2, THEN conjunct1] by blast
  show "t < length ws \<Longrightarrow> t' < length ws \<Longrightarrow> ws ! t = Notifying cv \<Longrightarrow> ws ! t' = Notifying cv \<Longrightarrow> t = t'"
    using A [THEN conjunct2, THEN conjunct2, THEN conjunct2] by blast
qed

lemma pending_iff: "pending ws cv \<longleftrightarrow> (\<exists>t<length ws. ws ! t = Notifying cv)"
  by (auto simp: pending_def in_set_conv_nth)

lemma owners_notify:
  assumes own: "owners_ok s cvs ws" and cv_ok: "condvars_ok cvs ws" and t: "t < length ws" "ws ! t = Notifying cv"
  shows "owners_ok s (cvs[cv := True]) (ws[t := Idle])"
proof (rule owners_ok_step [OF own t(1) refl])
  have cv: "cv < length cvs" "pending ws cv" using condvars_okD(3) [OF cv_ok t] t by (auto simp: pending_iff)
  have pend: "pending (ws[t := Idle]) c \<longleftrightarrow> pending ws c \<and> c \<noteq> cv" for c
  proof
    assume "pending (ws[t := Idle]) c"
    then obtain u where u: "u < length ws" "ws[t := Idle] ! u = Notifying c" by (auto simp: pending_iff)
    then have u: "u < length ws" "u \<noteq> t" "ws ! u = Notifying c" by (cases "u = t"; simp)+
    then show "pending ws c \<and> c \<noteq> cv"
      using condvars_okD(4) [OF cv_ok t(1) u(1) t(2)] by (auto simp: pending_iff)
  next
    assume "pending ws c \<and> c \<noteq> cv"
    then show "pending (ws[t := Idle]) c" using t(2) in_set_update [of "Notifying c" ws t Idle] by (simp add: pending_def)
  qed
  show "fits ((!) (cvs[cv := True])) (pending (ws[t := Idle])) (es s j) (ws ! t')"
    if t': "t' < length ws" "owns (ws ! t') = Some j" "fits ((!) cvs) (pending ws) (es s j) (ws ! t')" for t' j
  proof (cases "\<exists>k a. ws ! t' = Blocked k a cv")
    case True
    then obtain k a where "ws ! t' = Blocked k a cv" by blast
    with t'(3) cv pend show ?thesis by (cases "es s j"; cases "case es s j of ReadyToExecute _ c \<Rightarrow> c") auto
  next
    case False
    then show ?thesis by (intro fits_frame [OF t'(3)]) (auto simp: pend nth_list_update)
  qed
  show "owns Idle = Some j \<or> needs_owner (es s j) \<and> owns (ws ! t) \<noteq> Some j" if "needs_owner (es s j)" for j
    using that t by simp
qed simp

lemma owners_wait:
  assumes own: "owners_ok s cvs ws" and cv_ok: "condvars_ok cvs ws" and t: "t < length ws" "ws ! t = Running i inc"
    and n: "num_txns s' = num_txns s" and es: "es s' = (es s)(i := Suspended inc (length cvs))"
  shows "owners_ok s' (cvs @ [False]) (ws[t := Blocked i inc (length cvs)])"
proof (rule owners_ok_step [OF own t(1) n])
  let ?x = "Blocked i inc (length cvs)"
  have pend: "pending (ws[t := ?x]) = pending ws" using t by (intro pending_same) simp_all
  have fresh: "\<not> pending ws (length cvs)" using condvars_okD(3) [OF cv_ok] by (auto simp: pending_iff)
  show "j < num_txns s \<and> fits ((!) (cvs @ [False])) (pending (ws[t := ?x])) (es s' j) ?x \<and>
      (owns (ws ! t) = Some j \<or> (\<forall>t'<length ws. owns (ws ! t') \<noteq> Some j))" if "owns ?x = Some j" for j
    using that t es fresh pend owners_okD(1) [OF own t(1)] by simp
  show "fits ((!) (cvs @ [False])) (pending (ws[t := ?x])) (es s' j) (ws ! t')"
    if t': "t' < length ws" "t' \<noteq> t" "owns (ws ! t') = Some j" "fits ((!) cvs) (pending ws) (es s j) (ws ! t')" for t' j
  proof -
    have "j \<noteq> i" using owners_okD(3) [OF own t'(1) t(1)] t'(2,3) t(2) by auto
    with es pend show ?thesis
      using condvars_okD(1) [OF cv_ok t'(1)] by (intro fits_frame [OF t'(4)]) (auto simp: nth_append)
  qed
  show "owns ?x = Some j \<or> needs_owner (es s j) \<and> owns (ws ! t) \<noteq> Some j" if "needs_owner (es s' j)" for j
    using that es t by (cases "j = i") simp_all
qed

lemma owners_extend:
  assumes "owners_ok s cvs ws" and "condvars_ok cvs ws"
  shows "owners_ok s (cvs @ bs) ws"
proof (rule owners_okI)
  note D = owners_okD [OF assms(1)]
  fix t i assume t: "t < length ws" and o: "owns (ws ! t) = Some i"
  show "i < num_txns s \<and> fits ((!) (cvs @ bs)) (pending ws) (es s i) (ws ! t)"
    using D(1) [OF t o] condvars_okD(1) [OF assms(2) t]
    by (auto intro!: fits_frame [OF D(2) [OF t o]] simp: nth_append)
  show "t = t'" if "t' < length ws" "owns (ws ! t') = Some i" for t' using D(3) [OF t that(1) o that(2)] .
next
  show "\<exists>t<length ws. owns (ws ! t) = Some i" if "i < num_txns s" "needs_owner (es s i)" for i
    using owners_okD(4) [OF assms(1) that] .
qed

lemma owners_wake:
  assumes own: "owners_ok s cvs ws" and t: "t < length ws" "ws ! t = Blocked i inc cv" and "cvs ! cv"
  shows "owners_ok s cvs (ws[t := Running i inc])" and "es s i = Executing inc"
proof -
  have o: "owns (ws ! t) = Some i" using t(2) by simp
  from owners_okD(2) [OF own t(1) o] t(2) assms(4) show ex: "es s i = Executing inc"
    by (cases "es s i"; cases "case es s i of ReadyToExecute _ c \<Rightarrow> c") auto
  show "owners_ok s cvs (ws[t := Running i inc])"
  proof (rule owners_ok_step [OF own t(1) refl])
    have pend: "pending (ws[t := Running i inc]) = pending ws" using t by (intro pending_same) simp_all
    show "j < num_txns s \<and> fits ((!) cvs) (pending (ws[t := Running i inc])) (es s j) (Running i inc) \<and>
        (owns (ws ! t) = Some j \<or> (\<forall>t'<length ws. owns (ws ! t') \<noteq> Some j))" if "owns (Running i inc) = Some j" for j
      using that ex o owners_okD(1) [OF own t(1) o] by simp
    show "fits ((!) cvs) (pending (ws[t := Running i inc])) (es s j) (ws ! t')"
      if "fits ((!) cvs) (pending ws) (es s j) (ws ! t')" for t' j
      using that pend by simp
    show "owns (Running i inc) = Some j \<or> needs_owner (es s j) \<and> owns (ws ! t) \<noteq> Some j" if "needs_owner (es s j)" for j
      using that o by auto
  qed
qed

text \<open>A worker gives up or changes its own transaction; other transactions are at most resumed.\<close>

lemma needs_owner_resumed [simp]: "needs_owner (resumed st) \<longleftrightarrow> needs_owner st"
  by (cases st) simp_all

lemma fits_resumed:
  "fits res pend st w \<Longrightarrow> (\<exists>inc cv. st = Suspended inc cv) \<Longrightarrow> fits res pend (resumed st) w"
  by (cases w) auto

lemma owners_finish:
  assumes own: "owners_ok s cvs ws" and t: "t < length ws" "ws ! t = Running i inc" and n: "num_txns s' = num_txns s"
    and es: "es s' = (\<lambda>j. if j = i then Executed inc else if j \<in> D then resumed (es s j) else es s j)"
    and D: "\<And>j. j \<in> D \<Longrightarrow> \<exists>a cv. es s j = Suspended a cv"
    and x: "owns x = None" "\<And>cv. x \<noteq> Notifying cv"
  shows "owners_ok s' cvs (ws[t := x])"
proof (rule owners_ok_step [OF own t(1) n])
  have pend: "pending (ws[t := x]) = pending ws" using t x by (intro pending_same) simp_all
  show "fits ((!) cvs) (pending (ws[t := x])) (es s' j) (ws ! t')"
    if t': "t' < length ws" "t' \<noteq> t" "owns (ws ! t') = Some j" "fits ((!) cvs) (pending ws) (es s j) (ws ! t')" for t' j
  proof -
    have "j \<noteq> i" using owners_okD(3) [OF own t'(1) t(1)] t'(2,3) t(2) by auto
    then show ?thesis using es pend t'(4) fits_resumed [OF t'(4)] D by simp
  qed
  show "owns x = Some j \<or> needs_owner (es s j) \<and> owns (ws ! t) \<noteq> Some j" if "needs_owner (es s' j)" for j
    using that es t D by (cases "j = i"; cases "j \<in> D") auto
qed (use x in simp)

lemma owners_abort:
  assumes own: "owners_ok s cvs ws" and t: "t < length ws" "ws ! t = Validating i inc v" and n: "num_txns s' = num_txns s"
    and i: "i < num_txns s" "es s i = Executed inc" and es: "es s' = (es s)(i := Aborting inc)"
  shows "owners_ok s' cvs (ws[t := AbortingTxn i inc])"
proof (rule owners_ok_step [OF own t(1) n])
  let ?x = "AbortingTxn i inc"
  have pend: "pending (ws[t := ?x]) = pending ws" using t by (intro pending_same) simp_all
  have free: "\<forall>t'<length ws. owns (ws ! t') \<noteq> Some i" using i(2) fits_unowned(2) by (intro not_owned [OF own]) simp
  show "j < num_txns s \<and> fits ((!) cvs) (pending (ws[t := ?x])) (es s' j) ?x \<and>
      (owns (ws ! t) = Some j \<or> (\<forall>t'<length ws. owns (ws ! t') \<noteq> Some j))" if "owns ?x = Some j" for j
    using that i(1) es free by simp
  show "fits ((!) cvs) (pending (ws[t := ?x])) (es s' j) (ws ! t')"
    if "t' < length ws" "owns (ws ! t') = Some j" "fits ((!) cvs) (pending ws) (es s j) (ws ! t')" for t' j
    using that free es pend by (intro fits_frame [OF that(3)]) auto
  show "owns ?x = Some j \<or> needs_owner (es s j) \<and> owns (ws ! t) \<noteq> Some j" if "needs_owner (es s' j)" for j
    using that es t by (cases "j = i") simp_all
qed

lemma owners_aborted:
  assumes own: "owners_ok s cvs ws" and t: "t < length ws" "ws ! t = AbortingTxn i inc" and n: "num_txns s' = num_txns s"
    and x: "x = Idle \<and> st = ReadyToExecute (inc + 1) None \<or> x = Running i (inc + 1) \<and> st = Executing (inc + 1)"
    and es: "es s' = (es s)(i := st)"
  shows "owners_ok s' cvs (ws[t := x])"
proof (rule owners_ok_step [OF own t(1) n])
  have o: "owns (ws ! t) = Some i" using t(2) by simp
  have pend: "pending (ws[t := x]) = pending ws" using t x by (intro pending_same) auto
  show "j < num_txns s \<and> fits ((!) cvs) (pending (ws[t := x])) (es s' j) x \<and>
      (owns (ws ! t) = Some j \<or> (\<forall>t'<length ws. owns (ws ! t') \<noteq> Some j))" if "owns x = Some j" for j
    using that x es o owners_okD(1) [OF own t(1) o] by auto
  show "fits ((!) cvs) (pending (ws[t := x])) (es s' j) (ws ! t')"
    if t': "t' < length ws" "t' \<noteq> t" "owns (ws ! t') = Some j" "fits ((!) cvs) (pending ws) (es s j) (ws ! t')" for t' j
  proof -
    have "j \<noteq> i" using owners_okD(3) [OF own t'(1) t(1)] t'(2,3) o by auto
    then show ?thesis using es pend t'(4) by simp
  qed
  show "owns x = Some j \<or> needs_owner (es s j) \<and> owns (ws ! t) \<noteq> Some j" if "needs_owner (es s' j)" for j
    using that es o x by (cases "j = i") auto
qed

lemma owners_commit:
  assumes own: "owners_ok s cvs ws" and n: "num_txns s' = num_txns s"
    and "es s c = Executed inc" and es: "es s' = (es s)(c := Committed inc)"
  shows "owners_ok s' cvs ws"
proof (rule owners_okI)
  note D = owners_okD [OF own]
  have free: "\<forall>t<length ws. owns (ws ! t) \<noteq> Some c" using assms(3) fits_unowned(2) by (intro not_owned [OF own]) simp
  fix t i assume t: "t < length ws" and o: "owns (ws ! t) = Some i"
  then have "i \<noteq> c" using free by auto
  with D(1,2) [OF t o] n es show "i < num_txns s' \<and> fits ((!) cvs) (pending ws) (es s' i) (ws ! t)" by simp
  show "t = t'" if "t' < length ws" "owns (ws ! t') = Some i" for t' using D(3) [OF t that(1) o that(2)] .
next
  show "\<exists>t<length ws. owns (ws ! t) = Some i" if "i < num_txns s'" "needs_owner (es s' i)" for i
    using owners_okD(4) [OF own, of i] that n es by (auto split: if_splits)
qed

section \<open>Condition variables and validations\<close>

lemma condvars_ok_step:
  assumes "condvars_ok cvs ws" and t: "t < length ws" and len: "length cvs \<le> length cvs'"
    and b: "\<And>i inc cv. x = Blocked i inc cv \<Longrightarrow> cv < length cvs' \<and> (\<forall>t'<length ws. \<forall>j inc'. t' \<noteq> t \<longrightarrow> ws ! t' \<noteq> Blocked j inc' cv)"
    and p: "\<And>cv. x = Notifying cv \<Longrightarrow> cv < length cvs' \<and> (\<forall>t'<length ws. t' \<noteq> t \<longrightarrow> ws ! t' \<noteq> Notifying cv)"
  shows "condvars_ok cvs' (ws[t := x])"
proof -
  note D = condvars_okD [OF assms(1)]
  have 1: "cv < length cvs'" if "u < length ws" "ws[t := x] ! u = Blocked i inc cv" for u i inc cv
    using that b [of i inc cv] D(1) [of u i inc cv] t len by (cases "u = t") auto
  have 2: "u = u'" if u: "u < length ws" "u' < length ws" "ws[t := x] ! u = Blocked i inc cv" "ws[t := x] ! u' = Blocked j inc' cv"
    for u u' i inc j inc' cv
  proof (cases "u = t"; cases "u' = t")
    assume "u = t" "u' \<noteq> t"
    then have "x = Blocked i inc cv" "ws ! u' = Blocked j inc' cv" using u t by simp_all
    with b [of i inc cv] u(2) \<open>u' \<noteq> t\<close> show ?thesis by blast
  next
    assume "u \<noteq> t" "u' = t"
    then have "x = Blocked j inc' cv" "ws ! u = Blocked i inc cv" using u t by simp_all
    with b [of j inc' cv] u(1) \<open>u \<noteq> t\<close> show ?thesis by blast
  next
    assume "u \<noteq> t" "u' \<noteq> t"
    then have "ws ! u = Blocked i inc cv" "ws ! u' = Blocked j inc' cv" using u by simp_all
    with D(2) [OF u(1,2)] show ?thesis by blast
  qed simp
  have 3: "cv < length cvs'" if "u < length ws" "ws[t := x] ! u = Notifying cv" for u cv
    using that p [of cv] D(3) [of u cv] t len by (cases "u = t") auto
  have 4: "u = u'" if u: "u < length ws" "u' < length ws" "ws[t := x] ! u = Notifying cv" "ws[t := x] ! u' = Notifying cv" for u u' cv
  proof (cases "u = t"; cases "u' = t")
    assume "u = t" "u' \<noteq> t"
    then have "x = Notifying cv" "ws ! u' = Notifying cv" using u t by simp_all
    with p [of cv] u(2) \<open>u' \<noteq> t\<close> show ?thesis by blast
  next
    assume "u \<noteq> t" "u' = t"
    then have "x = Notifying cv" "ws ! u = Notifying cv" using u t by simp_all
    with p [of cv] u(1) \<open>u \<noteq> t\<close> show ?thesis by blast
  next
    assume "u \<noteq> t" "u' \<noteq> t"
    then have "ws ! u = Notifying cv" "ws ! u' = Notifying cv" using u by simp_all
    with D(4) [OF u(1,2)] show ?thesis by blast
  qed simp
  show ?thesis unfolding condvars_ok_def length_list_update using 1 2 3 4 by blast
qed

lemma covers_mono: "covers s i v \<Longrightarrow> v \<le> v' \<Longrightarrow> covers s i v'"
  by (auto simp: covers_def)

lemma valid_okD:
  assumes "valid_ok s ws" and "i < num_txns s" and "es s i = Executed inc"
  shows "val_idx s \<le> i \<or> (\<exists>v. covers s i v \<and> (mvw s i = Some v \<or> Validating i inc v \<in> set ws))"
  using assms by (simp add: valid_ok_def)

lemma valid_okI:
  assumes "\<And>i inc. i < num_txns s \<Longrightarrow> es s i = Executed inc \<Longrightarrow>
     val_idx s \<le> i \<or> (\<exists>v. covers s i v \<and> (mvw s i = Some v \<or> Validating i inc v \<in> set ws))"
  shows "valid_ok s ws"
  using assms by (simp add: valid_ok_def)

lemma valid_ok_frame:
  assumes "valid_ok s ws" and "num_txns s' = num_txns s" and "val_idx s' = val_idx s"
    and "mt s' = mt s" "rq s' = rq s" "mvw s' = mvw s"
    and "\<And>i inc. i < num_txns s \<Longrightarrow> es s' i = Executed inc \<Longrightarrow> es s i = Executed inc"
    and "\<And>i inc v. Validating i inc v \<in> set ws \<Longrightarrow> Validating i inc v \<in> set ws'"
  shows "valid_ok s' ws'"
proof (rule valid_okI)
  fix i inc assume i: "i < num_txns s'" "es s' i = Executed inc"
  then have "es s i = Executed inc" using assms(2,7) by simp
  from valid_okD [OF assms(1) _ this] i(1) assms(2-6,8)
  show "val_idx s' \<le> i \<or> (\<exists>v. covers s' i v \<and> (mvw s' i = Some v \<or> Validating i inc v \<in> set ws'))"
    by (fastforce simp: covers_def)
qed

lemma valid_ok_decrease:
  assumes "valid_ok s ws" and "num_txns s' = num_txns s" and "val_idx s' = i" "i < val_idx s"
    and "\<And>j. j \<noteq> i \<Longrightarrow> mt s' j = mt s j" "rq s' = rq s" "mvw s' = mvw s"
    and "\<And>j inc. j < num_txns s \<Longrightarrow> j \<noteq> i \<Longrightarrow> es s' j = Executed inc \<Longrightarrow> es s j = Executed inc"
    and "\<And>j inc v. Validating j inc v \<in> set ws \<Longrightarrow> Validating j inc v \<in> set ws'"
  shows "valid_ok s' ws'"
proof (rule valid_okI)
  fix j inc assume j: "j < num_txns s'" "es s' j = Executed inc"
  show "val_idx s' \<le> j \<or> (\<exists>v. covers s' j v \<and> (mvw s' j = Some v \<or> Validating j inc v \<in> set ws'))"
  proof (cases "i \<le> j")
    case True
    with assms(3) show ?thesis by simp
  next
    case False
    then have "es s j = Executed inc" using assms(2,8) j by simp
    with valid_okD [OF assms(1) _ this] j(1) assms(2,4) False obtain v
      where v: "covers s j v" "mvw s j = Some v \<or> Validating j inc v \<in> set ws" by auto
    have "mt s' k = mt s k" if "k \<le> j" for k using assms(5) that False by simp
    with v(1) assms(6) have "covers s' j v" by (simp add: covers_def)
    with v(2) assms(7,9) show ?thesis by auto
  qed
qed

lemma valid_ok_finish_validation:
  assumes "valid_ok s ws" and t: "t < length ws" "ws ! t = Validating i inc v" and spec: "finish_validation_spec s i v s'"
  shows "valid_ok s' (ws[t := Idle])"
proof (rule valid_okI)
  have mv: "mvw s' = (mvw s)(i := Some (case mvw s i of None \<Rightarrow> v | Some p \<Rightarrow> max p v))"
    and same: "es s' = es s" "mt s' = mt s" "rq s' = rq s" "val_idx s' = val_idx s" "num_txns s' = num_txns s"
    using spec by (simp_all add: finish_validation_spec_def)
  fix j inc' assume j: "j < num_txns s'" "es s' j = Executed inc'"
  show "val_idx s' \<le> j \<or> (\<exists>v. covers s' j v \<and> (mvw s' j = Some v \<or> Validating j inc' v \<in> set (ws[t := Idle])))"
  proof (cases "val_idx s \<le> j")
    case True
    with same show ?thesis by simp
  next
    case False
    with valid_okD [OF assms(1), of j inc'] j same obtain u where
      u: "covers s j u" "mvw s j = Some u \<or> Validating j inc' u \<in> set ws" by auto
    have cov: "covers s' j x \<longleftrightarrow> covers s j x" for x using same by (simp add: covers_def)
    show ?thesis
    proof (cases "Validating j inc' u \<in> set ws \<and> Validating j inc' u \<noteq> ws ! t")
      case True
      then show ?thesis using u(1) cov in_set_update by metis
    next
      case False
      then have "mvw s j = Some u \<or> j = i \<and> u = v" using u(2) t(2) by auto
      then have "\<exists>u'. mvw s' j = Some u' \<and> u \<le> u'"
        using mv by (cases "j = i") (auto split: option.splits)
      then show ?thesis using covers_mono [OF u(1)] cov by blast
    qed
  qed
qed

end
