(* ===== verification/SchedulerLive.thy ===== *)
theory SchedulerLive
  imports SchedulerSystem
begin

text \<open>
  Every step of the workers keeps the invariant of the system, no method panics on the way, and the
  system is never stuck: while the block is not done, some worker has work, or the scheduler hands
  out a task, or the next transaction can be committed.
\<close>

section \<open>Somebody is awake\<close>

lemma awake_free: "t < length ws \<Longrightarrow> free x \<Longrightarrow> awake cvs (ws[t := x]) d"
  by (auto simp: awake_def intro!: exI [of _ t])

lemma awake_ok_free: "t < length ws \<Longrightarrow> free x \<Longrightarrow> awake_ok s cvs (ws[t := x])"
  by (simp add: awake_ok_def awake_free)

lemma awake_ok_running:
  assumes t: "t < length ws" and "\<And>d inc cv. d < num_txns s \<Longrightarrow> es s d = ReadyToExecute inc cv \<Longrightarrow> i \<le> d"
  shows "awake_ok s cvs (ws[t := Running i inc'])"
proof -
  have "awake cvs (ws[t := Running i inc']) d" if "i \<le> d" for d
    using t that unfolding awake_def by - (rule exI [of _ t], auto)
  with assms(2) show ?thesis by (simp add: awake_ok_def)
qed

text \<open>
  Below a running transaction, every transaction that is not executed has a worker other than the one
  running it that is free or executes something no higher: the argument against deadlock.
\<close>

lemma unfinished_worker:
  assumes deps: "deps_ok s" and own: "owners_ok s cvs ws" and aw: "awake_ok s cvs ws"
    and t: "t < length ws" "ws ! t = Running j inc"
    and f: "f < num_txns s" "f < j" "\<not> done_status (es s f)"
  shows "\<exists>t'<length ws. t' \<noteq> t \<and> (free (ws ! t') \<or> (\<exists>k\<le>f. runs cvs (ws ! t') k))"
  using f
proof (induction f rule: less_induct)
  case (less f)
  note fits = owners_okD(2) [OF own]
  have owner: "\<exists>u<length ws. u \<noteq> t \<and> owns (ws ! u) = Some f" if "needs_owner (es s f)"
  proof -
    from owners_okD(4) [OF own less.prems(1) that] obtain u where "u < length ws" "owns (ws ! u) = Some f" by blast
    then show ?thesis using t(2) less.prems(2) by (intro exI [of _ u]) auto
  qed
  show ?case
  proof (cases "es s f")
    case (ReadyToExecute a cv)
    with aw less.prems(1) obtain u where u: "u < length ws" "free (ws ! u) \<or> (\<exists>k\<le>f. runs cvs (ws ! u) k)"
      unfolding awake_ok_def awake_def by blast
    then have "u \<noteq> t" using t(2) less.prems(2) by auto
    with u show ?thesis by blast
  next
    case (Executing a)
    with owner obtain u where u: "u < length ws" "u \<noteq> t" "owns (ws ! u) = Some f" by auto
    from fits [OF u(1,3)] Executing consider (run) "ws ! u = Running f a"
      | (res) cv where "ws ! u = Blocked f a cv" "cvs ! cv" | (pend) cv where "pending ws cv"
      using u(3) by (cases "ws ! u") auto
    then show ?thesis
    proof cases
      case run
      then show ?thesis using u(1,2) by (intro exI [of _ u]) auto
    next
      case res
      then show ?thesis using u(1,2) by (intro exI [of _ u]) auto
    next
      case pend
      then obtain p where "p < length ws" "ws ! p = Notifying cv" by (auto simp: pending_iff)
      then show ?thesis using t(2) by (intro exI [of _ p]) auto
    qed
  next
    case (Suspended a cv)
    from deps_okD(5) [OF deps less.prems(1) this] obtain d where d: "d < f" "f \<in> set (deps s d)" by blast
    then have dn: "d < num_txns s" using less.prems(1) by simp
    have "\<not> done_status (es s d)" using deps_okD(2) [OF deps dn] d(2) by auto
    from less.IH [OF d(1) dn _ this] less.prems(2) d(1) obtain u
      where u: "u < length ws" "u \<noteq> t" "free (ws ! u) \<or> (\<exists>k\<le>d. runs cvs (ws ! u) k)" by auto
    then show ?thesis using d(1) by (intro exI [of _ u]) (auto intro: le_trans less_imp_le)
  next
    case (Aborting a)
    with owner obtain u where u: "u < length ws" "u \<noteq> t" "owns (ws ! u) = Some f" by auto
    from fits [OF u(1,3)] Aborting have "free (ws ! u)" using u(3) by (cases "ws ! u") auto
    then show ?thesis using u(1,2) by blast
  qed (use less.prems(3) in simp_all)
qed

lemma runs_extend:
  assumes "condvars_ok cvs ws" and "t < length ws"
  shows "runs (cvs @ bs) (ws ! t) k \<longleftrightarrow> runs cvs (ws ! t) k"
  using condvars_okD(1) [OF assms] by (cases "ws ! t") (auto simp: nth_append)

lemma awake_ok_wait:
  assumes sched: "sched_inv s" and own: "owners_ok s cvs ws" and aw: "awake_ok s cvs ws" and cv: "condvars_ok cvs ws"
    and t: "t < length ws" "ws ! t = Running j inc" and dep: "dep < j" "\<not> done_status (es s dep)"
    and n: "num_txns s' = num_txns s" and es: "es s' = (es s)(j := Suspended inc (length cvs))"
  shows "awake_ok s' (cvs @ [False]) (ws[t := Blocked j inc (length cvs)])"
  unfolding awake_ok_def
proof (intro allI impI)
  fix d a c assume d: "d < num_txns s'" "es s' d = ReadyToExecute a c"
  have jn: "j < num_txns s" using owners_okD(1) [OF own t(1)] t(2) by simp
  from d es have "d \<noteq> j" "es s d = ReadyToExecute a c" by (auto split: if_splits)
  with aw d(1) n obtain u where u: "u < length ws" "free (ws ! u) \<or> (\<exists>k\<le>d. runs cvs (ws ! u) k)"
    unfolding awake_ok_def awake_def by metis
  have "\<exists>v<length ws. v \<noteq> t \<and> (free (ws ! v) \<or> (\<exists>k\<le>d. runs cvs (ws ! v) k))"
  proof (cases "u = t")
    case True
    then have "j \<le> d" using u(2) t(2) by auto
    moreover obtain v where "v < length ws" "v \<noteq> t" "free (ws ! v) \<or> (\<exists>k\<le>dep. runs cvs (ws ! v) k)"
      using unfinished_worker [OF sched_invD(2) [OF sched] own aw t _ dep] jn dep(1) by auto
    ultimately show ?thesis using dep(1) by (intro exI [of _ v]) (auto intro: le_trans less_imp_le)
  next
    case False
    with u show ?thesis by blast
  qed
  then obtain v where "v < length ws" "v \<noteq> t" "free (ws ! v) \<or> (\<exists>k\<le>d. runs cvs (ws ! v) k)" by blast
  then show "awake (cvs @ [False]) (ws[t := Blocked j inc (length cvs)]) d"
    unfolding awake_def using runs_extend [OF cv] by (intro exI [of _ v]) auto
qed

lemma awake_ok_same:
  assumes "awake_ok s cvs ws" and "num_txns s' = num_txns s"
    and "\<And>d inc cv. d < num_txns s \<Longrightarrow> es s' d = ReadyToExecute inc cv \<Longrightarrow> \<exists>inc cv. es s d = ReadyToExecute inc cv"
    and "length ws' = length ws"
    and "\<And>t k. t < length ws \<Longrightarrow> free (ws ! t) \<Longrightarrow> free (ws' ! t)"
    and "\<And>t k. t < length ws \<Longrightarrow> runs cvs (ws ! t) k \<Longrightarrow> runs cvs' (ws' ! t) k"
  shows "awake_ok s' cvs' ws'"
  using assms unfolding awake_ok_def awake_def by (metis (no_types, lifting))

section \<open>The steps keep the invariant\<close>

definition rest_inv :: "scheduler \<Rightarrow> bool list \<Rightarrow> worker list \<Rightarrow> bool" where
  "rest_inv s cvs ws \<longleftrightarrow> owners_ok s cvs ws \<and> condvars_ok cvs ws \<and> validators_ok s ws \<and> valid_ok s ws
     \<and> awake_ok s cvs ws \<and> finished_ok s ws"

lemma world_inv_iff:
  "world_inv w \<longleftrightarrow> sched_inv (sched w) \<and> rest_inv (sched w) (condvars w) (workers w) \<and> workers w \<noteq> []"
  by (auto simp: world_inv_def rest_inv_def)

lemma rest_invD:
  assumes "rest_inv s cvs ws"
  shows "owners_ok s cvs ws" "condvars_ok cvs ws" "validators_ok s ws" "valid_ok s ws" "awake_ok s cvs ws" "finished_ok s ws"
  using assms by (simp_all add: rest_inv_def)

lemma owners_ok_cong:
  "es s' = es s \<Longrightarrow> num_txns s' = num_txns s \<Longrightarrow> owners_ok s' cvs ws \<longleftrightarrow> owners_ok s cvs ws"
  by (simp add: owners_ok_def)

lemma rest_inv_skip:
  assumes "rest_inv s cvs ws" and "es s' = es s" and "num_txns s' = num_txns s" and "mt s' = mt s" "rq s' = rq s" "mvw s' = mvw s"
    and "done_marker s' = done_marker s"
    and "\<And>i inc. i < num_txns s \<Longrightarrow> es s i = Executed inc \<Longrightarrow> val_idx s \<le> i \<Longrightarrow> val_idx s' \<le> i"
  shows "rest_inv s' cvs ws"
proof -
  note D = rest_invD [OF assms(1)]
  have "covers s' = covers s" using assms(4,5) by (simp add: covers_def fun_eq_iff)
  then have "valid_ok s' ws" using D(4) assms(2-8) unfolding valid_ok_def by metis
  with D assms(2,3,7) owners_ok_cong [OF assms(2,3)] show ?thesis
    by (simp add: rest_inv_def validators_ok_def awake_ok_def finished_ok_def)
qed

lemma validators_ok_step:
  assumes "validators_ok s ws" and "num_txns s' = num_txns s"
    and "\<And>i inc v. x = Validating i inc v \<Longrightarrow> i < num_txns s"
  shows "validators_ok s' (ws[t := x])"
  using assms in_set_updateD [of _ ws t x] unfolding validators_ok_def by metis

lemma finished_ok_step:
  assumes "finished_ok s ws" and "done_marker s \<Longrightarrow> done_marker s'" and "x = Finished \<Longrightarrow> done_marker s'"
  shows "finished_ok s' (ws[t := x])"
  using assms in_set_updateD [of Finished ws t x] unfolding finished_ok_def by metis

lemma validating_kept:
  assumes "\<And>i inc v. ws ! t \<noteq> Validating i inc v" and "Validating i inc v \<in> set ws"
  shows "Validating i inc v \<in> set (ws[t := x])"
  using in_set_update [OF assms(2), of t x] assms(1) by metis

text \<open>An idle worker takes the answer of \<^verbatim>\<open>next_task\<close>.\<close>

lemma rest_inv_plain:
  assumes inv: "rest_inv s cvs ws" and t: "t < length ws" "ws ! t = Idle" and x: "x = Idle \<or> x = Finished \<and> done_marker s"
    and nr: "x = Finished \<Longrightarrow> (\<And>d inc cv. d < num_txns s \<Longrightarrow> es s d \<noteq> ReadyToExecute inc cv)"
  shows "rest_inv s cvs (ws[t := x])"
proof -
  note D = rest_invD [OF inv]
  have "owners_ok s cvs (ws[t := x])" using x t by (intro owners_neutral [OF D(1)]) auto
  moreover have "condvars_ok cvs (ws[t := x])" using x t by (intro condvars_ok_step [OF D(2)]) auto
  moreover have "validators_ok s (ws[t := x])" using x by (intro validators_ok_step [OF D(3)]) auto
  moreover have "valid_ok s (ws[t := x])" using t by (intro valid_ok_frame [OF D(4)] validating_kept) auto
  moreover have "awake_ok s cvs (ws[t := x])"
    using x nr awake_ok_free [OF t(1), of x] by (auto simp: awake_ok_def)
  moreover have "finished_ok s (ws[t := x])" using x by (intro finished_ok_step [OF D(6)]) auto
  ultimately show ?thesis by (simp add: rest_inv_def)
qed

lemma rest_inv_validate:
  assumes sched: "sched_inv s" and inv: "rest_inv s cvs ws" and t: "t < length ws" "ws ! t = Idle"
    and v: "val_idx s < num_txns s" "es s (val_idx s) = Executed inc"
  shows "rest_inv (s\<lparr>validation_idx := validation_idx s + 1\<rparr>) cvs (ws[t := Validating (val_idx s) inc (cur_wave s)])"
    (is "rest_inv ?s cvs (ws[t := ?x])")
proof -
  note D = rest_invD [OF inv] and V = val_idx_step [OF sched v(1)]
  have views: "es ?s = es s" "num_txns ?s = num_txns s" "mt ?s = mt s" "rq ?s = rq s" "mvw ?s = mvw s"
    by (simp_all add: sched_views)
  have "owners_ok ?s cvs (ws[t := ?x])" using t views by (intro owners_neutral [OF D(1)]) auto
  moreover have "condvars_ok cvs (ws[t := ?x])" using t by (intro condvars_ok_step [OF D(2)]) auto
  moreover have "validators_ok ?s (ws[t := ?x])" using v(1) views by (intro validators_ok_step [OF D(3)]) auto
  moreover have "valid_ok ?s (ws[t := ?x])"
  proof (rule valid_okI)
    fix i a assume i: "i < num_txns ?s" "es ?s i = Executed a"
    have cov: "covers ?s j u \<longleftrightarrow> covers s j u" for j u using views by (simp add: covers_def)
    show "val_idx ?s \<le> i \<or> (\<exists>u. covers ?s i u \<and> (mvw ?s i = Some u \<or> Validating i a u \<in> set (ws[t := ?x])))"
    proof (cases "i = val_idx s")
      case True
      have "covers s i (cur_wave s)"
        using sched_invD(4) [OF sched] v(1) True by (simp add: covers_def waves_ok_def)
      with True i(2) v(2) views cov updated_in_set [OF t(1), of ?x] show ?thesis by auto
    next
      case False
      from valid_okD [OF D(4), of i a] i views have
        "val_idx s \<le> i \<or> (\<exists>u. covers s i u \<and> (mvw s i = Some u \<or> Validating i a u \<in> set ws))" by simp
      with False V(1) cov views validating_kept [of ws t i a _ ?x] t(2) show ?thesis by auto
    qed
  qed
  moreover have "awake_ok ?s cvs (ws[t := ?x])" using t(1) by (rule awake_ok_free) simp
  moreover have "finished_ok ?s (ws[t := ?x])" using D(6) by (intro finished_ok_step [OF D(6)]) auto
  ultimately show ?thesis by (simp add: rest_inv_def)
qed

lemma rest_inv_execute:
  assumes sched: "sched_inv s" and inv: "rest_inv s cvs ws" and t: "t < length ws" "ws ! t = Idle"
    and e: "execution_idx s < num_txns s" "es s (execution_idx s) = ReadyToExecute inc cv"
  shows "rest_inv (set_exec (s\<lparr>execution_idx := Suc (execution_idx s)\<rparr>) (execution_idx s) (Executing inc)) cvs
    (ws[t := dispatch (ExecutionTask (execution_idx s, inc) cv)])"
    (is "rest_inv ?s cvs (ws[t := ?x])")
proof -
  note D = rest_invD [OF inv]
  have range: "execution_idx s < length (txn_status s)" using in_range [OF sched_invD(1) [OF sched] e(1)] .
  have es: "es ?s = (es s)(execution_idx s := Executing inc)" using range by (simp add: sched_views)
  have views: "num_txns ?s = num_txns s" "mt ?s = mt s" "rq ?s = rq s" "mvw ?s = mvw s" "val_idx ?s = val_idx s"
    "done_marker ?s = done_marker s"
    by (simp_all add: sched_views)
  have vk: "\<And>i a v. Validating i a v \<in> set ws \<Longrightarrow> Validating i a v \<in> set (ws[t := ?x])"
    using t(2) by (intro validating_kept) simp_all
  have valid: "valid_ok ?s (ws[t := ?x])"
    using es views vk by (intro valid_ok_frame [OF D(4)]) (auto split: if_splits)
  have fin: "finished_ok ?s (ws[t := ?x])" using views by (intro finished_ok_step [OF D(6)]) (cases cv; simp)+
  have val: "validators_ok ?s (ws[t := ?x])" using views by (intro validators_ok_step [OF D(3)]) (cases cv; simp)+
  show ?thesis
  proof (cases cv)
    case None
    then have x: "?x = Running (execution_idx s) inc" by simp
    have "owners_ok ?s cvs (ws[t := ?x])"
      unfolding x using e None es views by (intro owners_execute [OF D(1) t]) simp_all
    moreover have "condvars_ok cvs (ws[t := ?x])" unfolding x using t(1) by (intro condvars_ok_step [OF D(2)]) simp_all
    moreover have "awake_ok ?s cvs (ws[t := ?x])"
    proof -
      have "execution_idx s \<le> d" if "d < num_txns ?s" "es ?s d = ReadyToExecute a c" for d a c
        using that sched_invD(3) [OF sched] es views by (auto simp: ready_ok_def split: if_splits)
      then show ?thesis unfolding x by (rule awake_ok_running [OF t(1)])
    qed
    ultimately show ?thesis using valid fin val by (simp add: rest_inv_def)
  next
    case (Some c)
    then have x: "?x = Notifying c" by simp
    from e Some have st: "es s (execution_idx s) = ReadyToExecute inc (Some c)" by simp
    obtain u where u: "u < length ws" "owns (ws ! u) = Some (execution_idx s)"
      using owners_okD(4) [OF D(1) e(1)] st by auto
    with owners_okD(2) [OF D(1) u] st have wu: "ws ! u = Blocked (execution_idx s) inc c" "\<not> pending ws c"
      by (cases "ws ! u"; auto)+
    have "owners_ok ?s cvs (ws[t := ?x])"
      unfolding x using e(1) st es views by (intro owners_take_suspended [OF D(1,2) t]) simp_all
    moreover have "condvars_ok cvs (ws[t := ?x])"
      unfolding x using t(1) condvars_okD(1) [OF D(2) u(1) wu(1)] wu(2)
      by (intro condvars_ok_step [OF D(2)]) (auto simp: pending_iff)
    moreover have "awake_ok ?s cvs (ws[t := ?x])" unfolding x using t(1) by (rule awake_ok_free) simp
    ultimately show ?thesis using valid fin val by (simp add: rest_inv_def)
  qed
qed

lemma rest_inv_next:
  assumes "next_rel s task s'" and "sched_inv s" and "rest_inv s cvs ws" and "t < length ws" "ws ! t = Idle"
  shows "rest_inv s' cvs (ws[t := dispatch task])"
  using assms
proof (induction rule: next_rel.induct)
  case (nr_done s)
  have "es s d \<noteq> ReadyToExecute inc cv" if "d < num_txns s" for d inc cv
  proof -
    have "\<exists>inc. es s d = Committed inc"
      using sched_invD(5) [OF nr_done.prems(1)] nr_done.hyps that by (simp add: commit_ok_def split: prod.splits)
    then show ?thesis by auto
  qed
  with nr_done show ?case by (simp add: rest_inv_plain)
next
  case (nr_none s)
  then show ?case using rest_inv_plain [of s cvs ws t Idle] by simp
next
  case (nr_validate s inc)
  then show ?case by (simp add: rest_inv_validate)
next
  case (nr_validate_skip s task s')
  note V = val_idx_step [OF nr_validate_skip.prems(1) nr_validate_skip.hyps(2)]
  have "rest_inv (s\<lparr>validation_idx := validation_idx s + 1\<rparr>) cvs ws"
  proof (rule rest_inv_skip [OF nr_validate_skip.prems(2)])
    fix i inc assume "es s i = Executed inc" "val_idx s \<le> i"
    then have "val_idx s \<noteq> i" using nr_validate_skip.hyps(3) by auto
    then show "val_idx (s\<lparr>validation_idx := validation_idx s + 1\<rparr>) \<le> i" using \<open>val_idx s \<le> i\<close> V(1) by simp
  qed (simp_all add: sched_views)
  with nr_validate_skip sched_inv_validate show ?case by blast
next
  case (nr_execute s inc cv)
  then show ?case by (intro rest_inv_execute) simp_all
next
  case (nr_execute_skip s task s')
  have "rest_inv (s\<lparr>execution_idx := Suc (execution_idx s)\<rparr>) cvs ws"
    by (rule rest_inv_skip [OF nr_execute_skip.prems(2)]) (simp_all add: sched_views)
  with nr_execute_skip sched_inv_skip_execute show ?case by blast
qed

text \<open>A notification, a wait and a wake-up.\<close>

lemma rest_inv_notify:
  assumes inv: "rest_inv s cvs ws" and t: "t < length ws" "ws ! t = Notifying cv"
  shows "rest_inv s (cvs[cv := True]) (ws[t := Idle])"
proof -
  note D = rest_invD [OF inv]
  have "owners_ok s (cvs[cv := True]) (ws[t := Idle])" by (rule owners_notify [OF D(1,2) t])
  moreover have "condvars_ok (cvs[cv := True]) (ws[t := Idle])"
    using t(1) by (intro condvars_ok_step [OF D(2)]) simp_all
  moreover have "validators_ok s (ws[t := Idle])" by (intro validators_ok_step [OF D(3)]) simp_all
  moreover have "valid_ok s (ws[t := Idle])" using t by (intro valid_ok_frame [OF D(4)] validating_kept) simp_all
  moreover have "awake_ok s (cvs[cv := True]) (ws[t := Idle])" using t(1) by (intro awake_ok_free) simp_all
  moreover have "finished_ok s (ws[t := Idle])" by (intro finished_ok_step [OF D(6)]) simp_all
  ultimately show ?thesis by (simp add: rest_inv_def)
qed

lemma rest_inv_wait:
  assumes sched: "sched_inv s" and inv: "rest_inv s cvs ws" and t: "t < length ws" "ws ! t = Running i inc"
    and dep: "dep < i" "\<not> done_status (es s dep)" and spec: "wait_spec s i inc dep (length cvs) s'"
  shows "rest_inv s' (cvs @ [False]) (ws[t := Blocked i inc (length cvs)])" (is "rest_inv s' ?cvs (ws[t := ?x])")
proof -
  note D = rest_invD [OF inv]
  from spec have es: "es s' = (es s)(i := Suspended inc (length cvs))"
    and same: "num_txns s' = num_txns s" "val_idx s' = val_idx s" "mt s' = mt s" "rq s' = rq s" "mvw s' = mvw s"
      "done_marker s' = done_marker s"
    by (simp_all add: wait_spec_def)
  have "owners_ok s' ?cvs (ws[t := ?x])" by (rule owners_wait [OF D(1,2) t same(1) es])
  moreover have "ws ! u \<noteq> Blocked j a (length cvs)" if "u < length ws" for u j a
    using condvars_okD(1) [OF D(2) that, of j a "length cvs"] by auto
  then have "condvars_ok ?cvs (ws[t := ?x])" using t(1) by (intro condvars_ok_step [OF D(2)]) simp_all
  moreover have "validators_ok s' (ws[t := ?x])" using same(1) by (intro validators_ok_step [OF D(3)]) simp_all
  moreover have "valid_ok s' (ws[t := ?x])"
    using t same es by (intro valid_ok_frame [OF D(4)] validating_kept) (auto split: if_splits)
  moreover have "awake_ok s' ?cvs (ws[t := ?x])" by (rule awake_ok_wait [OF sched D(1,5,2) t dep same(1) es])
  moreover have "finished_ok s' (ws[t := ?x])" using same(6) by (intro finished_ok_step [OF D(6)]) simp_all
  ultimately show ?thesis by (simp add: rest_inv_def)
qed

lemma rest_inv_extend:
  assumes inv: "rest_inv s cvs ws"
  shows "rest_inv s (cvs @ bs) ws"
proof -
  note D = rest_invD [OF inv]
  have "condvars_ok (cvs @ bs) ws" using D(2) unfolding condvars_ok_def by (simp add: trans_less_add1)
  moreover have "awake_ok s (cvs @ bs) ws"
    using runs_extend [OF D(2)] by (intro awake_ok_same [OF D(5)]) auto
  ultimately show ?thesis using D owners_extend [OF D(1,2)] by (simp add: rest_inv_def)
qed

lemma rest_inv_wake:
  assumes inv: "rest_inv s cvs ws" and t: "t < length ws" "ws ! t = Blocked i inc cv" and c: "cvs ! cv"
  shows "rest_inv s cvs (ws[t := Running i inc])" (is "rest_inv s cvs (ws[t := ?x])")
proof -
  note D = rest_invD [OF inv]
  have "condvars_ok cvs (ws[t := ?x])" using t(1) by (intro condvars_ok_step [OF D(2)]) simp_all
  moreover have "validators_ok s (ws[t := ?x])" by (intro validators_ok_step [OF D(3)]) simp_all
  moreover have "valid_ok s (ws[t := ?x])" using t by (intro valid_ok_frame [OF D(4)] validating_kept) simp_all
  moreover have "awake_ok s cvs (ws[t := ?x])"
  proof (rule awake_ok_same [OF D(5)])
    show "free (ws[t := ?x] ! u)" if "u < length ws" "free (ws ! u)" for u
      using that t by (cases "u = t") simp_all
    show "runs cvs (ws[t := ?x] ! u) k" if "u < length ws" "runs cvs (ws ! u) k" for u k
      using that t by (cases "u = t") simp_all
  qed auto
  moreover have "finished_ok s (ws[t := ?x])" by (intro finished_ok_step [OF D(6)]) simp_all
  ultimately show ?thesis using owners_wake(1) [OF D(1) t c] by (simp add: rest_inv_def)
qed

text \<open>A finished validation, successful or overtaken by another abort.\<close>

lemma rest_inv_finish_validation:
  assumes inv: "rest_inv s cvs ws" and t: "t < length ws" "ws ! t = Validating i inc v"
    and spec: "finish_validation_spec s i v s'"
  shows "rest_inv s' cvs (ws[t := Idle])"
proof -
  note D = rest_invD [OF inv]
  from spec have same: "es s' = es s" "num_txns s' = num_txns s" "done_marker s' = done_marker s"
    by (simp_all add: finish_validation_spec_def)
  have "owners_ok s' cvs (ws[t := Idle])" using t same by (intro owners_neutral [OF D(1)]) simp_all
  moreover have "condvars_ok cvs (ws[t := Idle])" using t(1) by (intro condvars_ok_step [OF D(2)]) simp_all
  moreover have "validators_ok s' (ws[t := Idle])" using same by (intro validators_ok_step [OF D(3)]) simp_all
  moreover have "awake_ok s' cvs (ws[t := Idle])" using t(1) by (intro awake_ok_free) simp_all
  moreover have "finished_ok s' (ws[t := Idle])" using same by (intro finished_ok_step [OF D(6)]) simp_all
  ultimately show ?thesis using valid_ok_finish_validation [OF D(4) t spec] by (simp add: rest_inv_def)
qed

lemma rest_inv_abort:
  assumes sched: "sched_inv s" and inv: "rest_inv s cvs ws" and t: "t < length ws" "ws ! t = Validating i inc v"
    and st: "es s i = Executed inc"
  shows "rest_inv (set_exec s i (Aborting inc)) cvs (ws[t := AbortingTxn i inc])" (is "rest_inv ?s cvs (ws[t := ?x])")
proof -
  note D = rest_invD [OF inv]
  have i: "i < num_txns s" using D(3) t unfolding validators_ok_def by (metis nth_mem)
  have range: "i < length (txn_status s)" using in_range [OF sched_invD(1) [OF sched] i] .
  have es: "es ?s = (es s)(i := Aborting inc)" using range by (simp add: sched_views)
  have same: "num_txns ?s = num_txns s" "val_idx ?s = val_idx s" "mt ?s = mt s" "rq ?s = rq s" "mvw ?s = mvw s"
      "done_marker ?s = done_marker s"
    by (simp_all add: sched_views)
  have "owners_ok ?s cvs (ws[t := ?x])" by (rule owners_abort [OF D(1) t same(1) i st es])
  moreover have "condvars_ok cvs (ws[t := ?x])" using t(1) by (intro condvars_ok_step [OF D(2)]) simp_all
  moreover have "validators_ok ?s (ws[t := ?x])" using same by (intro validators_ok_step [OF D(3)]) simp_all
  moreover have "valid_ok ?s (ws[t := ?x])"
  proof (rule valid_okI)
    fix j a assume j: "j < num_txns ?s" "es ?s j = Executed a"
    then have "j \<noteq> i" "es s j = Executed a" using es by (auto split: if_splits)
    moreover have "covers ?s j = covers s j" using same by (simp add: covers_def fun_eq_iff)
    moreover have "Validating j a u \<in> set (ws[t := ?x])" if "Validating j a u \<in> set ws" for u
      using in_set_update [OF that] t(2) \<open>j \<noteq> i\<close> by simp
    ultimately show "val_idx ?s \<le> j \<or> (\<exists>v. covers ?s j v \<and> (mvw ?s j = Some v \<or> Validating j a v \<in> set (ws[t := ?x])))"
      using valid_okD [OF D(4), of j a] j(1) same by auto
  qed
  moreover have "awake_ok ?s cvs (ws[t := ?x])" using t(1) by (intro awake_ok_free) simp_all
  moreover have "finished_ok ?s (ws[t := ?x])" using same by (intro finished_ok_step [OF D(6)]) simp_all
  ultimately show ?thesis by (simp add: rest_inv_def)
qed

text \<open>A finished execution: either the suffix is validated again, or this transaction, or a later pass validates it.\<close>

lemma resumed_Executed [simp]: "resumed st = Executed inc \<longleftrightarrow> st = Executed inc"
  by (cases st) simp_all

lemma valid_ok_finish:
  assumes sched: "sched_inv s" and valid: "valid_ok s ws" and t: "t < length ws" "ws ! t = Running i inc"
    and i: "i < num_txns s" and spec: "finish_execution_spec s i inc r task s'"
  shows "valid_ok s' (ws[t := dispatch task])"
proof (rule valid_okI)
  fix j a assume j: "j < num_txns s'" "es s' j = Executed a"
  let ?ws = "ws[t := dispatch task]"
  from spec have es: "es s' = (\<lambda>j. if j = i then Executed inc else if j \<in> set (deps s i) then resumed (es s j) else es s j)"
    and same: "num_txns s' = num_txns s" "mvw s' = mvw s"
    by (simp_all add: finish_execution_spec_def)
  from j es have st: "j \<noteq> i \<Longrightarrow> es s j = Executed a" "j = i \<Longrightarrow> a = inc" by (simp_all split: if_splits)
  have kept: "Validating j a v \<in> set ?ws" if "Validating j a v \<in> set ws" for v
    using that t(2) by (intro validating_kept) simp_all
  consider (suffix) "val_idx s > i" "val_idx s' = i" "mt s' = (mt s)(i := cur_wave s + 1)" "rq s' = rq s"
    | (self) "task = ValidationTask (i, inc) (cur_wave s)" "val_idx s' = val_idx s" "mt s' = mt s" "rq s' = (rq s)(i := cur_wave s)"
    | (later) "val_idx s \<le> i" "val_idx s' = val_idx s" "mt s' = mt s" "rq s' = rq s"
    using spec by (auto simp: finish_execution_spec_def split: if_splits)
  then show "val_idx s' \<le> j \<or> (\<exists>v. covers s' j v \<and> (mvw s' j = Some v \<or> Validating j a v \<in> set ?ws))"
  proof cases
    case suffix
    show ?thesis
    proof (cases "i \<le> j")
      case False
      then have "covers s' j = covers s j" using suffix by (auto simp: covers_def fun_eq_iff)
      with False st(1) valid_okD [OF valid, of j a] j(1) same suffix kept show ?thesis by auto
    qed (simp add: suffix)
  next
    case self
    show ?thesis
    proof (cases "j = i")
      case True
      have "covers s' i (cur_wave s)"
        using self sched_invD(4) [OF sched] i by (simp add: covers_def waves_ok_def)
      moreover have "Validating i inc (cur_wave s) \<in> set ?ws" using self(1) updated_in_set [OF t(1)] by simp
      ultimately show ?thesis using True st(2) by blast
    next
      case False
      then have "covers s' j = covers s j" using self by (simp add: covers_def fun_eq_iff)
      with False st(1) valid_okD [OF valid, of j a] j(1) same self kept show ?thesis by auto
    qed
  next
    case later
    show ?thesis
    proof (cases "j = i")
      case False
      have "covers s' j = covers s j" using later by (simp add: covers_def fun_eq_iff)
      with False st(1) valid_okD [OF valid, of j a] j(1) same later kept show ?thesis by auto
    qed (simp add: later)
  qed
qed

lemma rest_inv_finish:
  assumes sched: "sched_inv s" and inv: "rest_inv s cvs ws" and t: "t < length ws" "ws ! t = Running i inc"
    and i: "i < num_txns s" and spec: "finish_execution_spec s i inc r task s'"
  shows "rest_inv s' cvs (ws[t := dispatch task])"
proof -
  note D = rest_invD [OF inv]
  from spec have es: "es s' = (\<lambda>j. if j = i then Executed inc else if j \<in> set (deps s i) then resumed (es s j) else es s j)"
    and same: "num_txns s' = num_txns s" "done_marker s' = done_marker s"
    by (simp_all add: finish_execution_spec_def)
  have x: "dispatch task = Idle \<or> (\<exists>v. dispatch task = Validating i inc v)"
    using spec by (auto simp: finish_execution_spec_def split: if_splits)
  have "owners_ok s' cvs (ws[t := dispatch task])"
    using deps_okD(3) [OF sched_invD(2) [OF sched] i] x by (intro owners_finish [OF D(1) t same(1) es]) auto
  moreover have "condvars_ok cvs (ws[t := dispatch task])" using t(1) x by (intro condvars_ok_step [OF D(2)]) auto
  moreover have "validators_ok s' (ws[t := dispatch task])" using same x i by (intro validators_ok_step [OF D(3)]) auto
  moreover have "valid_ok s' (ws[t := dispatch task])" by (rule valid_ok_finish [OF sched D(4) t i spec])
  moreover have "awake_ok s' cvs (ws[t := dispatch task])" using t(1) x by (intro awake_ok_free) auto
  moreover have "finished_ok s' (ws[t := dispatch task])" using same x by (intro finished_ok_step [OF D(6)]) auto
  ultimately show ?thesis by (simp add: rest_inv_def)
qed

text \<open>A finished abort.\<close>

lemma rest_inv_aborted:
  assumes sched: "sched_inv s" and inv: "rest_inv s cvs ws" and t: "t < length ws" "ws ! t = AbortingTxn i inc"
    and i: "i < num_txns s" and spec: "finish_abort_spec s i inc task s'"
  shows "rest_inv s' cvs (ws[t := dispatch task])"
proof -
  note D = rest_invD [OF inv]
  obtain st where es: "es s' = (es s)(i := st)" and st: "\<And>a. st \<noteq> Executed a"
    and x: "dispatch task = Idle \<and> st = ReadyToExecute (inc + 1) None
      \<or> dispatch task = Running i (inc + 1) \<and> st = Executing (inc + 1) \<and> i < execution_idx s"
    using spec by (auto simp: finish_abort_spec_def split: if_splits)
  from spec have same: "num_txns s' = num_txns s" "done_marker s' = done_marker s" "rq s' = rq s" "mvw s' = mvw s"
    by (simp_all add: finish_abort_spec_def)
  have ex: "es s j = Executed a" if "es s' j = Executed a" for j a using that es st by (auto split: if_splits)
  have kept: "\<And>j a v. Validating j a v \<in> set ws \<Longrightarrow> Validating j a v \<in> set (ws[t := dispatch task])"
    using t(2) by (intro validating_kept) simp_all
  have "owners_ok s' cvs (ws[t := dispatch task])" using x by (intro owners_aborted [OF D(1) t same(1) _ es]) auto
  moreover have "condvars_ok cvs (ws[t := dispatch task])" using t(1) x by (intro condvars_ok_step [OF D(2)]) auto
  moreover have "validators_ok s' (ws[t := dispatch task])" using same x by (intro validators_ok_step [OF D(3)]) auto
  moreover have "valid_ok s' (ws[t := dispatch task])"
  proof (cases "val_idx s > i")
    case True
    with spec have "val_idx s' = i" "mt s' = (mt s)(i := cur_wave s + 1)" by (simp_all add: finish_abort_spec_def)
    with True same ex kept show ?thesis by (intro valid_ok_decrease [OF D(4)]) auto
  next
    case False
    with spec have "val_idx s' = val_idx s" "mt s' = mt s" by (simp_all add: finish_abort_spec_def)
    with same ex kept show ?thesis by (intro valid_ok_frame [OF D(4)]) simp_all
  qed
  moreover have "awake_ok s' cvs (ws[t := dispatch task])"
    using x
  proof (elim disjE conjE)
    assume r: "dispatch task = Running i (inc + 1)" "st = Executing (inc + 1)" "i < execution_idx s"
    have "i \<le> d" if "d < num_txns s'" "es s' d = ReadyToExecute a c" for d a c
    proof -
      have "es s d = ReadyToExecute a c" using that(2) es r(2) by (auto split: if_splits)
      with that(1) same(1) sched_invD(3) [OF sched] r(3) show ?thesis by (auto simp: ready_ok_def)
    qed
    then show ?thesis unfolding r(1) by (rule awake_ok_running [OF t(1)])
  qed (use awake_ok_free [OF t(1), of Idle] in simp)
  moreover have "finished_ok s' (ws[t := dispatch task])" using same x by (intro finished_ok_step [OF D(6)]) auto
  ultimately show ?thesis by (simp add: rest_inv_def)
qed

text \<open>A commit.\<close>

lemma rest_inv_commit:
  assumes sched: "sched_inv s" and inv: "rest_inv s cvs ws" and spec: "try_commit_spec l s r s'"
  shows "rest_inv s' cvs ws"
proof -
  note D = rest_invD [OF inv]
  obtain c w where c: "commit_state s = (c, w)" by force
  have cn: "c \<le> num_txns s" using sched_invD(5) [OF sched] c by (simp add: commit_ok_def)
  consider (plain) "es s' = es s" "done_marker s \<Longrightarrow> done_marker s'"
      "num_txns s' = num_txns s" "mt s' = mt s" "rq s' = rq s" "mvw s' = mvw s" "val_idx s' = val_idx s"
    | (commit) inc where "es s c = Executed inc" "es s' = (es s)(c := Committed inc)" "done_marker s' = done_marker s"
      "num_txns s' = num_txns s" "mt s' = mt s" "rq s' = rq s" "mvw s' = mvw s" "val_idx s' = val_idx s"
  proof (cases "\<exists>inc w'. es s c = Executed inc \<and> c < num_txns s \<and>
      s' = (set_exec (s\<lparr>commit_state := (c, w')\<rparr>) c (Committed inc))\<lparr>commit_state := (c + 1, w')\<rparr>")
    case True
    then obtain inc w' where e: "es s c = Executed inc" "c < num_txns s"
      "s' = (set_exec (s\<lparr>commit_state := (c, w')\<rparr>) c (Committed inc))\<lparr>commit_state := (c + 1, w')\<rparr>" by blast
    have "c < length (txn_status s)" using in_range [OF sched_invD(1) [OF sched] e(2)] .
    with e show ?thesis by (intro that(2)) (simp_all add: sched_views)
  next
    case False
    with spec c cn have "s' = s\<lparr>done_marker := True\<rparr> \<or> (\<exists>w'. s' = s\<lparr>commit_state := (c, w')\<rparr>) \<or> s' = s"
      by (auto simp: try_commit_spec_def Let_def split: if_splits)
    then show ?thesis by (intro that(1)) (auto simp: sched_views)
  qed
  then show ?thesis
  proof cases
    case plain
    then have "owners_ok s' cvs ws" "valid_ok s' ws" "awake_ok s' cvs ws" "finished_ok s' ws"
      using D owners_ok_cong [OF plain(1,3)] valid_ok_frame [OF D(4), of s' ws]
      by (simp_all add: awake_ok_def finished_ok_def)
    with D plain(3) show ?thesis by (simp add: rest_inv_def validators_ok_def)
  next
    case commit
    have "owners_ok s' cvs ws" by (rule owners_commit [OF D(1) commit(4,1,2)])
    moreover have "valid_ok s' ws" using commit by (intro valid_ok_frame [OF D(4)]) (auto split: if_splits)
    moreover have "awake_ok s' cvs ws"
      using commit by (intro awake_ok_same [OF D(5)]) (auto split: if_splits)
    ultimately show ?thesis using D commit(3,4) by (simp add: rest_inv_def validators_ok_def finished_ok_def)
  qed
qed

section \<open>The system keeps its invariant\<close>

lemma worker_status:
  assumes "owners_ok s cvs ws" and "t < length ws"
  shows "ws ! t = Running i inc \<Longrightarrow> i < num_txns s \<and> es s i = Executing inc"
    and "ws ! t = AbortingTxn i inc \<Longrightarrow> i < num_txns s \<and> es s i = Aborting inc"
  using owners_okD(1,2) [OF assms, of i] by (cases "es s i"; auto elim: fits.elims)+

text \<open>What each method does when its caller is entitled to call it.\<close>

lemma finish_execution_runs:
  assumes "sched_inv s" and "i < num_txns s" and "cur_wave s \<noteq> - 1"
  shows "\<exists>task s'. finish_execution s i inc r = Ret (task, s') \<and> finish_execution_spec s i inc r task s'"
  using sched_invD(1,2) [OF assms(1)] assms(2,3) deps_okD(1,3) [OF sched_invD(2) [OF assms(1)] assms(2)]
  by (intro finish_execution_effect) auto

lemma try_commit_runs:
  assumes "sched_inv s"
  shows "\<exists>r s'. try_commit a b s = Ret (r, s') \<and> try_commit_spec (a \<and> b) s r s'"
  using sched_invD(1,5) [OF assms] by (intro try_commit_effect) (auto simp: commit_ok_def split: prod.splits)

lemma next_task_runs:
  assumes "sched_inv s"
  shows "\<exists>task s'. next_task c s = Some (task, s') \<and> next_rel s task s'"
  using sched_invD(1,3) [OF assms] by (intro next_task_returns) (auto simp: ready_ok_def)

lemma world_step_inv:
  assumes "world_step w w'" and "world_inv w"
  shows "world_inv w'"
proof -
  from assms(2) have sched: "sched_inv (sched w)" and rest: "rest_inv (sched w) (condvars w) (workers w)"
    and ne: "workers w \<noteq> []"
    by (simp_all add: world_inv_iff)
  note sized = sched_invD(1) [OF sched] and D = rest_invD [OF rest]
  have goal: "world_inv w'" if "sched_inv (sched w')" "rest_inv (sched w') (condvars w') (workers w')"
    "length (workers w') = length (workers w)" for w'
    using that ne by (auto simp: world_inv_iff)
  have val: "i < num_txns (sched w)" if "t < length (workers w)" "workers w ! t = Validating i inc v" for t i inc v
    using D(3) that unfolding validators_ok_def by (metis nth_mem)
  from assms(1) show ?thesis
  proof cases
    case (ws_next t c task s')
    with next_task_runs [OF sched, of c] have "next_rel (sched w) task s'" by auto
    with ws_next show ?thesis
      using next_rel_sched_inv [OF _ sched] rest_inv_next [OF _ sched rest]
      by (intro goal) (simp_all add: set_worker_def)
  next
    case (ws_notify t cv)
    then show ?thesis using rest_inv_notify [OF rest] sched by (intro goal) (simp_all add: set_worker_def)
  next
    case (ws_wait t i inc dep r cvs' s')
    note run = worker_status(1) [OF D(1) ws_wait(2,3)]
    then have "dep < num_txns (sched w)" using ws_wait(4) by simp
    with wait_for_dependency_effect [OF sized, of i dep inc "condvars w"] run ws_wait(5)
    consider "r = None" "cvs' = condvars w @ [False]" "s' = sched w"
      | "r = Some (length (condvars w))" "cvs' = condvars w @ [False]" "\<not> done_status (es (sched w) dep)"
        "wait_spec (sched w) i inc dep (length (condvars w)) s'"
      by (auto split: if_splits)
    then show ?thesis
    proof cases
      case 1
      with ws_wait have "workers w' = workers w" by (simp add: set_worker_def list_update_same_conv)
      with 1 ws_wait(1) sched rest_inv_extend [OF rest] show ?thesis by (intro goal) (simp_all add: set_worker_def)
    next
      case 2
      have "sched_inv s'" using sched_inv_wait [OF sched _ _ ws_wait(4) 2(3,4)] run by blast
      with 2 ws_wait(1-4) rest_inv_wait [OF sched rest] show ?thesis
        by (intro goal) (simp_all add: set_worker_def)
    qed
  next
    case (ws_wake t i inc cv)
    then show ?thesis using rest_inv_wake [OF rest] sched by (intro goal) (simp_all add: set_worker_def)
  next
    case (ws_finish t i inc rv task s')
    note run = worker_status(1) [OF D(1) ws_finish(2,3)]
    with finish_execution_runs [OF sched _ ws_finish(4), of i inc rv] ws_finish(5)
    have spec: "finish_execution_spec (sched w) i inc rv task s'" by auto
    then have "sched_inv s'" using run sched_inv_finish_execution [OF sched _ _ ws_finish(4)] by blast
    with ws_finish(1) run rest_inv_finish [OF sched rest ws_finish(2,3) _ spec] show ?thesis
      by (intro goal) (simp_all add: set_worker_def)
  next
    case (ws_valid t i inc v s')
    with finish_validation_effect [OF sized, of i v] val have "finish_validation_spec (sched w) i v s'" by auto
    with ws_valid show ?thesis
      using sched_inv_finish_validation [OF sched] rest_inv_finish_validation [OF rest]
      by (intro goal) (simp_all add: set_worker_def)
  next
    case (ws_abort t i inc v s')
    with try_abort_effect [OF sized, of i inc] val
    have "es (sched w) i = Executed inc" "s' = set_exec (sched w) i (Aborting inc)" by (auto split: if_splits)
    with ws_abort val show ?thesis
      using sched_inv_try_abort [OF sched] rest_inv_abort [OF sched rest]
      by (intro goal) (simp_all add: set_worker_def)
  next
    case (ws_abort_lost t i inc v s1 s')
    with try_abort_effect [OF sized, of i inc] val have "s1 = sched w" by (auto split: if_splits)
    with ws_abort_lost finish_validation_effect [OF sized, of i v] val
    have "finish_validation_spec (sched w) i v s'" by auto
    with ws_abort_lost show ?thesis
      using sched_inv_finish_validation [OF sched] rest_inv_finish_validation [OF rest]
      by (intro goal) (simp_all add: set_worker_def)
  next
    case (ws_aborted t i inc task s')
    note run = worker_status(2) [OF D(1) ws_aborted(2,3)]
    with finish_abort_effect [OF sized _ ws_aborted(4), of i inc] ws_aborted(5)
    have spec: "finish_abort_spec (sched w) i inc task s'" by auto
    then have "sched_inv s'" using run sched_inv_finish_abort [OF sched _ _ ws_aborted(4)] by blast
    with ws_aborted(1) run rest_inv_aborted [OF sched rest ws_aborted(2,3) _ spec] show ?thesis
      by (intro goal) (simp_all add: set_worker_def)
  next
    case (ws_commit a b r s')
    with try_commit_runs [OF sched, of a b] have "try_commit_spec (a \<and> b) (sched w) r s'" by auto
    with ws_commit show ?thesis
      using sched_inv_try_commit [OF sched] rest_inv_commit [OF sched rest] by (intro goal) simp_all
  qed
qed

text \<open>A block of fewer than \<open>2 ^ 32\<close> transactions, worked on by at least one worker.\<close>

definition world_start :: "world \<Rightarrow> bool" where
  "world_start w \<longleftrightarrow> (\<exists>n m. n < 2 ^ 32 \<and> 0 < m \<and> w = world_init n m)"

interpretation sw: invariant_system world_start world_step world_inv
  by unfold_locales (auto simp: world_start_def world_inv_init intro: world_step_inv)

lemma reachableD:
  assumes "reachable world_start world_step w"
  shows "sched_inv (sched w)" "rest_inv (sched w) (condvars w) (workers w)" "workers w \<noteq> []"
  using sw.reachable_inv [OF assms] by (simp_all add: world_inv_iff)

lemma start_reachable: "n < 2 ^ 32 \<Longrightarrow> 0 < m \<Longrightarrow> reachable world_start world_step (world_init n m)"
  by (rule reach_init) (auto simp: world_start_def)

section \<open>Nothing is stuck\<close>

text \<open>Workers with a step of their own.\<close>

fun active :: "bool list \<Rightarrow> worker \<Rightarrow> bool" where
  "active cvs Idle = False"
| "active cvs Finished = False"
| "active cvs (Blocked _ _ cv) = cvs ! cv"
| "active cvs _ = True"

lemma idle_all_done:
  assumes own: "owners_ok s cvs ws" and deps: "deps_ok s" and quiet: "\<And>t. t < length ws \<Longrightarrow> \<not> active cvs (ws ! t)"
    and nr: "\<And>i inc cv. i < num_txns s \<Longrightarrow> es s i \<noteq> ReadyToExecute inc cv"
  shows "i < num_txns s \<Longrightarrow> done_status (es s i)"
proof (induction i rule: less_induct)
  case (less i)
  note fits = owners_okD(2) [OF own]
  have no_pend: "\<not> pending ws cv" for cv using quiet by (force simp: pending_iff)
  show ?case
  proof (rule ccontr)
    assume nd: "\<not> done_status (es s i)"
    show False
    proof (cases "es s i")
      case (Suspended a cv)
      from deps_okD(5) [OF deps less.prems this] obtain d where d: "d < i" "i \<in> set (deps s d)" by blast
      then have "d < num_txns s" using less.prems by simp
      with less.IH [OF d(1)] deps_okD(2) [OF deps, of d] d(2) show False by auto
    next
      case (Executing a)
      with owners_okD(4) [OF own less.prems] obtain t where t: "t < length ws" "owns (ws ! t) = Some i" by auto
      from fits [OF t] Executing quiet [OF t(1)] no_pend show False using t(2) by (cases "ws ! t") auto
    next
      case (Aborting a)
      with owners_okD(4) [OF own less.prems] obtain t where t: "t < length ws" "owns (ws ! t) = Some i" by auto
      from fits [OF t] Aborting quiet [OF t(1)] show False using t(2) by (cases "ws ! t") auto
    qed (use nd nr less.prems in simp_all)
  qed
qed

text \<open>When every transaction is done and the validations have caught up, the next commit goes through.\<close>

lemma commit_progress:
  assumes sched: "sched_inv s" and dn: "\<And>i. i < num_txns s \<Longrightarrow> done_status (es s i)"
    and vd: "\<And>i inc. i < num_txns s \<Longrightarrow> es s i = Executed inc \<Longrightarrow> \<exists>v. covers s i v \<and> mvw s i = Some v"
  shows "\<exists>r s'. try_commit True True s = Ret (r, s') \<and> (r \<noteq> None \<or> done_marker s')"
proof -
  from try_commit_runs [OF sched, of True True] obtain r s'
    where run: "try_commit True True s = Ret (r, s')" and spec: "try_commit_spec True s r s'" by auto
  obtain c w where c: "commit_state s = (c, w)" by force
  with sched_invD(5) [OF sched] have C: "c \<le> num_txns s" "\<And>i. i < num_txns s \<Longrightarrow> (\<exists>inc. es s i = Committed inc) \<longleftrightarrow> i < c"
    "w = 0 \<or> (\<exists>k<num_txns s. k \<le> c \<and> w \<le> mt s k)"
    by (auto simp: commit_ok_def)
  have "r \<noteq> None \<or> done_marker s'"
  proof (cases "c = num_txns s")
    case True
    with spec c show ?thesis by (simp add: try_commit_spec_def)
  next
    case False
    then have cn: "c < num_txns s" using C(1) by simp
    from dn [OF cn] C(2) [OF cn] obtain inc where e: "es s c = Executed inc" by (auto simp: done_status_iff)
    with vd cn obtain v where v: "covers s c v" "mvw s c = Some v" by blast
    have "w \<le> v" using C(3) v(1) by (auto simp: covers_def intro: order_trans)
    with v have "max (max w (mt s c)) (rq s c) \<le> v" by (simp add: covers_def)
    with spec c False e v(2) show ?thesis by (simp add: try_commit_spec_def Let_def)
  qed
  with run show ?thesis by blast
qed

lemma next_rel_NoTask:
  assumes "next_rel s task s'" and "task = NoTask"
  shows "num_txns s' \<le> execution_idx s' \<and> num_txns s' \<le> val_idx s' \<and> es s' = es s \<and> num_txns s' = num_txns s \<and> mvw s' = mvw s
    \<and> mt s' = mt s \<and> rq s' = rq s"
  using assms by (induction rule: next_rel.induct) (simp_all add: sched_views)

lemma idle_progress:
  assumes sched: "sched_inv s" and inv: "rest_inv s cvs ws" and quiet: "\<And>t. t < length ws \<Longrightarrow> \<not> active cvs (ws ! t)"
    and t: "t < length ws" "ws ! t = Idle" and nt: "next_task c s = Some (NoTask, s')"
  shows "\<exists>r s'. try_commit True True s = Ret (r, s') \<and> (r \<noteq> None \<or> done_marker s')"
proof -
  from next_task_runs [OF sched, of c] nt have nr: "next_rel s NoTask s'" by auto
  note N = next_rel_NoTask [OF nr refl]
  have sched': "sched_inv s'" using next_rel_sched_inv [OF nr sched] .
  have rest': "rest_inv s' cvs ws" using rest_inv_next [OF nr sched inv t] t(2) by (metis dispatch.simps(4) list_update_id)
  have no_val: "Validating i inc v \<notin> set ws" for i inc v using quiet by (force simp: in_set_conv_nth)
  have "es s i \<noteq> ReadyToExecute inc cv" if "i < num_txns s" for i inc cv
    using sched_invD(3) [OF sched'] N that unfolding ready_ok_def by fastforce
  then have "done_status (es s i)" if "i < num_txns s" for i
    using idle_all_done [OF rest_invD(1) [OF inv] sched_invD(2) [OF sched] quiet] that by blast
  moreover have "\<exists>v. covers s i v \<and> mvw s i = Some v" if "i < num_txns s" "es s i = Executed inc" for i inc
  proof -
    have "covers s' i = covers s i" using N by (simp add: covers_def fun_eq_iff)
    with valid_okD [OF rest_invD(4) [OF rest'], of i inc] N that no_val show ?thesis by auto
  qed
  ultimately show ?thesis by (rule commit_progress [OF sched])
qed

lemma blocked_impossible:
  assumes sched: "sched_inv s" and inv: "rest_inv s cvs ws" and ne: "ws \<noteq> []"
  shows "\<exists>t<length ws. active cvs (ws ! t) \<or> ws ! t = Idle \<or> ws ! t = Finished"
proof (rule ccontr)
  note D = rest_invD [OF inv]
  assume none: "\<not> ?thesis"
  then have quiet: "\<And>t. t < length ws \<Longrightarrow> \<not> active cvs (ws ! t)" by blast
  have bl: "\<exists>i inc cv. ws ! t = Blocked i inc cv \<and> \<not> cvs ! cv" if "t < length ws" for t
    using none that by (cases "ws ! t") auto
  then have "\<not> awake cvs ws d" for d unfolding awake_def by (metis free.simps(6) runs.simps(2))
  with D(5) have "es s i \<noteq> ReadyToExecute inc cv" if "i < num_txns s" for i inc cv
    using that by (simp add: awake_ok_def)
  with idle_all_done [OF D(1) sched_invD(2) [OF sched] quiet]
  have dn: "done_status (es s i)" if "i < num_txns s" for i using that by blast
  have t: "0 < length ws" using ne by simp
  from bl [OF t] obtain i inc cv where b: "ws ! 0 = Blocked i inc cv" by blast
  have "fits ((!) cvs) (pending ws) (es s i) (ws ! 0)" "i < num_txns s"
    using owners_okD(1,2) [OF D(1) t, of i] b by simp_all
  with dn [of i] b show False by (cases "es s i") auto
qed

section \<open>Properties\<close>




text \<open>The state in which the first of \<open>m + 1\<close> workers took the only transaction.\<close>

definition first_world :: "nat \<Rightarrow> world" where
  "first_world m = \<lparr>sched = (scheduler_new 1)\<lparr>execution_idx := 1, txn_status := [(Executing 0, validation_status_new)]\<rparr>,
     condvars = [], workers = Running 0 0 # replicate m Idle\<rparr>"

lemma first_world_reachable: "reachable world_start world_step (first_world m)"
proof -
  have "next_task True (scheduler_new 1) =
      Some (ExecutionTask (0, 0) None,
        (scheduler_new 1)\<lparr>execution_idx := 1, txn_status := [(Executing 0, validation_status_new)]\<rparr>)"
    by (subst next_task.simps) (simp add: scheduler_new_def unpack_validation_idx_def try_execute_next_version_def
        try_incarnate_def set_exec_def Let_def)
  then have "world_step (world_init 1 (Suc m)) (first_world m)"
    using ws_next [of 0 "world_init 1 (Suc m)" True]
    by (simp add: world_init_def first_world_def set_worker_def)
  then show ?thesis using start_reachable [of 1 "Suc m"] by (auto intro: reach_step)
qed





text \<open>Two workers took two transactions, and the second waits for the first.\<close>

lemmas scheduler_eval = scheduler_new_def validation_status_new_def unpack_validation_idx_def TXN_IDX_MASK_def
  try_execute_next_version_def try_validate_next_version_def try_incarnate_def is_executed_def set_exec_def set_val_def
  wait_for_dependency_def suspend_def finish_execution_def set_executed_status_def finish_validation_def try_commit_def Let_def
  set_worker_def world_init_def cur_wave_def es_def mt_def rq_def mvw_def deps_def

definition waiting_world :: world where
  "waiting_world = \<lparr>sched = (scheduler_new 2)\<lparr>execution_idx := 2, validation_idx := 1, txn_dependency := [[1], []],
       txn_status := [(Executing 0, validation_status_new), (Suspended 0 0, validation_status_new)]\<rparr>,
     condvars = [False], workers = [Running 0 0, Blocked 1 0 0]\<rparr>"

lemma waiting_world_reachable: "reachable world_start world_step waiting_world"
proof -
  let ?s0 = "scheduler_new 2" and ?e = "(Executing 0, validation_status_new)"
  let ?s1 = "?s0\<lparr>execution_idx := 1, txn_status := [?e, (ReadyToExecute 0 None, validation_status_new)]\<rparr>"
  let ?s2 = "?s0\<lparr>execution_idx := 2, validation_idx := 1, txn_status := [?e, ?e]\<rparr>"
  let ?w = "\<lambda>s ws. \<lparr>sched = s, condvars = [], workers = ws\<rparr>"
  have i: "world_init 2 2 = ?w ?s0 [Idle, Idle]" by (simp add: world_init_def numeral_2_eq_2)
  have n1: "next_task True ?s0 = Some (ExecutionTask (0, 0) None, ?s1)"
    by (subst next_task.simps) (simp add: scheduler_eval numeral_2_eq_2)
  have n2: "next_task True ?s1 = Some (ExecutionTask (1, 0) None, ?s2)"
    by (subst next_task.simps, simp add: scheduler_eval numeral_2_eq_2,
        subst next_task.simps, simp add: scheduler_eval numeral_2_eq_2)
  have "reachable world_start world_step (?w ?s0 [Idle, Idle])" using start_reachable [of 2 2] i by simp
  moreover have "world_step (?w ?s0 [Idle, Idle]) (?w ?s1 [Running 0 0, Idle])"
    using ws_next [of 0 "?w ?s0 [Idle, Idle]" True] n1 by (simp add: set_worker_def)
  moreover have "world_step (?w ?s1 [Running 0 0, Idle]) (?w ?s2 [Running 0 0, Running 1 0])"
    using ws_next [of 1 "?w ?s1 [Running 0 0, Idle]" True] n2 by (simp add: set_worker_def)
  moreover have "world_step (?w ?s2 [Running 0 0, Running 1 0]) waiting_world"
    using ws_wait [of 1 "?w ?s2 [Running 0 0, Running 1 0]" 1 0 0]
    by (simp add: scheduler_eval waiting_world_def index_def numeral_2_eq_2)
  ultimately show ?thesis by (meson reach_step)
qed


text \<open>
  C17. The committed transactions are always exactly those below the commit index, and the block is
  declared done only when every transaction is committed.
\<close>

theorem committed_is_prefix:
  assumes "reachable world_start world_step w"
  shows "fst (commit_state (sched w)) \<le> num_txns (sched w)
    \<and> (\<forall>i<num_txns (sched w). (\<exists>inc. es (sched w) i = Committed inc) \<longleftrightarrow> i < fst (commit_state (sched w)))
    \<and> (done_marker (sched w) \<longrightarrow> fst (commit_state (sched w)) = num_txns (sched w))"
  using sched_invD(5) [OF reachableD(1) [OF assms]] by (simp add: commit_ok_def split: prod.splits)

section \<open>Commits are final\<close>

lemma next_rel_committed:
  assumes "next_rel s task s'" and "sched_inv s" and "es s i = Committed inc"
  shows "es s' i = Committed inc"
  using assms
proof (induction rule: next_rel.induct)
  case (nr_execute s a cv)
  then have "execution_idx s < length (txn_status s)" using in_range sched_invD(1) by blast
  with nr_execute show ?case by (auto simp: sched_views)
qed (auto simp: sched_views intro: sched_inv_validate sched_inv_skip_execute)

lemma world_step_committed:
  assumes "world_step w w'" and "world_inv w" and c: "es (sched w) j = Committed a"
  shows "es (sched w') j = Committed a"
proof -
  from assms(2) have sched: "sched_inv (sched w)" and rest: "rest_inv (sched w) (condvars w) (workers w)"
    by (simp_all add: world_inv_iff)
  note sized = sched_invD(1) [OF sched] and D = rest_invD [OF rest]
  have val: "i < num_txns (sched w)" if "t < length (workers w)" "workers w ! t = Validating i inc v" for t i inc v
    using D(3) that unfolding validators_ok_def by (metis nth_mem)
  from assms(1) show ?thesis
  proof cases
    case (ws_next t b task s')
    with next_task_runs [OF sched, of b] have "next_rel (sched w) task s'" by auto
    from next_rel_committed [OF this sched c] ws_next(1) show ?thesis by (simp add: set_worker_def)
  next
    case (ws_wait t i inc dep r cvs' s')
    note run = worker_status(1) [OF D(1) ws_wait(2,3)]
    then have "dep < num_txns (sched w)" using ws_wait(4) by simp
    with wait_for_dependency_effect [OF sized, of i dep inc "condvars w"] run ws_wait(5)
    have "s' = sched w \<or> es s' = (es (sched w))(i := Suspended inc (length (condvars w)))"
      by (auto simp: wait_spec_def split: if_splits)
    with run c ws_wait(1) show ?thesis by (auto simp: set_worker_def)
  next
    case (ws_finish t i inc rv task s')
    note run = worker_status(1) [OF D(1) ws_finish(2,3)]
    with finish_execution_runs [OF sched _ ws_finish(4), of i inc rv] ws_finish(5)
    have "finish_execution_spec (sched w) i inc rv task s'" by auto
    with run c ws_finish(1) show ?thesis by (auto simp: set_worker_def finish_execution_spec_def)
  next
    case (ws_abort t i inc v s')
    with try_abort_effect [OF sized, of i inc] val
    have "es (sched w) i = Executed inc" "s' = set_exec (sched w) i (Aborting inc)" by (auto split: if_splits)
    with ws_abort(1) in_range [OF sized val [OF ws_abort(2,3)]] c show ?thesis by (auto simp: set_worker_def sched_views)
  next
    case (ws_aborted t i inc task s')
    note run = worker_status(2) [OF D(1) ws_aborted(2,3)]
    with finish_abort_effect [OF sized _ ws_aborted(4), of i inc] ws_aborted(5)
    have "finish_abort_spec (sched w) i inc task s'" by auto
    with run c ws_aborted(1) show ?thesis by (auto simp: set_worker_def finish_abort_spec_def split: if_splits)
  next
    case (ws_valid t i inc v s')
    with finish_validation_effect [OF sized, of i v] val c show ?thesis
      by (auto simp: finish_validation_spec_def set_worker_def)
  next
    case (ws_abort_lost t i inc v s1 s')
    with try_abort_effect [OF sized, of i inc] val have "s1 = sched w" by (auto split: if_splits)
    with ws_abort_lost finish_validation_effect [OF sized, of i v] val c show ?thesis
      by (auto simp: finish_validation_spec_def set_worker_def)
  next
    case (ws_commit b d r s')
    with try_commit_runs [OF sched, of b d] have "try_commit_spec (b \<and> d) (sched w) r s'" by auto
    with ws_commit(1) c show ?thesis
      by (cases "j = fst (commit_state (sched w))")
        (auto simp: try_commit_spec_def Let_def sched_views set_exec_def es_def split: if_splits prod.splits)
  qed (use c in \<open>simp_all add: set_worker_def\<close>)
qed

text \<open>
  C16. A commit is final: once a transaction is committed with an incarnation, it stays committed with that
  incarnation whatever the workers do.
\<close>

theorem commit_is_final:
  assumes "reachable world_start world_step w" and "world_step\<^sup>*\<^sup>* w w'" and "es (sched w) i = Committed inc"
  shows "es (sched w') i = Committed inc"
  using assms(2)
proof (induction rule: rtranclp_induct)
  case (step u v)
  have "world_inv u" by (rule sw.steps_inv [OF step.hyps(1) sw.reachable_inv [OF assms(1)]])
  with world_step_committed [OF step.hyps(2) _ step.IH] show ?case .
qed (rule assms(3))

text \<open>The only transaction is executed, validated and committed.\<close>

definition committed_world :: world where
  "committed_world = \<lparr>sched = (scheduler_new 1)\<lparr>execution_idx := 1, validation_idx := 1, commit_state := (1, 0),
       txn_status := [(Committed 0, validation_status_new\<lparr>maybe_max_validated_wave := Some 0\<rparr>)]\<rparr>,
     condvars = [], workers = [Idle]\<rparr>"

lemma committed_world_reachable: "reachable world_start world_step committed_world"
proof -
  let ?s1 = "(scheduler_new 1)\<lparr>execution_idx := 1, txn_status := [(Executed 0, validation_status_new)]\<rparr>"
  let ?s2 = "?s1\<lparr>validation_idx := 1\<rparr>"
  let ?s3 = "?s2\<lparr>txn_status := [(Executed 0, validation_status_new\<lparr>maybe_max_validated_wave := Some 0\<rparr>)]\<rparr>"
  let ?w = "\<lambda>s x. \<lparr>sched = s, condvars = [], workers = [x]\<rparr>"
  have n: "next_task True ?s1 = Some (ValidationTask (0, 0) 0, ?s2)"
    by (subst next_task.simps) (simp add: scheduler_eval)
  have "world_step (first_world 0) (?w ?s1 Idle)"
    using ws_finish [of 0 "first_world 0" 0 0 True] by (simp add: scheduler_eval first_world_def index_def)
  moreover have "world_step (?w ?s1 Idle) (?w ?s2 (Validating 0 0 0))"
    using ws_next [of 0 "?w ?s1 Idle" True] n by (simp add: set_worker_def)
  moreover have "world_step (?w ?s2 (Validating 0 0 0)) (?w ?s3 Idle)"
    using ws_valid [of 0 "?w ?s2 (Validating 0 0 0)" 0 0 0] by (simp add: scheduler_eval index_def)
  moreover have "world_step (?w ?s3 Idle) committed_world"
    using ws_commit [of True True "?w ?s3 Idle"] by (simp add: scheduler_eval committed_world_def index_def)
  ultimately show ?thesis using first_world_reachable [of 0] by (meson reach_step)
qed

theorem committed_is_prefix_witness:
  "reachable world_start world_step committed_world \<and> 0 < num_txns (sched committed_world)
    \<and> fst (commit_state (sched committed_world)) \<le> num_txns (sched committed_world)
    \<and> (\<exists>inc. es (sched committed_world) 0 = Committed inc) \<and> 0 < fst (commit_state (sched committed_world))"
proof -
  have "0 < num_txns (sched committed_world)" "0 < fst (commit_state (sched committed_world))"
    by (simp_all add: committed_world_def scheduler_new_def)
  then show ?thesis using committed_is_prefix [OF committed_world_reachable] committed_world_reachable by blast
qed

theorem commit_is_final_witness:
  "reachable world_start world_step committed_world \<and> world_step\<^sup>*\<^sup>* committed_world committed_world
    \<and> es (sched committed_world) 0 = Committed 0"
proof -
  have "es (sched committed_world) 0 = Committed 0" by (simp add: committed_world_def es_def)
  from commit_is_final [OF committed_world_reachable rtranclp.rtrancl_refl this]
  show ?thesis using committed_world_reachable by blast
qed

end
