(* ===== verification/Executor.thy ===== *)
theory Executor
  imports View DeltaResolver SchedulerLive
begin

text \<open>
  The block executor (\<^verbatim>\<open>block-executor/src/executor.rs\<close>): executing and validating one version of a
  transaction, the sequential executor, and what happens before and after the workers of the parallel
  executor run. The traits of the executor are collected in one record of parameters; the virtual machine
  is a tree of reads for every transaction, as in theory \<open>View\<close>.
\<close>

record ('t, 'k, 'p, 'v, 'o, 'e, 'b) exec_traits =
  extract_value :: "'v \<Rightarrow> bytes option"
  to_bytes :: "u128 \<Rightarrow> bytes"
  from_bytes :: "bytes \<Rightarrow> u128 option"
  base_view :: "'k \<Rightarrow> 'b + bytes option"
  module_path :: "'k \<Rightarrow> 'p option"
  get_writes :: "'o \<Rightarrow> ('k \<times> 'v) list"
  get_deltas :: "'o \<Rightarrow> ('k \<times> delta_op) list"
  skip_output :: 'o
  execute_transaction :: "'t \<Rightarrow> txn_index \<Rightarrow> bool \<Rightarrow> ('k, 'b view_error + bytes option, ('o, 'e) txn_status) vm"

section \<open>Executing a version\<close>

text \<open>
  The closure \<^verbatim>\<open>apply_updates\<close>. The state is the map, the keys of the previous execution that were not overwritten
  yet, and whether a key outside of them was updated.
\<close>

type_synonym ('k, 'v) update_state = "('k, 'v) mv_hashmap \<times> 'k list \<times> bool"

definition take_key :: "'k \<Rightarrow> 'k list \<times> bool \<Rightarrow> 'k list \<times> bool" where
  "take_key k = (\<lambda>(prev_modified_keys, updates_outside).
     (removeAll k prev_modified_keys, if k \<in> set prev_modified_keys then updates_outside else True))"

fun apply_writes :: "version \<Rightarrow> ('k \<times> 'v) list \<Rightarrow> ('k, 'v) update_state \<Rightarrow> ('k, 'v) update_state outcome" where
  "apply_writes write_version [] st = Ret st"
| "apply_writes write_version ((k, v) # ws) (m, prev) =
     out_bind (add_write m k write_version v) (\<lambda>m'. apply_writes write_version ws (m', take_key k prev))"

fun apply_deltas :: "txn_index \<Rightarrow> ('k \<times> delta_op) list \<Rightarrow> ('k, 'v) update_state \<Rightarrow> ('k, 'v) update_state" where
  "apply_deltas idx [] st = st"
| "apply_deltas idx ((k, d) # ds) (m, prev) = apply_deltas idx ds (add_delta m k idx d, take_key k prev)"

definition apply_updates ::
  "('t, 'k, 'p, 'v, 'o, 'e, 'b) exec_traits \<Rightarrow> version \<Rightarrow> 'o \<Rightarrow> ('k, 'v) update_state \<Rightarrow> ('k, 'v) update_state outcome" where
  "apply_updates env version output st =
     out_bind (apply_writes version (get_writes env output) st) (\<lambda>st'.
       Ret (apply_deltas (fst version) (get_deltas env output) st'))"

fun delete_keys :: "txn_index \<Rightarrow> 'k list \<Rightarrow> ('k, 'v) mv_hashmap \<Rightarrow> ('k, 'v) mv_hashmap outcome" where
  "delete_keys idx [] m = Ret m"
| "delete_keys idx (k # ks) m = out_bind (mv_delete m k idx) (delete_keys idx ks)"

text \<open>The updates of a status and the status that is recorded.\<close>

fun publish ::
  "('t, 'k, 'p, 'v, 'o, 'e, 'b) exec_traits \<Rightarrow> version \<Rightarrow> ('o, 'e) txn_status \<Rightarrow> ('k, 'v) update_state
     \<Rightarrow> (('o, 'e exec_error) txn_status \<times> ('k, 'v) update_state) outcome" where
  "publish env version (Success output) st =
     out_bind (apply_updates env version output st) (\<lambda>st'. Ret (Success output, st'))"
| "publish env version (SkipRest output) st =
     out_bind (apply_updates env version output st) (\<lambda>st'. Ret (SkipRest output, st'))"
| "publish env version (Abort err) st = Ret (Abort (UserError err), st)"

text \<open>What the workers share.\<close>

record ('k, 'p, 'v, 'o, 'e) shared =
  mv :: "('k, 'v) mv_hashmap"
  lio :: "('k, 'p, 'o, 'e) last_io"
  schd :: scheduler

definition complete_execution ::
  "('t, 'k, 'p, 'v, 'o, 'e, 'b) exec_traits \<Rightarrow> version \<Rightarrow> ('o, 'e) txn_status \<Rightarrow> 'k read_descriptor list
     \<Rightarrow> ('k, 'p, 'v, 'o, 'e) shared \<Rightarrow> (scheduler_task \<times> ('k, 'p, 'v, 'o, 'e) shared) outcome" where
  "complete_execution env version execute_result reads s =
     (case version of (idx_to_execute, incarnation) \<Rightarrow>
        out_bind (modified_keys (get_writes env) (get_deltas env) (lio s) idx_to_execute) (\<lambda>prev_modified_keys.
        out_bind (publish env version execute_result (mv s, prev_modified_keys, False))
          (\<lambda>(result, m, prev_modified_keys, updates_outside).
        out_bind (delete_keys idx_to_execute prev_modified_keys m) (\<lambda>m.
        out_bind (lio_record (module_path env) (get_writes env) (lio s) idx_to_execute reads result) (\<lambda>io.
        out_bind (finish_execution (schd s) idx_to_execute incarnation updates_outside) (\<lambda>(task, sc).
          Ret (task, \<lparr>mv = m, lio = io, schd = sc\<rparr>)))))))"

text \<open>
  \<^verbatim>\<open>execute\<close>, when the machine meets no dependency on the map as it is; otherwise the dependency, the
  suspended machine and the reads captured so far.
\<close>

definition execute ::
  "('t, 'k, 'p, 'v, 'o, 'e, 'b) exec_traits \<Rightarrow> version \<Rightarrow> 't list \<Rightarrow> ('k, 'p, 'v, 'o, 'e) shared
     \<Rightarrow> ((txn_index \<times> ('k, 'b view_error + bytes option, ('o, 'e) txn_status) vm \<times> 'k read_descriptor list)
          + scheduler_task \<times> ('k, 'p, 'v, 'o, 'e) shared) outcome" where
  "execute env version block s =
     (case version of (idx_to_execute, incarnation) \<Rightarrow>
        out_bind (index block idx_to_execute) (\<lambda>txn.
        out_bind (vm_run_mv (mv_answer (extract_value env) (to_bytes env) (from_bytes env) (base_view env) (mv s) idx_to_execute)
            (execute_transaction env txn idx_to_execute False) []) (\<lambda>r.
          case r of
            Depends_on dep_idx machine reads \<Rightarrow> Ret (Inl (dep_idx, machine, reads))
          | Finished_run execute_result reads \<Rightarrow>
              out_bind (complete_execution env version execute_result reads s) (\<lambda>x. Ret (Inr x)))))"

section \<open>Validating a version\<close>

definition validate_read ::
  "('v \<Rightarrow> bytes option) \<Rightarrow> (bytes \<Rightarrow> u128 option) \<Rightarrow> ('k, 'v) mv_hashmap \<Rightarrow> txn_index \<Rightarrow> 'k read_descriptor \<Rightarrow> bool outcome" where
  "validate_read ex fb m idx_to_validate r =
     out_bind (mv_read ex fb m (access_path r) idx_to_validate) (\<lambda>res. Ret
       (case res of
          Inr (Version version _) \<Rightarrow> validate_version r version
        | Inr (Resolved v) \<Rightarrow> validate_resolved r v
        | Inl (Dependency _) \<Rightarrow> False
        | Inl (Unresolved delta) \<Rightarrow> validate_unresolved r delta
        | Inl NotFound \<Rightarrow> validate_storage r
        | Inl DeltaApplicationFailure \<Rightarrow> validate_delta_application_failure r))"

fun validate_reads ::
  "('v \<Rightarrow> bytes option) \<Rightarrow> (bytes \<Rightarrow> u128 option) \<Rightarrow> ('k, 'v) mv_hashmap \<Rightarrow> txn_index \<Rightarrow> 'k read_descriptor list
     \<Rightarrow> bool outcome" where
  "validate_reads ex fb m idx [] = Ret True"
| "validate_reads ex fb m idx (r # rs) =
     out_bind (validate_read ex fb m idx r) (\<lambda>ok. if ok then validate_reads ex fb m idx rs else Ret False)"

fun mark_estimates :: "txn_index \<Rightarrow> 'k list \<Rightarrow> ('k, 'v) mv_hashmap \<Rightarrow> ('k, 'v) mv_hashmap outcome" where
  "mark_estimates idx [] m = Ret m"
| "mark_estimates idx (k # ks) m = out_bind (mark_estimate m k idx) (mark_estimates idx ks)"

definition validate ::
  "('t, 'k, 'p, 'v, 'o, 'e, 'b) exec_traits \<Rightarrow> version \<Rightarrow> wave \<Rightarrow> ('k, 'p, 'v, 'o, 'e) shared
     \<Rightarrow> (scheduler_task \<times> ('k, 'p, 'v, 'o, 'e) shared) outcome" where
  "validate env version_to_validate validation_wave s =
     (case version_to_validate of (idx_to_validate, incarnation) \<Rightarrow>
        out_bind (read_set (lio s) idx_to_validate) (\<lambda>reads.
        out_bind (expect reads) (\<lambda>reads.
        out_bind (validate_reads (extract_value env) (from_bytes env) (mv s) idx_to_validate reads) (\<lambda>valid.
        out_bind (if valid then Ret (False, schd s) else try_abort (schd s) idx_to_validate incarnation) (\<lambda>(aborted, sc).
          if aborted
          then out_bind (modified_keys (get_writes env) (get_deltas env) (lio s) idx_to_validate) (\<lambda>ks.
               out_bind (mark_estimates idx_to_validate ks (mv s)) (\<lambda>m.
               out_bind (finish_abort sc idx_to_validate incarnation) (\<lambda>(task, sc).
                 Ret (task, s\<lparr>mv := m, schd := sc\<rparr>))))
          else out_bind (finish_validation sc idx_to_validate validation_wave) (\<lambda>sc.
                 Ret (NoTask, s\<lparr>schd := sc\<rparr>)))))))"

section \<open>Sequential execution\<close>

type_synonym ('k, 'o) block_output = "('o \<times> ('k \<times> write_op) list) list"

definition insert_writes :: "('k::linorder \<times> 'v) list \<Rightarrow> ('k, 'v) btree_map \<Rightarrow> ('k, 'v) btree_map" where
  "insert_writes ws m = fold (\<lambda>(ap, write_op). btm_insert ap write_op) ws m"

text \<open>The loop over the transactions from index \<open>idx\<close> on, with the outputs \<open>ret\<close> pushed so far.\<close>

fun seq_loop ::
  "('t, 'k::linorder, 'p, 'v, 'o, 'e, 'b) exec_traits \<Rightarrow> txn_index \<Rightarrow> 't list \<Rightarrow> ('k, 'v) btree_map \<Rightarrow> 'o list
     \<Rightarrow> ('e exec_error + 'o list) outcome" where
  "seq_loop env idx [] data_map ret = Ret (Inr ret)"
| "seq_loop env idx (txn # txns) data_map ret =
     (case vm_run (btree_state_value (extract_value env) (base_view env) data_map) (execute_transaction env txn idx True) of
        Success output \<Rightarrow>
          if get_deltas env output = []
          then seq_loop env (idx + 1) txns (insert_writes (get_writes env output) data_map) (ret @ [output])
          else Panic
      | SkipRest output \<Rightarrow> if get_deltas env output = [] then Ret (Inr (ret @ [output])) else Panic
      | Abort err \<Rightarrow> Ret (Inl (UserError err)))"

text \<open>\<^verbatim>\<open>Vec::resize_with\<close> on a vector that is not longer than the new length.\<close>

definition resize_with :: "nat \<Rightarrow> 'a \<Rightarrow> 'a list \<Rightarrow> 'a list" where
  "resize_with n x xs = take n xs @ replicate (n - length xs) x"

definition execute_transactions_sequential ::
  "('t, 'k::linorder, 'p, 'v, 'o, 'e, 'b) exec_traits \<Rightarrow> 't list \<Rightarrow> ('e exec_error + ('k, 'o) block_output) outcome" where
  "execute_transactions_sequential env block =
     out_bind (seq_loop env 0 block [] []) (\<lambda>r. Ret (and_then r (\<lambda>ret.
       Inr (map (\<lambda>out. (out, [])) (resize_with (length block) (skip_output env) ret)))))"

section \<open>Around the workers of the parallel executor\<close>

text \<open>
  Taking the outputs from index \<open>idx\<close> on, for \<open>n\<close> transactions: the error of the first abort, or
  the outputs up to the first that skips the rest.
\<close>

fun take_outputs ::
  "nat \<Rightarrow> txn_index \<Rightarrow> ('k, 'p, 'o, 'e) last_io \<Rightarrow> 'o list \<Rightarrow> ('e exec_error + 'o list) outcome" where
  "take_outputs 0 idx io final_results = Ret (Inr final_results)"
| "take_outputs (Suc n) idx io final_results =
     out_bind (take_output io idx) (\<lambda>(status, io').
       case status of
         Success t \<Rightarrow> take_outputs n (idx + 1) io' (final_results @ [t])
       | SkipRest t \<Rightarrow> Ret (Inr (final_results @ [t]))
       | Abort err \<Rightarrow> Ret (Inl err))"

definition collect_outputs :: "nat \<Rightarrow> ('k, 'p, 'o, 'e) last_io \<Rightarrow> ('e exec_error + 'o list) outcome" where
  "collect_outputs n io =
     (if module_publishing_may_race io then Ret (Inl ModulePathReadWrite) else take_outputs n 0 io [])"

text \<open>
  \<^verbatim>\<open>execute_transactions_parallel\<close>, where \<open>final\<close> is what the workers leave behind when they are all done.
\<close>

definition execute_transactions_parallel ::
  "('t, 'k, 'p, 'v, 'o, 'e, 'b) exec_traits \<Rightarrow> nat \<Rightarrow> 't list \<Rightarrow> ('k, 'v) mv_hashmap \<times> ('k, 'p, 'o, 'e) last_io
     \<Rightarrow> ('e exec_error + ('k, 'o) block_output) outcome" where
  "execute_transactions_parallel env concurrency_level block final =
     (if concurrency_level > 1
      then if block = [] then Ret (Inr [])
           else case final of (m, io) \<Rightarrow>
             out_bind (collect_outputs (length block) io) (\<lambda>r.
               case r of
                 Inl err \<Rightarrow> Ret (Inl err)
               | Inr final_results \<Rightarrow>
                   out_bind (resolve (extract_value env) (to_bytes env) (from_bytes env) (base_view env) m (length block)) (\<lambda>deltas.
                     Ret (Inr (zip (resize_with (length block) (skip_output env) final_results) deltas))))
      else Panic)"

definition execute_block ::
  "('t, 'k::linorder, 'p, 'v, 'o, 'e, 'b) exec_traits \<Rightarrow> nat \<Rightarrow> 't list \<Rightarrow> ('k, 'v) mv_hashmap \<times> ('k, 'p, 'o, 'e) last_io
     \<Rightarrow> ('e exec_error + ('k, 'o) block_output) outcome" where
  "execute_block env concurrency_level block final =
     out_bind (if concurrency_level > 1 then execute_transactions_parallel env concurrency_level block final
               else execute_transactions_sequential env block) (\<lambda>ret.
       if ret = Inl ModulePathReadWrite then execute_transactions_sequential env block else Ret ret)"

text \<open>\<^verbatim>\<open>BlockExecutor::new\<close> with \<open>cpus\<close> processors.\<close>

definition block_executor_new :: "nat \<Rightarrow> nat \<Rightarrow> nat outcome" where
  "block_executor_new cpus concurrency_level =
     assert_that (concurrency_level > 0 \<and> concurrency_level \<le> cpus) concurrency_level"

section \<open>Publishing an output\<close>

lemma apply_writes_effect:
  assumes "mv_inv m" and "distinct (map fst ws)" and "\<And>k. k \<in> fst ` set ws \<Longrightarrow> lower_incarnation inc (entry_at m k i)"
  shows "\<exists>m'. apply_writes (i, inc) ws (m, prev, out) =
      Ret (m', filter (\<lambda>k. k \<notin> fst ` set ws) prev, out \<or> \<not> fst ` set ws \<subseteq> set prev)
    \<and> mv_inv m' \<and> (\<forall>k j. entry_at m' k j =
        (if j = i then case map_of ws k of Some v \<Rightarrow> Some (new_write_from FLAG_DONE inc v) | None \<Rightarrow> entry_at m k j
         else entry_at m k j))"
  using assms
proof (induction ws arbitrary: m prev out)
  case Nil
  then show ?case by simp
next
  case (Cons w ws)
  obtain k v where w: "w = (k, v)" by force
  have "lower_incarnation inc (entry_at m k i)" using Cons.prems(3) w by simp
  from add_write_Ret [OF Cons.prems(1) this, of v] obtain m1 where m1: "add_write m k (i, inc) v = Ret m1" "mv_inv m1"
    and e1: "\<And>k' i'. entry_at m1 k' i' = (if k' = k \<and> i' = i then Some (new_write_from FLAG_DONE inc v) else entry_at m k' i')"
    by blast
  have "lower_incarnation inc (entry_at m1 k' i)" if "k' \<in> fst ` set ws" for k'
    using that Cons.prems(2,3) w by (auto simp: e1)
  moreover have dw: "distinct (map fst ws)" using Cons.prems(2) by simp
  ultimately obtain m'
    where m': "apply_writes (i, inc) ws (m1, removeAll k prev, if k \<in> set prev then out else True) =
        Ret (m', filter (\<lambda>k. k \<notin> fst ` set ws) (removeAll k prev),
          (if k \<in> set prev then out else True) \<or> \<not> fst ` set ws \<subseteq> set (removeAll k prev))" "mv_inv m'"
    and e': "\<And>k' j. entry_at m' k' j =
        (if j = i then case map_of ws k' of Some v \<Rightarrow> Some (new_write_from FLAG_DONE inc v) | None \<Rightarrow> entry_at m1 k' j
         else entry_at m1 k' j)"
    using Cons.IH [OF m1(2) dw, of "removeAll k prev" "if k \<in> set prev then out else True"] by blast
  have "k \<notin> fst ` set ws" using Cons.prems(2) w by auto
  then have "fst ` set ws \<subseteq> set (removeAll k prev) \<longleftrightarrow> fst ` set ws \<subseteq> set prev" by auto
  moreover have "filter (\<lambda>k. k \<notin> fst ` set ws) (removeAll k prev) = filter (\<lambda>x. x \<notin> fst ` set (w # ws)) prev"
    by (auto simp: w removeAll_filter_not_eq intro: filter_cong)
  moreover have "entry_at m' k' j = (if j = i then case map_of (w # ws) k' of
        Some v \<Rightarrow> Some (new_write_from FLAG_DONE inc v) | None \<Rightarrow> entry_at m k' j else entry_at m k' j)" for k' j
    using \<open>k \<notin> fst ` set ws\<close> by (simp add: e' e1 w split: option.split) (auto dest: map_of_SomeD simp: rev_image_eqI)
  ultimately show ?case using m1(1) m' w by (auto simp: take_key_def)
qed

lemma apply_deltas_effect:
  assumes "mv_inv m" and "distinct (map fst ds)"
  shows "\<exists>m'. apply_deltas i ds (m, prev, out) =
      (m', filter (\<lambda>k. k \<notin> fst ` set ds) prev, out \<or> \<not> fst ` set ds \<subseteq> set prev)
    \<and> mv_inv m' \<and> (\<forall>k j. entry_at m' k j =
        (if j = i then case map_of ds k of Some d \<Rightarrow> Some (new_delta_from FLAG_DONE d) | None \<Rightarrow> entry_at m k j
         else entry_at m k j))"
  using assms
proof (induction ds arbitrary: m prev out)
  case Nil
  then show ?case by simp
next
  case (Cons w ds)
  obtain k d where w: "w = (k, d)" by force
  let ?m = "add_delta m k i d"
  note m1 = add_delta_inv [OF Cons.prems(1), of k i d]
  have dd: "distinct (map fst ds)" using Cons.prems(2) by simp
  obtain m' where m': "apply_deltas i ds (?m, removeAll k prev, if k \<in> set prev then out else True) =
        (m', filter (\<lambda>k. k \<notin> fst ` set ds) (removeAll k prev),
          (if k \<in> set prev then out else True) \<or> \<not> fst ` set ds \<subseteq> set (removeAll k prev))" "mv_inv m'"
    and e': "\<And>k' j. entry_at m' k' j =
        (if j = i then case map_of ds k' of Some d \<Rightarrow> Some (new_delta_from FLAG_DONE d) | None \<Rightarrow> entry_at ?m k' j
         else entry_at ?m k' j)"
    using Cons.IH [OF m1(1) dd, of "removeAll k prev" "if k \<in> set prev then out else True"] by blast
  have "k \<notin> fst ` set ds" using Cons.prems(2) w by auto
  then have "fst ` set ds \<subseteq> set (removeAll k prev) \<longleftrightarrow> fst ` set ds \<subseteq> set prev" by auto
  moreover have "filter (\<lambda>k. k \<notin> fst ` set ds) (removeAll k prev) = filter (\<lambda>x. x \<notin> fst ` set (w # ds)) prev"
    by (auto simp: w removeAll_filter_not_eq intro: filter_cong)
  moreover have "entry_at m' k' j = (if j = i then case map_of (w # ds) k' of
        Some d \<Rightarrow> Some (new_delta_from FLAG_DONE d) | None \<Rightarrow> entry_at m k' j else entry_at m k' j)" for k' j
    using \<open>k \<notin> fst ` set ds\<close> by (simp add: e' m1 w split: option.split) (auto dest: map_of_SomeD simp: rev_image_eqI)
  ultimately show ?case using m' w by (auto simp: take_key_def)
qed

lemma delete_keys_effect:
  assumes "mv_inv m" and "\<And>k. k \<in> set ks \<Longrightarrow> mv_data m k \<noteq> None"
  shows "\<exists>m'. delete_keys i ks m = Ret m' \<and> mv_inv m'
    \<and> (\<forall>k j. entry_at m' k j = (if j = i \<and> k \<in> set ks then None else entry_at m k j))"
  using assms
proof (induction ks arbitrary: m)
  case Nil
  then show ?case by simp
next
  case (Cons k ks)
  from Cons.prems(2) [of k] mv_delete_Ret [OF Cons.prems(1), of k i] obtain m1
    where m1: "mv_delete m k i = Ret m1" "mv_inv m1"
    and e1: "\<And>k' i'. entry_at m1 k' i' = (if k' = k \<and> i' = i then None else entry_at m k' i')" by auto
  have "mv_data m1 k' \<noteq> None" if "k' \<in> set ks" for k'
    using m1(1) Cons.prems(2) [of k'] that by (auto simp: mv_delete_def out_bind_eq_Ret_iff)
  from Cons.IH [OF m1(2) this] obtain m' where "delete_keys i ks m1 = Ret m'" "mv_inv m'"
    "\<And>k j. entry_at m' k j = (if j = i \<and> k \<in> set ks then None else entry_at m1 k j)" by auto
  with m1(1) show ?case by (auto simp: e1)
qed

text \<open>The entries that a status with incarnation \<open>inc\<close> should have in the map.\<close>

definition output_entry ::
  "('t, 'k, 'p, 'v, 'o, 'e, 'b) exec_traits \<Rightarrow> incarnation \<Rightarrow> 'o \<Rightarrow> 'k \<Rightarrow> 'v mv_entry option" where
  "output_entry env inc out k =
     (case map_of (get_deltas env out) k of
        Some d \<Rightarrow> Some (new_delta_from FLAG_DONE d)
      | None \<Rightarrow> map_option (new_write_from FLAG_DONE inc) (map_of (get_writes env out) k))"

fun status_entry ::
  "('t, 'k, 'p, 'v, 'o, 'e, 'b) exec_traits \<Rightarrow> incarnation \<Rightarrow> ('o, 'f) txn_status \<Rightarrow> 'k \<Rightarrow> 'v mv_entry option" where
  "status_entry env inc (Success out) k = output_entry env inc out k"
| "status_entry env inc (SkipRest out) k = output_entry env inc out k"
| "status_entry env inc (Abort _) k = None"

text \<open>An output names every key once.\<close>

fun output_ok :: "('t, 'k, 'p, 'v, 'o, 'e, 'b) exec_traits \<Rightarrow> ('o, 'f) txn_status \<Rightarrow> bool" where
  "output_ok env (Success out) = distinct (map fst (get_writes env out) @ map fst (get_deltas env out))"
| "output_ok env (SkipRest out) = distinct (map fst (get_writes env out) @ map fst (get_deltas env out))"
| "output_ok env (Abort _) = True"

lemma apply_updates_effect:
  assumes "mv_inv m" and d: "distinct (map fst (get_writes env out) @ map fst (get_deltas env out))"
    and "\<And>k. lower_incarnation inc (entry_at m k i)"
  shows "\<exists>m' out'. apply_updates env (i, inc) out (m, prev, False) =
      Ret (m', filter (\<lambda>k. k \<notin> fst ` set (get_writes env out) \<union> fst ` set (get_deltas env out)) prev, out')
    \<and> (out' \<longleftrightarrow> \<not> fst ` set (get_writes env out) \<union> fst ` set (get_deltas env out) \<subseteq> set prev)
    \<and> mv_inv m' \<and> (\<forall>k j. entry_at m' k j =
        (if j = i \<and> output_entry env inc out k \<noteq> None then output_entry env inc out k else entry_at m k j))"
proof -
  let ?ws = "get_writes env out" and ?ds = "get_deltas env out"
  from d have dw: "distinct (map fst ?ws)" and dd: "distinct (map fst ?ds)"
    and disj: "fst ` set ?ws \<inter> fst ` set ?ds = {}" by auto
  obtain m1 where m1: "apply_writes (i, inc) ?ws (m, prev, False) =
      Ret (m1, filter (\<lambda>k. k \<notin> fst ` set ?ws) prev, \<not> fst ` set ?ws \<subseteq> set prev)" "mv_inv m1"
    and e1: "\<And>k j. entry_at m1 k j =
        (if j = i then case map_of ?ws k of Some v \<Rightarrow> Some (new_write_from FLAG_DONE inc v) | None \<Rightarrow> entry_at m k j
         else entry_at m k j)"
    using apply_writes_effect [OF assms(1) dw, of inc i prev False] assms(3) by auto
  let ?prev1 = "filter (\<lambda>k. k \<notin> fst ` set ?ws) prev"
  obtain m2 where m2: "apply_deltas i ?ds (m1, ?prev1, \<not> fst ` set ?ws \<subseteq> set prev) =
      (m2, filter (\<lambda>k. k \<notin> fst ` set ?ds) ?prev1, \<not> fst ` set ?ws \<subseteq> set prev \<or> \<not> fst ` set ?ds \<subseteq> set ?prev1)" "mv_inv m2"
    and e2: "\<And>k j. entry_at m2 k j =
        (if j = i then case map_of ?ds k of Some d \<Rightarrow> Some (new_delta_from FLAG_DONE d) | None \<Rightarrow> entry_at m1 k j
         else entry_at m1 k j)"
    using apply_deltas_effect [OF m1(2) dd, of i ?prev1 "\<not> fst ` set ?ws \<subseteq> set prev"] by blast
  have "filter (\<lambda>k. k \<notin> fst ` set ?ds) ?prev1 = filter (\<lambda>k. k \<notin> fst ` set ?ws \<union> fst ` set ?ds) prev"
    by (auto intro: filter_cong)
  moreover have "fst ` set ?ds \<subseteq> set ?prev1 \<longleftrightarrow> fst ` set ?ds \<subseteq> set prev" using disj by auto
  moreover have "entry_at m2 k j =
      (if j = i \<and> output_entry env inc out k \<noteq> None then output_entry env inc out k else entry_at m k j)" for k j
    by (simp add: e2 e1 output_entry_def split: option.split)
  ultimately show ?thesis using m1(1) m2 by (simp add: apply_updates_def)
qed

text \<open>The keys of a status are the keys of its entries.\<close>

lemma output_entry_None:
  "output_entry env inc out k = None \<longleftrightarrow> k \<notin> fst ` set (get_writes env out) \<union> fst ` set (get_deltas env out)"
  using map_of_eq_None_iff [of "get_deltas env out" k] map_of_eq_None_iff [of "get_writes env out" k]
  by (cases "map_of (get_deltas env out) k") (auto simp: output_entry_def)

lemma status_keys_entry:
  "set (status_keys (get_writes env) (get_deltas env) (Some st)) = {k. status_entry env inc st k \<noteq> None}"
proof (cases st)
  case (Success out)
  then show ?thesis using output_entry_None [of env inc out] by (auto simp: status_keys_def)
next
  case (SkipRest out)
  then show ?thesis using output_entry_None [of env inc out] by (auto simp: status_keys_def)
qed (simp add: status_keys_def)

fun recorded :: "('o, 'e) txn_status \<Rightarrow> ('o, 'e exec_error) txn_status" where
  "recorded (Success out) = Success out"
| "recorded (SkipRest out) = SkipRest out"
| "recorded (Abort err) = Abort (UserError err)"

lemma entry_at_data: "entry_at m k i \<noteq> None \<Longrightarrow> mv_data m k \<noteq> None"
  by (cases "mv_data m k") (simp_all add: entry_at_def)

lemma publish_effect:
  assumes "mv_inv m" and "output_ok env st" and "\<And>k. lower_incarnation inc (entry_at m k i)"
    and "\<And>k. entry_at m k i \<noteq> None \<longleftrightarrow> k \<in> set prev"
  shows "\<exists>m1 prev1 outside m'. publish env (i, inc) st (m, prev, False) = Ret (recorded st, m1, prev1, outside)
    \<and> delete_keys i prev1 m1 = Ret m' \<and> mv_inv m'
    \<and> (\<forall>k j. entry_at m' k j = (if j = i then status_entry env inc st k else entry_at m k j))
    \<and> (outside \<longleftrightarrow> \<not> set (status_keys (get_writes env) (get_deltas env) (Some st)) \<subseteq> set prev)"
proof -
  let ?K = "set (status_keys (get_writes env) (get_deltas env) (Some st))"
  obtain m1 prev1 outside where p: "publish env (i, inc) st (m, prev, False) = Ret (recorded st, m1, prev1, outside)"
    "mv_inv m1" "prev1 = filter (\<lambda>k. k \<notin> ?K) prev" "outside \<longleftrightarrow> \<not> ?K \<subseteq> set prev"
    and e1: "\<And>k j. entry_at m1 k j = (if j = i \<and> status_entry env inc st k \<noteq> None then status_entry env inc st k else entry_at m k j)"
  proof (cases st)
    case (Success out)
    with apply_updates_effect [OF assms(1), of env out inc i prev] assms(2,3) obtain m' out' where
      "apply_updates env (i, inc) out (m, prev, False) = Ret (m', filter (\<lambda>k. k \<notin> ?K) prev, out')"
      "out' \<longleftrightarrow> \<not> ?K \<subseteq> set prev" "mv_inv m'"
      "\<And>k j. entry_at m' k j = (if j = i \<and> output_entry env inc out k \<noteq> None then output_entry env inc out k else entry_at m k j)"
      by (auto simp: status_keys_def)
    with Success show ?thesis by (intro that [of m' "filter (\<lambda>k. k \<notin> ?K) prev" out']) auto
  next
    case (SkipRest out)
    with apply_updates_effect [OF assms(1), of env out inc i prev] assms(2,3) obtain m' out' where
      "apply_updates env (i, inc) out (m, prev, False) = Ret (m', filter (\<lambda>k. k \<notin> ?K) prev, out')"
      "out' \<longleftrightarrow> \<not> ?K \<subseteq> set prev" "mv_inv m'"
      "\<And>k j. entry_at m' k j = (if j = i \<and> output_entry env inc out k \<noteq> None then output_entry env inc out k else entry_at m k j)"
      by (auto simp: status_keys_def)
    with SkipRest show ?thesis by (intro that [of m' "filter (\<lambda>k. k \<notin> ?K) prev" out']) auto
  next
    case (Abort err)
    with assms(1) that [of m prev False] show ?thesis by (auto simp: status_keys_def)
  qed
  have "mv_data m1 k \<noteq> None" if "k \<in> set prev1" for k
    using that p(3) assms(4) [of k] by (intro entry_at_data [of _ _ i]) (auto simp: e1)
  from delete_keys_effect [OF p(2) this, of prev1 i] obtain m' where m': "delete_keys i prev1 m1 = Ret m'" "mv_inv m'"
    and e': "\<And>k j. entry_at m' k j = (if j = i \<and> k \<in> set prev1 then None else entry_at m1 k j)" by auto
  have "entry_at m' k j = (if j = i then status_entry env inc st k else entry_at m k j)" for k j
    using p(3) assms(4) [of k] status_keys_entry [of env st inc] by (auto simp: e' e1)
  with p m' show ?thesis by blast
qed

section \<open>The sequential executor\<close>

text \<open>What a key holds after some outputs, on top of the base view.\<close>

definition store_after ::
  "('t, 'k, 'p, 'v, 'o, 'e, 'b) exec_traits \<Rightarrow> 'o list \<Rightarrow> 'k \<Rightarrow> 'b view_error + bytes option" where
  "store_after env outs k =
     (case map_of (rev (concat (map (get_writes env) outs))) k of
        None \<Rightarrow> map_err BaseViewError (base_view env k)
      | Some v \<Rightarrow> Inr (extract_value env v))"

lemma insert_writes_get:
  assumes "btm_wf m"
  shows "btm_wf (insert_writes ws m) \<and> btm_get (insert_writes ws m) = btm_get m ++ map_of (rev ws)"
  using assms unfolding insert_writes_def
proof (induction ws arbitrary: m)
  case (Cons w ws)
  obtain k v where w: "w = (k, v)" by force
  have "btm_wf (btm_insert k v m)" using Cons.prems by (simp add: btm_simps)
  from Cons.IH [OF this] Cons.prems show ?case by (simp add: w btm_simps map_add_def fun_eq_iff split: option.split)
qed simp

definition executed_prefix ::
  "('t, 'k, 'p, 'v, 'o, 'e, 'b) exec_traits \<Rightarrow> 't list \<Rightarrow> 'o list \<Rightarrow> txn_index \<Rightarrow> ('o, 'e) txn_status" where
  "executed_prefix env block outs i =
     vm_run (store_after env (take i outs)) (execute_transaction env (block ! i) i True)"

text \<open>\<open>outs\<close> is what executing the block in order gives, up to the end, an abort or a transaction that skips the rest.\<close>

definition in_order ::
  "('t, 'k, 'p, 'v, 'o, 'e, 'b) exec_traits \<Rightarrow> 't list \<Rightarrow> 'o list \<Rightarrow> bool" where
  "in_order env block outs \<longleftrightarrow> length outs \<le> length block \<and> (\<forall>out\<in>set outs. get_deltas env out = []) \<and>
     (\<forall>i<length outs. executed_prefix env block outs i = Success (outs ! i)
        \<or> executed_prefix env block outs i = SkipRest (outs ! i) \<and> Suc i = length outs)"

lemma seq_loop_in_order:
  assumes "seq_loop env idx txns m ret = Ret r" and "block = pre @ txns" and "length pre = idx" and "length ret = idx"
    and "btm_wf m" and "btree_state_value (extract_value env) (base_view env) m = store_after env ret"
    and "\<And>out. out \<in> set ret \<Longrightarrow> get_deltas env out = []"
    and "\<And>i. i < idx \<Longrightarrow> executed_prefix env block ret i = Success (ret ! i)"
  shows "case r of
      Inr outs \<Rightarrow> in_order env block outs \<and> (length outs = length block
        \<or> outs \<noteq> [] \<and> executed_prefix env block outs (length outs - 1) = SkipRest (last outs))
    | Inl err \<Rightarrow> \<exists>outs e. err = UserError e \<and> in_order env block outs \<and> length outs < length block
        \<and> executed_prefix env block outs (length outs) = Abort e"
  using assms
proof (induction env idx txns m ret arbitrary: pre rule: seq_loop.induct)
  case (1 env idx m ret)
  then show ?case by (auto simp: in_order_def)
next
  case (2 env idx txn txns m ret)
  let ?st = "vm_run (btree_state_value (extract_value env) (base_view env) m) (execute_transaction env txn idx True)"
  have here: "block ! idx = txn" "idx < length block" using "2.prems"(2,3) by auto
  have now: "executed_prefix env block ret idx = ?st"
    using here "2.prems"(4,6) by (simp add: executed_prefix_def)
  have app: "executed_prefix env block (ret @ [out]) i = executed_prefix env block ret i" if "i \<le> idx" for out i
    using that "2.prems"(4) by (simp add: executed_prefix_def)
  show ?case
  proof (cases ?st)
    case (Success out)
    with "2.prems"(1) have d: "get_deltas env out = []" and r: "seq_loop env (idx + 1) txns (insert_writes (get_writes env out) m) (ret @ [out]) = Ret r"
      by (auto split: if_splits)
    have I: "btm_wf (insert_writes (get_writes env out) m)"
      "btm_get (insert_writes (get_writes env out) m) = btm_get m ++ map_of (rev (get_writes env out))"
      using insert_writes_get [OF "2.prems"(5)] by blast+
    have "btree_state_value (extract_value env) (base_view env) (insert_writes (get_writes env out) m) k =
        store_after env (ret @ [out]) k" for k
    proof -
      have "btree_state_value (extract_value env) (base_view env) m k = store_after env ret k" using "2.prems"(6) by simp
      then show ?thesis
        by (auto simp: btree_state_value_def store_after_def I(2) map_add_def split: option.splits)
    qed
    moreover have "executed_prefix env block (ret @ [out]) i = Success ((ret @ [out]) ! i)" if "i < idx + 1" for i
      using that "2.prems"(4,8) Success now app by (cases "i = idx") (simp_all add: nth_append)
    ultimately show ?thesis
      using "2.IH" [OF Success d r, of "pre @ [txn]"] "2.prems"(2,3,4,7) d I(1) by (auto simp: fun_eq_iff)
  next
    case (SkipRest out)
    with "2.prems"(1) have d: "get_deltas env out = []" and r: "r = Inr (ret @ [out])" by (auto split: if_splits)
    have "executed_prefix env block (ret @ [out]) i = Success ((ret @ [out]) ! i)" if "i < idx" for i
      using that "2.prems"(4,8) app by (simp add: nth_append)
    moreover have "executed_prefix env block (ret @ [out]) idx = SkipRest ((ret @ [out]) ! idx)"
      using SkipRest now app "2.prems"(4) by (simp add: nth_append)
    ultimately show ?thesis
      using d "2.prems"(4,7) here r by (auto simp: in_order_def less_Suc_eq)
  next
    case (Abort e)
    with "2.prems"(1) have r: "r = Inl (UserError e)" by simp
    have "in_order env block ret" using "2.prems"(4,7,8) here(2) by (auto simp: in_order_def)
    with Abort now "2.prems"(4) here(2) r show ?thesis by auto
  qed
qed

section \<open>Validation\<close>

lemma validate_read_iff:
  assumes "mv_read ex fb m (access_path r) i = Ret res"
  shows "validate_read ex fb m i r = Ret (\<exists>x. capture (access_path r) res = Inr (r, x))"
proof -
  obtain p q where r: "r = \<lparr>access_path = p, kind = q\<rparr>" by (cases r)
  show ?thesis
    using assms unfolding r
    by (cases "(p, res)" rule: capture.cases) (auto simp: validate_read_def validate_defs descriptor_defs)
qed

lemma validate_reads_True:
  assumes "validate_reads ex fb m i rs = Ret True" and "r \<in> set rs"
  shows "\<exists>x. read_round ex fb m (access_path r) i = Ret (Inr (r, x))"
  using assms
proof (induction rs)
  case (Cons d rs)
  from Cons.prems(1) have d: "validate_read ex fb m i d = Ret True" and rs: "validate_reads ex fb m i rs = Ret True"
    by (auto simp: out_bind_eq_Ret_iff split: if_splits)
  show ?case
  proof (cases "r = d")
    case True
    from d obtain res where res: "mv_read ex fb m (access_path d) i = Ret res"
      by (auto simp: validate_read_def out_bind_eq_Ret_iff)
    with validate_read_iff [OF res] d True show ?thesis by (auto simp: read_round_def)
  next
    case False
    with Cons rs show ?thesis by simp
  qed
qed simp

lemma read_loop_version:
  assumes "read_loop ex fb acc el = Ret (Inr (Version (j, inc) v))"
  shows "\<exists>e. (j, e) \<in> set el \<and> cell e = CellWrite inc v"
  using assms
proof (induction ex fb acc el rule: read_loop.induct)
  case (2 ex fb acc idx e el)
  show ?case
  proof (cases "cell e")
    case (CellWrite i x)
    with 2(3) have "j = idx \<and> inc = i \<and> v = x"
      by (cases acc) (auto simp: out_bind_eq_Ret_iff and_then_eq_Inr_iff split: if_splits option.splits)
    with CellWrite show ?thesis by auto
  next
    case (CellDelta d)
    with 2 show ?thesis by (cases acc) (auto split: if_splits)
  qed
qed (auto split: option.splits sum.splits)

lemma mv_read_version:
  assumes "mv_inv m" and "mv_read ex fb m k i = Ret (Inr (Version (j, inc) v))"
  shows "\<exists>e. entry_at m k j = Some e \<and> cell e = CellWrite inc v"
proof -
  from assms(2) obtain vv where vv: "mv_data m k = Some vv"
    and loop: "read_loop ex fb None (rev (btm_below i (versioned_map vv))) = Ret (Inr (Version (j, inc) v))"
    by (auto simp: mv_read_def split: option.splits)
  have wf: "btm_wf (versioned_map vv)" using assms(1) vv by (rule mv_inv_wf)
  from read_loop_version [OF loop] show ?thesis
    using vv by (auto simp: btm_below_eq_filter [OF wf] btm.set_entries [OF wf] entry_at_def)
qed

lemma mv_answer_eq:
  "mv_answer ex tb fb base m i k = Ret (Inr (d, a)) \<longleftrightarrow>
    (\<exists>x. read_round ex fb m k i = Ret (Inr (d, x)) \<and> mv_state_value ex tb fb base k x = Ret a)"
proof (cases "read_round ex fb m k i")
  case (Ret r)
  then show ?thesis by (cases r) (auto simp: mv_answer_def out_bind_eq_Ret_iff)
qed (simp add: mv_answer_def)

text \<open>
  An execution whose reads were answered, one after the other, by some of the maps in \<open>M\<close>.
\<close>

inductive vm_captures ::
  "('t, 'k, 'p, 'v, 'o, 'e, 'b) exec_traits \<Rightarrow> ('k, 'v) mv_hashmap set \<Rightarrow> txn_index
     \<Rightarrow> ('k, 'b view_error + bytes option, 'r) vm \<Rightarrow> 'k read_descriptor list \<Rightarrow> 'r \<Rightarrow> bool" for env M i where
  cap_done: "vm_captures env M i (VmDone r) [] r"
| cap_read: "m \<in> M \<Longrightarrow>
    mv_answer (extract_value env) (to_bytes env) (from_bytes env) (base_view env) m i k = Ret (Inr (d, a)) \<Longrightarrow>
    vm_captures env M i (f a) ds r \<Longrightarrow> vm_captures env M i (VmRead k f) (d # ds) r"

text \<open>A version of a key stands for the same value in all maps.\<close>

definition versions_agree :: "('k, 'v) mv_hashmap \<Rightarrow> ('k, 'v) mv_hashmap \<Rightarrow> bool" where
  "versions_agree m m' \<longleftrightarrow> (\<forall>k j e e' inc v v'. entry_at m k j = Some e \<longrightarrow> entry_at m' k j = Some e' \<longrightarrow>
     cell e = CellWrite inc v \<longrightarrow> cell e' = CellWrite inc v' \<longrightarrow> v = v')"

lemma capture_answer:
  assumes "mv_inv m" and "mv_inv m'" and "versions_agree m m'"
    and "read_round ex fb m k i = Ret (Inr (d, x))" and "read_round ex fb m' k i = Ret (Inr (d, x'))"
  shows "x = x'"
proof -
  from assms(4,5) obtain res res' where r: "mv_read ex fb m k i = Ret res" "mv_read ex fb m' k i = Ret res'"
    and c: "capture k res = Inr (d, x)" "capture k res' = Inr (d, x')"
    by (auto simp: read_round_def out_bind_eq_Ret_iff)
  show ?thesis
  proof (cases "\<exists>j inc v. res = Inr (Version (j, inc) v)")
    case True
    then obtain j inc v where v: "res = Inr (Version (j, inc) v)" by blast
    with c obtain v' where v': "res' = Inr (Version (j, inc) v')"
      by (cases "(k, res')" rule: capture.cases) (auto simp: descriptor_defs)
    have "v = v'"
      using mv_read_version [OF assms(1) r(1) [unfolded v]] mv_read_version [OF assms(2) r(2) [unfolded v']] assms(3)
      unfolding versions_agree_def by blast
    with c v v' show ?thesis by simp
  next
    case False
    with c show ?thesis
      by (cases "(k, res)" rule: capture.cases; cases "(k, res')" rule: capture.cases) (auto simp: descriptor_defs)
  qed
qed

section \<open>Properties\<close>

text \<open>
  C9. A validated execution can be repeated. Let the machine of a transaction run while other workers change
  the map, so that its reads were answered by different states of the map, and let the captured reads pass
  validation on the map as it is now. If a version of a key always stands for the same value, then
  executing the transaction on this map meets no dependency, captures the same reads and gives the same result.
\<close>

theorem validated_execution_repeats:
  assumes "vm_captures env M i machine reads result"
    and "validate_reads (extract_value env) (from_bytes env) m' i reads = Ret True"
    and "mv_inv m'" and "\<And>m. m \<in> M \<Longrightarrow> mv_inv m \<and> versions_agree m m'"
  shows "vm_run_mv (mv_answer (extract_value env) (to_bytes env) (from_bytes env) (base_view env) m' i) machine captured
    = Ret (Finished_run result (captured @ reads))"
  using assms(1,2)
proof (induction arbitrary: captured rule: vm_captures.induct)
  case (cap_done r)
  then show ?case by simp
next
  case (cap_read m k d a f ds r)
  let ?ex = "extract_value env" and ?fb = "from_bytes env"
  from cap_read.hyps(2) obtain x where x: "read_round ?ex ?fb m k i = Ret (Inr (d, x))"
    and a: "mv_state_value ?ex (to_bytes env) ?fb (base_view env) k x = Ret a"
    by (auto simp: mv_answer_eq)
  have path: "access_path d = k"
    using x by (auto simp: read_round_def out_bind_eq_Ret_iff descriptor_defs elim!: capture.elims)
  from validate_reads_True [OF cap_read.prems, of d] path obtain x' where x': "read_round ?ex ?fb m' k i = Ret (Inr (d, x'))"
    by auto
  have "x = x'" using capture_answer [OF _ assms(3) _ x x'] assms(4) [OF cap_read.hyps(1)] by blast
  with x' a have "mv_answer ?ex (to_bytes env) ?fb (base_view env) m' i k = Ret (Inr (d, a))" by (simp add: mv_answer_def)
  moreover have "validate_reads ?ex ?fb m' i ds = Ret True"
    using cap_read.prems by (auto simp: out_bind_eq_Ret_iff split: if_splits)
  ultimately show ?case using cap_read.IH by simp
qed

text \<open>A machine that reads key 3 and writes what it read to key 2.\<close>

definition copy_env :: "(unit, nat, unit, write_op, (nat \<times> write_op) list, unit, unit) exec_traits" where
  "copy_env = \<lparr>extract_value = extract_raw_bytes, to_bytes = u128_to_bytes, from_bytes = u128_from_bytes,
     base_view = (\<lambda>k. Inr (if k = 3 then Some [7] else None)), module_path = (\<lambda>_. None), get_writes = id,
     get_deltas = (\<lambda>_. []), skip_output = [],
     execute_transaction = (\<lambda>_ i _. VmRead 3 (\<lambda>r. VmDone (Success
       (case r of Inr (Some bs) \<Rightarrow> [(2, Modification bs)] | _ \<Rightarrow> []))))\<rparr>"

theorem validated_execution_repeats_witness:
  "vm_run_mv (mv_answer extract_raw_bytes u128_to_bytes u128_from_bytes (base_view copy_env) mv_new 5)
     (execute_transaction copy_env () 5 False) [] =
   Ret (Finished_run (Success [(2, Modification [7])]) [from_storage 3])"
proof -
  have "vm_captures copy_env {mv_new} 5 (execute_transaction copy_env () 5 False) [from_storage 3]
      (Success [(2, Modification [7])])"
    by (auto simp: copy_env_def mv_answer_def read_round_def mv_read_def mv_new_def mv_state_value_def
        intro!: vm_captures.intros)
  moreover have "validate_reads (extract_value copy_env) (from_bytes copy_env) mv_new 5 [from_storage 3] = Ret True"
    by (simp add: validate_read_def mv_read_def mv_new_def from_storage_def validate_storage_def)
  ultimately show ?thesis
    using validated_execution_repeats [of copy_env "{mv_new}" 5 "execute_transaction copy_env () 5 False"
        "[from_storage 3]" "Success [(2, Modification [7])]" mv_new "[]"]
    by (simp add: mv_inv_new versions_agree_def copy_env_def)
qed

text \<open>
  Executing a version publishes exactly its output: afterwards the entries of the transaction in the
  multi-version map are those of the output, the entries of other transactions are untouched, keys of the
  previous incarnation that were not written again are gone, nothing panics, and the suffix is
  reported for revalidation exactly when a key outside the previous ones was written.
\<close>

theorem execution_publishes_output:
  assumes "mv_inv m" and "output_ok env st" and "\<And>k. lower_incarnation inc (entry_at m k i)"
    and "\<And>k. entry_at m k i \<noteq> None \<longleftrightarrow> k \<in> set prev"
  shows "\<exists>m1 prev1 outside m'. publish env (i, inc) st (m, prev, False) = Ret (recorded st, m1, prev1, outside)
    \<and> delete_keys i prev1 m1 = Ret m' \<and> mv_inv m'
    \<and> (\<forall>k j. entry_at m' k j = (if j = i then status_entry env inc st k else entry_at m k j))
    \<and> (outside \<longleftrightarrow> \<not> set (status_keys (get_writes env) (get_deltas env) (Some st)) \<subseteq> set prev)"
  using publish_effect [OF assms] .

theorem execution_publishes_output_witness:
  "\<exists>m1 prev1 outside m'. publish copy_env (0, 0) (Success [(2, Deletion)]) (mv_new, [], False)
      = Ret (Success [(2, Deletion)], m1, prev1, outside)
    \<and> delete_keys 0 prev1 m1 = Ret m' \<and> entry_at m' 2 0 = Some (new_write_from FLAG_DONE 0 Deletion) \<and> outside"
proof -
  have e: "entry_at (mv_new :: (nat, write_op) mv_hashmap) k i = None" for k i
    by (simp add: entry_at_def mv_new_def)
  let ?st = "Success [(2, Deletion)] :: ((nat \<times> write_op) list, unit) txn_status"
  have "output_ok copy_env ?st" by (simp add: copy_env_def)
  moreover have "lower_incarnation 0 (entry_at (mv_new :: (nat, write_op) mv_hashmap) k 0)" for k
    by (simp add: e lower_incarnation_def)
  moreover have "entry_at (mv_new :: (nat, write_op) mv_hashmap) k 0 \<noteq> None \<longleftrightarrow> k \<in> set []" for k by (simp add: e)
  ultimately obtain m1 prev1 outside m' where
    *: "publish copy_env (0, 0) ?st (mv_new, [], False) = Ret (recorded ?st, m1, prev1, outside)" "delete_keys 0 prev1 m1 = Ret m'"
    "\<forall>k j. entry_at m' k j = (if j = 0 then status_entry copy_env 0 ?st k else entry_at mv_new k j)"
    "outside \<longleftrightarrow> \<not> set (status_keys (get_writes copy_env) (get_deltas copy_env) (Some ?st)) \<subseteq> set []"
    using execution_publishes_output [OF mv_inv_new, of copy_env ?st 0 0 "[]"] by blast
  have "entry_at m' 2 0 = Some (new_write_from FLAG_DONE 0 Deletion)"
    using *(3) by (simp add: output_entry_def copy_env_def)
  moreover have outside using *(4) by (simp add: status_keys_def copy_env_def)
  ultimately show ?thesis using *(1,2) by (metis recorded.simps(1))
qed

text \<open>
  C26. The sequential executor executes the transactions in order, each on the state that the writes of its
  predecessors leave on top of the base view. It returns one output for every transaction of the block; after a
  transaction that skips the rest they are skip outputs. An abort is returned as the error of the first
  transaction that aborts.
\<close>

theorem sequential_executes_in_order:
  assumes "execute_transactions_sequential env block = Ret r"
  shows "case r of
      Inr ret \<Rightarrow> \<exists>outs. in_order env block outs
        \<and> ret = map (\<lambda>out. (out, [])) (outs @ replicate (length block - length outs) (skip_output env))
        \<and> (length outs = length block
           \<or> outs \<noteq> [] \<and> executed_prefix env block outs (length outs - 1) = SkipRest (last outs))
    | Inl err \<Rightarrow> \<exists>outs e. err = UserError e \<and> in_order env block outs \<and> length outs < length block
        \<and> executed_prefix env block outs (length outs) = Abort e"
proof -
  from assms obtain q where q: "seq_loop env 0 block [] [] = Ret q"
    and r: "r = and_then q (\<lambda>ret. Inr (map (\<lambda>out. (out, [])) (resize_with (length block) (skip_output env) ret)))"
    by (auto simp: execute_transactions_sequential_def out_bind_eq_Ret_iff)
  have "btree_state_value (extract_value env) (base_view env) [] = store_after env []"
    by (simp add: btree_state_value_def store_after_def btm_simps fun_eq_iff)
  from seq_loop_in_order [OF q, of block "[]"] this
  have "case q of
      Inr outs \<Rightarrow> in_order env block outs \<and> (length outs = length block
        \<or> outs \<noteq> [] \<and> executed_prefix env block outs (length outs - 1) = SkipRest (last outs))
    | Inl err \<Rightarrow> \<exists>outs e. err = UserError e \<and> in_order env block outs \<and> length outs < length block
        \<and> executed_prefix env block outs (length outs) = Abort e"
    by (simp add: btm_simps)
  then show ?thesis
    unfolding r by (cases q) (auto simp: resize_with_def in_order_def)
qed

theorem sequential_executes_in_order_witness:
  "execute_transactions_sequential copy_env [()] = Ret (Inr [([(2, Modification [7])], [])])
    \<and> (\<exists>outs. in_order copy_env [()] outs \<and> [([(2, Modification [7])], [] :: (nat \<times> write_op) list)] =
        map (\<lambda>out. (out, [])) (outs @ replicate (length [()] - length outs) (skip_output copy_env)))"
proof -
  have e: "execute_transactions_sequential copy_env [()] = Ret (Inr [([(2, Modification [7])], [])])"
    by (simp add: execute_transactions_sequential_def copy_env_def btree_state_value_def btm_simps resize_with_def)
  from sequential_executes_in_order [OF e] e show ?thesis by auto
qed

text \<open>
  The fallback hides the module race: \<^verbatim>\<open>execute_block\<close> never returns \<^verbatim>\<open>ModulePathReadWrite\<close>; when the
  parallel executor reports it, the result is that of the sequential executor.
\<close>

theorem execute_block_falls_back:
  assumes "execute_block env concurrency_level block final = Ret r"
  shows "r \<noteq> Inl ModulePathReadWrite
    \<and> (execute_transactions_parallel env concurrency_level block final = Ret (Inl ModulePathReadWrite)
        \<longrightarrow> execute_transactions_sequential env block = Ret r)"
proof -
  have seq: "q \<noteq> Inl ModulePathReadWrite" if "execute_transactions_sequential env block = Ret q" for q
  proof -
    from that obtain p where p: "seq_loop env 0 block [] [] = Ret p"
      and q: "q = and_then p (\<lambda>ret. Inr (map (\<lambda>out. (out, [])) (resize_with (length block) (skip_output env) ret)))"
      by (auto simp: execute_transactions_sequential_def out_bind_eq_Ret_iff)
    have "btree_state_value (extract_value env) (base_view env) [] = store_after env []"
      by (simp add: btree_state_value_def store_after_def btm_simps fun_eq_iff)
    with seq_loop_in_order [OF p, of block "[]"] q show ?thesis by (cases p) (auto simp: btm_simps)
  qed
  show ?thesis
    using assms seq
    by (auto simp: execute_block_def out_bind_eq_Ret_iff execute_transactions_parallel_def split: if_splits)
qed

theorem execute_block_falls_back_witness:
  "execute_block copy_env 2 [()] (mv_new, (lio_new 1)\<lparr>module_read_write_intersection := True\<rparr>)
     = Ret (Inr [([(2, Modification [7])], [])])
   \<and> execute_transactions_sequential copy_env [()] = Ret (Inr [([(2, Modification [7])], [])])"
proof -
  let ?final = "(mv_new, (lio_new 1)\<lparr>module_read_write_intersection := True\<rparr>)"
  have p: "execute_transactions_parallel copy_env 2 [()] ?final = Ret (Inl ModulePathReadWrite)"
    by (simp add: execute_transactions_parallel_def collect_outputs_def module_publishing_may_race_def)
  have e: "execute_transactions_sequential copy_env [()] = Ret (Inr [([(2, Modification [7])], [])])"
    by (simp add: execute_transactions_sequential_def copy_env_def btree_state_value_def btm_simps resize_with_def)
  have b: "execute_block copy_env 2 [()] ?final = Ret (Inr [([(2, Modification [7])], [])])"
    using p e by (simp add: execute_block_def)
  from execute_block_falls_back [OF b] p b show ?thesis by blast
qed

end
