(* ===== verification/Position.thy ===== *)
theory Position
  imports Prelude
begin

text \<open>
  Positions of nodes in a binary tree (\<^verbatim>\<open>types/src/proof/position/mod.rs\<close>): a node is its number in the
  in-order traversal, a 64-bit word, and moving around in the tree is bit manipulation. The lemmas describe every
  operation by the level of a node and its index within the level.
\<close>

unbundle bit_operations_syntax

section \<open>Bit tricks\<close>

text \<open>\<^verbatim>\<open>u64::trailing_zeros\<close>, \<^verbatim>\<open>u64::leading_zeros\<close> and \<^verbatim>\<open>u64::count_ones\<close>.\<close>

fun trailing_zeros_from :: "nat \<Rightarrow> nat \<Rightarrow> u64 \<Rightarrow> nat" where
  "trailing_zeros_from 0 i v = i"
| "trailing_zeros_from (Suc n) i v = (if bit v i then i else trailing_zeros_from n (Suc i) v)"

definition trailing_zeros :: "u64 \<Rightarrow> nat" where
  "trailing_zeros v = trailing_zeros_from 64 0 v"

fun leading_zeros_below :: "nat \<Rightarrow> u64 \<Rightarrow> nat" where
  "leading_zeros_below 0 v = 64"
| "leading_zeros_below (Suc i) v = (if bit v i then 63 - i else leading_zeros_below i v)"

definition leading_zeros :: "u64 \<Rightarrow> nat" where
  "leading_zeros v = leading_zeros_below 64 v"

definition count_ones :: "u64 \<Rightarrow> nat" where
  "count_ones v = length (filter (bit v) [0..<64])"

definition smear_ones_for_u64 :: "u64 \<Rightarrow> u64" where
  "smear_ones_for_u64 v =
     (let n = v OR drop_bit 1 v;
          n = n OR drop_bit 2 n;
          n = n OR drop_bit 4 n;
          n = n OR drop_bit 8 n;
          n = n OR drop_bit 16 n
      in n OR drop_bit 32 n)"

definition turn_off_right_most_n_bits :: "u64 \<Rightarrow> nat \<Rightarrow> u64 outcome" where
  "turn_off_right_most_n_bits v n = out_bind (word_shr v n) (\<lambda>w. word_shl w n)"

definition isolate_rightmost_zero_bit :: "u64 \<Rightarrow> u64" where
  "isolate_rightmost_zero_bit v = NOT v AND (v + 1)"

section \<open>Positions\<close>

datatype position = Position u64

fun pos_word :: "position \<Rightarrow> u64" where
  "pos_word (Position v) = v"

datatype node_direction = Left | Right

definition pos_level :: "position \<Rightarrow> nat" where
  "pos_level p = trailing_zeros (NOT (pos_word p))"

definition is_leaf :: "position \<Rightarrow> bool" where
  "is_leaf p \<longleftrightarrow> pos_word p AND 1 = 0"

text \<open>\<^verbatim>\<open>assert!(1u64 << level > 0)\<close> holds for every level below 64.\<close>

definition from_level_and_pos :: "nat \<Rightarrow> u64 \<Rightarrow> position outcome" where
  "from_level_and_pos level pos =
     (if level < 64
      then let level_one_bits = push_bit level 1 - 1;
               shifted_pos = (if level = 63 then 0 else push_bit (level + 1) pos) in
           Ret (Position (shifted_pos OR level_one_bits))
      else Panic)"

definition from_inorder_index :: "u64 \<Rightarrow> position" where
  "from_inorder_index i = Position i"

definition to_inorder_index :: "position \<Rightarrow> u64" where
  "to_inorder_index p = pos_word p"

text \<open>The invariant that the operations assert.\<close>

definition pos_inv :: "position \<Rightarrow> bool" where
  "pos_inv p \<longleftrightarrow> pos_word p < - 1 - 1"

definition parent :: "position \<Rightarrow> position outcome" where
  "parent p = (let v = pos_word p in assert_that (pos_inv p)
     (Position ((v OR isolate_rightmost_zero_bit v) AND NOT (push_bit 1 (isolate_rightmost_zero_bit v)))))"

definition child :: "position \<Rightarrow> node_direction \<Rightarrow> position outcome" where
  "child p dir =
     (let v = pos_word p;
          direction_bit = (case dir of Left \<Rightarrow> 0 | Right \<Rightarrow> isolate_rightmost_zero_bit v) in
      assert_that (\<not> is_leaf p \<and> pos_inv p)
        (Position ((v OR direction_bit) AND NOT (drop_bit 1 (isolate_rightmost_zero_bit v)))))"

definition left_child :: "position \<Rightarrow> position outcome" where
  "left_child p = (if is_leaf p then Panic else child p Left)"

definition right_child :: "position \<Rightarrow> position outcome" where
  "right_child p = (if is_leaf p then Panic else child p Right)"

definition is_left_child :: "position \<Rightarrow> bool outcome" where
  "is_left_child p = (let v = pos_word p in
     assert_that (pos_inv p) (v AND push_bit 1 (isolate_rightmost_zero_bit v) = 0))"

definition is_right_child :: "position \<Rightarrow> bool outcome" where
  "is_right_child p = out_bind (is_left_child p) (\<lambda>b. Ret (\<not> b))"

definition from_leaf_index :: "u64 \<Rightarrow> position outcome" where
  "from_leaf_index leaf_index = from_level_and_pos 0 leaf_index"

definition sibling :: "position \<Rightarrow> position outcome" where
  "sibling p = (let v = pos_word p in
     assert_that (pos_inv p) (Position (v XOR push_bit 1 (isolate_rightmost_zero_bit v))))"

definition root_from_leaf_index :: "u64 \<Rightarrow> position outcome" where
  "root_from_leaf_index leaf_index =
     out_bind (from_leaf_index leaf_index) (\<lambda>leaf. Ret (Position (drop_bit 1 (smear_ones_for_u64 (pos_word leaf)))))"

definition root_from_leaf_count :: "u64 \<Rightarrow> position outcome" where
  "root_from_leaf_count leaf_count = (if leaf_count > 0 then root_from_leaf_index (leaf_count - 1) else Panic)"

definition MAX_ACCUMULATOR_PROOF_DEPTH :: nat where
  "MAX_ACCUMULATOR_PROOF_DEPTH = 63"

definition MAX_ACCUMULATOR_LEAVES :: u64 where
  "MAX_ACCUMULATOR_LEAVES = push_bit MAX_ACCUMULATOR_PROOF_DEPTH 1"

definition root_level_from_leaf_count :: "u64 \<Rightarrow> nat outcome" where
  "root_level_from_leaf_count leaf_count =
     (if leaf_count > 0 then Ret (MAX_ACCUMULATOR_PROOF_DEPTH + 1 - leading_zeros (leaf_count - 1)) else Panic)"

definition right_most_child :: "position \<Rightarrow> position outcome" where
  "right_most_child p =
     out_bind (word_shl 1 (pos_level p)) (\<lambda>leaves.
     out_bind (word_add (pos_word p) leaves) (\<lambda>v.
     out_bind (word_sub v 1) (\<lambda>v. Ret (Position v))))"

definition left_most_child :: "position \<Rightarrow> position outcome" where
  "left_most_child p =
     out_bind (turn_off_right_most_n_bits (pos_word p) (pos_level p)) (\<lambda>v. Ret (Position v))"

definition is_freezable :: "position \<Rightarrow> u64 \<Rightarrow> bool outcome" where
  "is_freezable p leaf_index =
     out_bind (from_leaf_index leaf_index) (\<lambda>leaf.
     out_bind (right_most_child p) (\<lambda>r. Ret (pos_word r \<le> pos_word leaf)))"

definition is_placeholder :: "position \<Rightarrow> u64 \<Rightarrow> bool outcome" where
  "is_placeholder p leaf_index =
     out_bind (from_leaf_index leaf_index) (\<lambda>leaf.
       if pos_word p \<le> pos_word leaf then Ret False
       else out_bind (left_most_child p) (\<lambda>l.
              if pos_word l \<le> pos_word leaf then Ret False else Ret True))"

text \<open>The iterators over ancestors: the item and the iterator's next position.\<close>

definition ancestor_next :: "position \<Rightarrow> (position \<times> position) outcome" where
  "ancestor_next p = out_bind (parent p) (\<lambda>q. Ret (p, q))"

definition ancestor_sibling_next :: "position \<Rightarrow> (position \<times> position) outcome" where
  "ancestor_sibling_next p = out_bind (sibling p) (\<lambda>s. out_bind (parent p) (\<lambda>q. Ret (s, q)))"

section \<open>In-order and post-order\<close>

definition children_of_node :: "u64 \<Rightarrow> u64 outcome" where
  "children_of_node node = word_sub (push_bit 1 (isolate_rightmost_zero_bit node)) 2"

definition nodes_to_left_of :: "u64 \<Rightarrow> u64 outcome" where
  "nodes_to_left_of node =
     out_bind (word_sub (isolate_rightmost_zero_bit node) 1) (\<lambda>ones_up_to_level.
       let unset_level_zeros = node XOR ones_up_to_level in
       word_sub unset_level_zeros (word_of_nat (count_ones unset_level_zeros)))"

definition inorder_to_postorder :: "u64 \<Rightarrow> u64 outcome" where
  "inorder_to_postorder node =
     out_bind (children_of_node node) (\<lambda>children.
     out_bind (nodes_to_left_of node) (\<lambda>left_nodes. word_add children left_nodes))"

text \<open>The loop over \<open>i = 63, ..., 0\<close>, here \<open>i = n - 1, ..., 0\<close>.\<close>

fun postorder_loop :: "nat \<Rightarrow> u64 \<times> u64 \<times> u64 \<Rightarrow> u64 \<times> u64" where
  "postorder_loop 0 (node, full_binary_size, bitmap) = (node, bitmap)"
| "postorder_loop (Suc i) (node, full_binary_size, bitmap) =
     (if node \<ge> full_binary_size
      then postorder_loop i (node - full_binary_size, drop_bit 1 full_binary_size, bitmap OR push_bit i 1)
      else postorder_loop i (node, drop_bit 1 full_binary_size, bitmap))"

definition postorder_to_inorder :: "u64 \<Rightarrow> u64 outcome" where
  "postorder_to_inorder node =
     (case postorder_loop 64 (node, NOT 0, 0) of (node, bitmap) \<Rightarrow>
        let level = unat (ucast node :: u32) in
        out_bind (word_shr bitmap level) (\<lambda>pos.
        out_bind (from_level_and_pos level pos) (\<lambda>p. Ret (to_inorder_index p))))"

definition from_postorder_index :: "u64 \<Rightarrow> (string + position) outcome" where
  "from_postorder_index i =
     (if i < NOT 0 then out_bind (postorder_to_inorder i) (\<lambda>v. Ret (Inr (Position v)))
      else Ret (Inl ''node index is invalid (equal to 2^64 - 1)''))"

definition to_postorder_index :: "position \<Rightarrow> u64 outcome" where
  "to_postorder_index p = inorder_to_postorder (to_inorder_index p)"

section \<open>Frozen subtrees\<close>

record frozen_iter =
  bitmap :: u64
  seen_leaves :: u64

definition frozen_new :: "u64 \<Rightarrow> frozen_iter" where
  "frozen_new num_leaves = \<lparr>bitmap = num_leaves, seen_leaves = 0\<rparr>"

definition frozen_next :: "frozen_iter \<Rightarrow> (position option \<times> frozen_iter) outcome" where
  "frozen_next it =
     (if seen_leaves it < - 1 - bitmap it
      then if bitmap it = 0 then Ret (None, it)
           else let root_offset = drop_bit 1 (smear_ones_for_u64 (bitmap it)) in
                if root_offset < bitmap it
                then out_bind (word_add root_offset 1) (\<lambda>num_leaves.
                     out_bind (from_leaf_index (seen_leaves it)) (\<lambda>leftmost_leaf.
                     out_bind (word_add (to_inorder_index leftmost_leaf) root_offset) (\<lambda>root.
                     out_bind (word_add (seen_leaves it) num_leaves) (\<lambda>seen.
                       Ret (Some (from_inorder_index root),
                            \<lparr>bitmap = bitmap it AND NOT num_leaves, seen_leaves = seen\<rparr>)))))
                else Panic
      else Panic)"

record frozen_sibling_iter =
  current_num_leaves :: u64
  remaining_new_leaves :: u64

definition frozen_sibling_new :: "u64 \<Rightarrow> u64 \<Rightarrow> frozen_sibling_iter outcome" where
  "frozen_sibling_new current new_num_leaves =
     assert_that (new_num_leaves \<le> MAX_ACCUMULATOR_LEAVES \<and> current \<le> new_num_leaves)
       \<lparr>current_num_leaves = current, remaining_new_leaves = new_num_leaves - current\<rparr>"

definition next_new_leaf_batch :: "frozen_sibling_iter \<Rightarrow> u64 outcome" where
  "next_new_leaf_batch it =
     out_bind (usize_sub MAX_ACCUMULATOR_PROOF_DEPTH (leading_zeros (remaining_new_leaves it))) (word_shl 1)"

definition frozen_sibling_next :: "frozen_sibling_iter \<Rightarrow> (position option \<times> frozen_sibling_iter) outcome" where
  "frozen_sibling_next it =
     (if remaining_new_leaves it = 0 then Ret (None, it)
      else out_bind
             (if current_num_leaves it > 0
              then out_bind (word_shl 1 (trailing_zeros (current_num_leaves it))) (\<lambda>rightmost_frozen_subtree_leaves.
                     if remaining_new_leaves it \<ge> rightmost_frozen_subtree_leaves
                     then Ret rightmost_frozen_subtree_leaves
                     else next_new_leaf_batch it)
              else next_new_leaf_batch it)
             (\<lambda>next_subtree_leaves.
               let first_leaf_index = current_num_leaves it in
               out_bind (word_add first_leaf_index next_subtree_leaves) (\<lambda>end_leaf.
               out_bind (word_sub end_leaf 1) (\<lambda>last_leaf_index.
               out_bind (word_add (current_num_leaves it) next_subtree_leaves) (\<lambda>current.
               out_bind (word_sub (remaining_new_leaves it) next_subtree_leaves) (\<lambda>remaining.
               out_bind (word_add first_leaf_index last_leaf_index) (\<lambda>root.
                 Ret (Some (from_inorder_index root),
                      \<lparr>current_num_leaves = current, remaining_new_leaves = remaining\<rparr>))))))))"

section \<open>Nodes by level and index\<close>

declare push_bit_Suc [simp del]

definition node :: "nat \<Rightarrow> nat \<Rightarrow> u64" where
  "node l p = push_bit (Suc l) (word_of_nat p) OR mask l"

definition in_tree :: "nat \<Rightarrow> nat \<Rightarrow> bool" where
  "in_tree l p \<longleftrightarrow> l < 64 \<and> p < 2 ^ (63 - l)"

lemma bit_node: "bit (node l p) n \<longleftrightarrow> n < 64 \<and> (n < l \<or> l < n \<and> bit p (n - Suc l))"
  by (auto simp: node_def bit_or_iff bit_push_bit_iff bit_mask_iff bit_of_nat_iff bit_exp_iff)

lemma unat_push_bit_nat:
  assumes "m * 2 ^ n < 2 ^ 64"
  shows "unat (push_bit n (word_of_nat m :: u64)) = m * 2 ^ n"
proof -
  have "push_bit n (word_of_nat m :: u64) = word_of_nat (m * 2 ^ n)" by (simp add: push_bit_eq_mult)
  then show ?thesis using assms by (simp only: unat_of_nat) simp
qed

lemma in_tree_bound: "in_tree l p \<Longrightarrow> p * 2 ^ Suc l + 2 ^ Suc l \<le> 2 ^ 64"
proof -
  assume a: "in_tree l p"
  then have "Suc p \<le> 2 ^ (63 - l)" by (simp add: in_tree_def)
  then have "Suc p * 2 ^ Suc l \<le> 2 ^ (63 - l) * 2 ^ Suc l" by (rule mult_le_mono1)
  also have "\<dots> = 2 ^ (63 - l + Suc l)" by (simp only: power_add)
  also have "63 - l + Suc l = 64" using a by (simp add: in_tree_def)
  finally show ?thesis by simp
qed

lemma node_sum: "node l p = push_bit (Suc l) (word_of_nat p) + mask l"
  unfolding node_def
  by (rule disjunctive_add [symmetric]) (auto simp: bit_push_bit_iff bit_mask_iff)

lemma unat_node:
  assumes "in_tree l p"
  shows "unat (node l p) = p * 2 ^ Suc l + 2 ^ l - 1"
proof -
  note b = in_tree_bound [OF assms]
  have l: "l < 64" using assms by (simp add: in_tree_def)
  have pos: "(0::nat) < 2 ^ l" by simp
  have "(2::nat) ^ l \<le> 2 ^ 64" using l by (intro power_increasing) simp_all
  then have "mask l < (2::nat) ^ 64" by (simp add: mask_eq_exp_minus_1 less_imp_diff_less)
  then have m: "unat (mask l :: u64) = 2 ^ l - 1"
    using of_nat_inverse [of "mask l" "mask l :: u64"] by (simp add: of_nat_mask_eq mask_eq_exp_minus_1)
  have q: "unat (push_bit (Suc l) (word_of_nat p :: u64)) = p * 2 ^ Suc l"
    using b pos power_Suc [of "2::nat" l] by (intro unat_push_bit_nat) linarith
  have "p * 2 ^ Suc l + (2 ^ l - 1) < 2 ^ 64" using b pos power_Suc [of "2::nat" l] by linarith
  then have "unat (node l p) = p * 2 ^ Suc l + (2 ^ l - 1)"
    unfolding node_sum using q m by (simp add: unat_word_ariths(1))
  then show ?thesis using pos by linarith
qed

lemma node_inject:
  assumes "in_tree l p" and "in_tree l' p'" and "node l p = node l' p'"
  shows "l = l' \<and> p = p'"
proof -
  have l64: "l < 64" "l' < 64" using assms by (simp_all add: in_tree_def)
  have eq: "bit (node l p) n = bit (node l' p') n" for n using assms(3) by simp
  have ll: "l = l'"
    using eq [of l] eq [of l'] l64 by (auto simp: bit_node)
  moreover have "p * 2 ^ Suc l + 2 ^ l - 1 = p' * 2 ^ Suc l + 2 ^ l - 1"
    using assms unat_node by (metis ll)
  then have "p * 2 ^ Suc l + 2 ^ l = p' * 2 ^ Suc l + 2 ^ l"
    by (metis One_nat_def Suc_pred add_gr_0 zero_less_numeral zero_less_power)
  ultimately show ?thesis by simp
qed

lemma isolate_node:
  assumes "l < 64"
  shows "isolate_rightmost_zero_bit (node l p) = push_bit l 1"
proof -
  have "mask l + 1 = (push_bit l 1 :: u64)" by (simp add: mask_eq_exp_minus_1 push_bit_eq_mult)
  then have "node l p + 1 = push_bit (Suc l) (word_of_nat p) + push_bit l 1"
    by (simp only: node_sum add.assoc)
  also have "\<dots> = push_bit (Suc l) (word_of_nat p) OR push_bit l 1"
    by (rule disjunctive_add) (auto simp: bit_push_bit_iff bit_exp_iff)
  finally have s: "node l p + 1 = push_bit (Suc l) (word_of_nat p) OR push_bit l 1" .
  show ?thesis
    unfolding isolate_rightmost_zero_bit_def s
    by (rule bit_word_eqI)
      (use assms in \<open>auto simp: bit_and_iff bit_not_iff bit_node bit_or_iff bit_push_bit_iff bit_of_nat_iff bit_exp_iff not_less\<close>)
qed

lemma trailing_zeros_fromI:
  assumes "bit v l" and "\<And>j. j < l \<Longrightarrow> \<not> bit v j" and "i \<le> l" and "l < i + n"
  shows "trailing_zeros_from n i v = l"
  using assms(3,4)
proof (induction n arbitrary: i)
  case (Suc n)
  then show ?case using assms(1,2) by (cases "i = l") auto
qed simp

lemma trailing_zerosI: "bit v l \<Longrightarrow> (\<And>j. j < l \<Longrightarrow> \<not> bit v j) \<Longrightarrow> l < 64 \<Longrightarrow> trailing_zeros v = l"
  unfolding trailing_zeros_def by (rule trailing_zeros_fromI) simp_all

lemma trailing_zeros_bits:
  assumes "m \<noteq> (0::u64)"
  shows "trailing_zeros m < 64" and "bit m (trailing_zeros m)" and "j < trailing_zeros m \<Longrightarrow> \<not> bit m j"
proof -
  have ex: "\<exists>l. bit m l" using assms by (auto simp: bit_eq_iff)
  define l where "l = (LEAST l. bit m l)"
  have l: "bit m l" unfolding l_def using ex by (rule LeastI_ex)
  moreover have least: "\<not> bit m j" if "j < l" for j using that unfolding l_def by (rule not_less_Least)
  moreover have l64: "l < 64" using l bit_imp_le_length [of m l] by simp
  ultimately have "trailing_zeros m = l" by (intro trailing_zerosI)
  then show "trailing_zeros m < 64" "bit m (trailing_zeros m)" "j < trailing_zeros m \<Longrightarrow> \<not> bit m j"
    using l l64 least by simp_all
qed

lemma trailing_zeros_from_0: "trailing_zeros_from n i 0 = i + n"
  by (induction n arbitrary: i) simp_all

lemma trailing_zeros_zero [simp]: "trailing_zeros 0 = 64"
  by (simp add: trailing_zeros_def trailing_zeros_from_0)

lemma trailing_zeros_shift:
  assumes "m \<noteq> (0::u64)"
  shows "trailing_zeros m < trailing_zeros (push_bit 1 m)"
proof -
  define w where "w = push_bit 1 m"
  have down: "1 \<le> j \<and> bit m (j - 1)" if "bit w j" for j using that unfolding w_def bit_push_bit_iff by blast
  have "trailing_zeros m < trailing_zeros w"
  proof (cases "w = 0")
    case True
    then show ?thesis using trailing_zeros_bits(1) [OF assms] by simp
  next
    case False
    note d = down [OF trailing_zeros_bits(2) [OF False]]
    then have "\<not> trailing_zeros w - 1 < trailing_zeros m"
      using trailing_zeros_bits(3) [OF assms, of "trailing_zeros w - 1"] by blast
    with d show ?thesis by linarith
  qed
  then show ?thesis by (simp only: w_def)
qed

lemma level_node: "l < 64 \<Longrightarrow> pos_level (Position (node l p)) = l"
  unfolding pos_level_def by (rule trailing_zerosI) (simp_all add: bit_not_iff bit_node)

lemma is_leaf_node: "l < 64 \<Longrightarrow> is_leaf (Position (node l p)) \<longleftrightarrow> l = 0"
proof -
  assume "l < 64"
  have "node l p AND 1 = 0 \<longleftrightarrow> \<not> bit (node l p) 0" by (simp add: and_one_eq bit_0 odd_iff_mod_2_eq_one)
  then show ?thesis by (simp add: is_leaf_def bit_node)
qed

text \<open>The invariant excludes only the very last leaf.\<close>

lemma pos_inv_node:
  assumes t: "in_tree l p" and "0 < l \<or> p < 2 ^ 63 - 1"
  shows "pos_inv (Position (node l p))"
proof -
  have two: "unat (- 1 - 1 :: u64) = 2 ^ 64 - 2" by simp
  have "unat (node l p) < 2 ^ 64 - 2"
  proof (cases l)
    case 0
    with assms(2) have "p < 2 ^ 63 - 1" by simp
    then show ?thesis using unat_node [OF t] 0 by simp
  next
    case (Suc k)
    have "(1::nat) \<le> 2 ^ k" "(2::nat) ^ l = 2 * 2 ^ k" "(2::nat) ^ Suc l = 4 * 2 ^ k" using Suc by simp_all
    then show ?thesis using in_tree_bound [OF t] unat_node [OF t] by linarith
  qed
  then show ?thesis unfolding pos_inv_def word_less_nat_alt two by simp
qed

lemmas bit_defs = bit_and_iff bit_or_iff bit_not_iff bit_xor_iff bit_push_bit_iff bit_drop_bit_eq bit_exp_iff bit_node

lemma parent_node:
  assumes "l < 63" and "pos_inv (Position (node l p))"
  shows "parent (Position (node l p)) = Ret (Position (node (Suc l) (p div 2)))"
proof -
  have "(node l p OR push_bit l 1) AND NOT (push_bit 1 (push_bit l 1)) = node (Suc l) (p div 2)"
    by (rule bit_word_eqI) (use assms(1) in \<open>auto simp: bit_defs bit_Suc [symmetric] Suc_diff_Suc not_less le_less\<close>)
  with assms show ?thesis by (simp add: parent_def isolate_node assert_that_def)
qed

lemma child_node:
  assumes "0 < l" and "l < 64" and "pos_inv (Position (node l p))"
  shows "child (Position (node l p)) Left = Ret (Position (node (l - 1) (2 * p)))"
    and "child (Position (node l p)) Right = Ret (Position (node (l - 1) (2 * p + 1)))"
proof -
  obtain k where l: "l = Suc k" using assms(1) by (cases l) auto
  have b: "bit (2 * p) (Suc m) = bit p m" "bit (2 * p + 1) (Suc m) = bit p m" for m
    by (simp_all add: bit_Suc)
  have b0: "\<not> bit (2 * p) 0" "bit (2 * p + 1) 0" by (simp_all add: bit_0)
  have half: "drop_bit 1 (push_bit l 1 :: u64) = push_bit k 1"
  proof (rule bit_word_eqI)
    fix n assume "n < LENGTH(64)"
    have "bit ((2::u64) ^ l) (Suc n) \<longleftrightarrow> n = k" unfolding bit_exp_iff using assms(2) l by auto
    then show "bit (drop_bit 1 (push_bit l 1 :: u64)) n = bit (push_bit k 1 :: u64) n"
      using assms(2) l by (auto simp: bit_drop_bit_eq bit_exp_iff push_bit_eq_mult simp del: power_Suc)
  qed
  have L: "node l p AND NOT (push_bit k 1) = node k (2 * p)"
  proof (rule bit_word_eqI)
    fix n assume n: "n < LENGTH(64)"
    show "bit (node l p AND NOT (push_bit k 1)) n = bit (node k (2 * p)) n"
    proof (cases "n < Suc k")
      case False
      then have "n = (n - Suc k) + Suc k" by simp
      then obtain j where j: "n = j + Suc k" by blast
      show ?thesis unfolding j l using n j b b0 by (cases j) (simp_all add: bit_defs del: power_Suc)
    qed (use l in \<open>auto simp: bit_defs\<close>)
  qed
  have R: "(node l p OR push_bit l 1) AND NOT (push_bit k 1) = node k (2 * p + 1)"
  proof (rule bit_word_eqI)
    fix n assume n: "n < LENGTH(64)"
    show "bit ((node l p OR push_bit l 1) AND NOT (push_bit k 1)) n = bit (node k (2 * p + 1)) n"
    proof (cases "n < Suc k")
      case False
      then have "n = (n - Suc k) + Suc k" by simp
      then obtain j where j: "n = j + Suc k" by blast
      show ?thesis unfolding j l using n j b b0 by (cases j) (simp_all add: bit_defs del: power_Suc)
    qed (use l in \<open>auto simp: bit_defs\<close>)
  qed
  from assms L R half l show "child (Position (node l p)) Left = Ret (Position (node (l - 1) (2 * p)))"
    "child (Position (node l p)) Right = Ret (Position (node (l - 1) (2 * p + 1)))"
    by (simp_all add: child_def isolate_node is_leaf_node assert_that_def)
qed

lemma is_left_child_node:
  assumes "l < 63" and "pos_inv (Position (node l p))"
  shows "is_left_child (Position (node l p)) = Ret (even p)"
proof -
  have "node l p AND push_bit 1 (push_bit l 1) = 0 \<longleftrightarrow> \<not> bit (node l p) (Suc l)"
  proof
    assume "node l p AND push_bit 1 (push_bit l 1) = 0"
    then have "\<not> bit (node l p AND push_bit 1 (push_bit l 1)) (Suc l)" by simp
    then show "\<not> bit (node l p) (Suc l)" using assms(1) by (auto simp: bit_and_iff bit_push_bit_iff bit_exp_iff)
  next
    assume "\<not> bit (node l p) (Suc l)"
    then show "node l p AND push_bit 1 (push_bit l 1) = 0"
      by (intro bit_word_eqI) (auto simp: bit_and_iff bit_push_bit_iff bit_exp_iff)
  qed
  then show ?thesis
    using assms by (simp add: is_left_child_def isolate_node assert_that_def bit_node bit_0)
qed

lemma sibling_node:
  assumes "l < 63" and "pos_inv (Position (node l p))"
  shows "sibling (Position (node l p)) = Ret (Position (node l (if even p then p + 1 else p - 1)))"
proof -
  let ?q = "if even p then p + 1 else p - 1"
  have b: "bit ?q m \<longleftrightarrow> (if m = 0 then even p else bit p m)" for m
    by (cases m) (auto simp: bit_0 bit_Suc elim!: evenE oddE)
  have "node l p XOR push_bit 1 (push_bit l 1) = node l ?q"
    by (rule bit_word_eqI) (use assms(1) b in \<open>auto simp: bit_defs bit_0 simp del: One_nat_def split: if_splits\<close>)
  with assms show ?thesis by (simp add: sibling_def isolate_node assert_that_def)
qed

lemma word_of_unat: "unat (v::u64) = n \<Longrightarrow> v = word_of_nat n"
  by (metis of_nat_unat ucast_id)

lemma leftmost_node:
  assumes "in_tree l p"
  shows "left_most_child (Position (node l p)) = Ret (Position (word_of_nat (p * 2 ^ Suc l)))"
proof -
  have l: "l < 64" using assms by (simp add: in_tree_def)
  have "push_bit l (drop_bit l (node l p)) = push_bit (Suc l) (word_of_nat p)"
    by (rule bit_word_eqI) (use l in \<open>auto simp: bit_defs bit_of_nat_iff\<close>)
  also have "\<dots> = word_of_nat (p * 2 ^ Suc l)" by (simp add: push_bit_eq_mult)
  finally show ?thesis
    using l by (simp add: left_most_child_def level_node turn_off_right_most_n_bits_def word_shl_def word_shr_def)
qed

lemma rightmost_node:
  assumes "in_tree l p"
  shows "right_most_child (Position (node l p)) = Ret (Position (word_of_nat (p * 2 ^ Suc l + 2 ^ Suc l - 2)))"
proof -
  have l: "l < 64" using assms by (simp add: in_tree_def)
  define x where "x = (2::nat) ^ l"
  have x: "1 \<le> x" "2 ^ Suc l = 2 * x" by (simp_all add: x_def)
  have b: "p * (2 * x) + 2 * x \<le> 2 ^ 64" using in_tree_bound [OF assms] x(2) by simp
  have n: "unat (node l p) = p * (2 * x) + x - 1" using unat_node [OF assms] x(2) by (simp add: x_def)
  have leaves: "word_shl 1 l = Ret (push_bit l 1 :: u64)" using l by (simp add: word_shl_def)
  have ux: "unat (push_bit l 1 :: u64) = x" using unat_push_bit_nat [of 1 l] b x by (simp add: x_def)
  define s where "s = node l p + push_bit l 1"
  have add: "word_add (node l p) (push_bit l 1) = Ret s"
    unfolding word_add_def s_def n ux using b x(1) by simp
  have us: "unat s = p * (2 * x) + 2 * x - 1"
    unfolding s_def using n ux b x(1) by (simp add: unat_word_ariths(1) take_bit_nat_eq_self)
  have le: "1 \<le> s" using us x(1) by (simp add: word_le_nat_alt)
  then have "unat (s - 1) = p * (2 * x) + 2 * x - 2" using us x(1) by (simp add: unat_sub)
  from word_of_unat [OF this] have "s - 1 = word_of_nat (p * (2 * x) + 2 * x - 2)" .
  with le show ?thesis
    unfolding right_most_child_def level_node [OF l] pos_word.simps leaves out_bind_simps add word_sub_def x(2) by simp
qed

lemma from_level_and_pos_node:
  assumes "in_tree l p"
  shows "from_level_and_pos l (word_of_nat p) = Ret (Position (node l p))"
proof (cases "l = 63")
  case True
  with assms have "p = 0" by (simp add: in_tree_def)
  with True show ?thesis by (simp add: from_level_and_pos_def node_def mask_eq_exp_minus_1 push_bit_eq_mult)
next
  case False
  with assms show ?thesis
    by (simp add: from_level_and_pos_def node_def in_tree_def mask_eq_exp_minus_1 push_bit_eq_mult)
qed

text \<open>Every position but the last number is a node of the tree.\<close>

lemma two_adic: "0 < (m::nat) \<Longrightarrow> \<exists>l q. m = 2 ^ l * (2 * q + 1)"
proof (induction m rule: less_induct)
  case (less m)
  show ?case
  proof (cases "even m")
    case True
    then obtain k where k: "m = 2 * k" by blast
    with less.prems less.IH [of k] obtain l q where "k = 2 ^ l * (2 * q + 1)" by auto
    with k have "m = 2 ^ Suc l * (2 * q + 1)" by simp
    then show ?thesis by blast
  next
    case False
    then obtain q where "m = 2 ^ 0 * (2 * q + 1)" by (auto elim: oddE)
    then show ?thesis by blast
  qed
qed

lemma word_is_node:
  assumes "v \<noteq> (- 1 :: u64)"
  shows "\<exists>l p. in_tree l p \<and> v = node l p"
proof -
  have "unat v \<noteq> 2 ^ 64 - 1" using assms word_unat_eq_iff [of v "- 1"]
    by (simp add: unsigned_minus_1_eq_mask mask_eq_exp_minus_1)
  moreover have "unat v < 2 ^ 64" using unsigned_less [of v, where 'a = nat] by simp
  ultimately have lt: "Suc (unat v) < 2 ^ 64" by linarith
  obtain l p where lp: "Suc (unat v) = 2 ^ l * (2 * p + 1)" using two_adic [of "Suc (unat v)"] by auto
  have "(2::nat) ^ l \<le> Suc (unat v)" unfolding lp by simp
  with lt have "(2::nat) ^ l < 2 ^ 64" by linarith
  then have l: "l < 64" by (rule power_less_imp_less_exp [rotated]) simp
  have "2 ^ l * (2 * p) < 2 ^ 64" using lt lp by (simp add: algebra_simps)
  also have "(2::nat) ^ 64 = 2 ^ l * (2 * 2 ^ (63 - l))"
    using l power_add [of "2::nat" l "Suc (63 - l)"] by simp
  finally have "p < 2 ^ (63 - l)" by simp
  with l have t: "in_tree l p" by (simp add: in_tree_def)
  have "unat v = unat (node l p)" using lp unat_node [OF t] by (simp add: algebra_simps)
  with t show ?thesis by (metis word_unat_eq_iff)
qed

section \<open>The post-order numbers\<close>

text \<open>
  The post-order number of a node is its level plus the sizes of the full trees to its left and below it, one
  for every bit of the number of the node without its lowest zero bit.
\<close>

fun weight :: "nat \<Rightarrow> nat \<Rightarrow> nat" where
  "weight 0 q = 0"
| "weight (Suc n) q = (if bit q n then 2 ^ Suc n - 1 else 0) + weight n q"

fun ones :: "nat \<Rightarrow> nat \<Rightarrow> nat" where
  "ones 0 q = 0"
| "ones (Suc n) q = (if bit q n then 1 else 0) + ones n q"

lemma take_bit_Suc_top: "take_bit (Suc n) (q::nat) = take_bit n q + (if bit q n then 2 ^ n else 0)"
  by (simp add: take_bit_Suc_from_most)

lemma weight_ones: "weight n q + ones n q = 2 * take_bit n q"
proof (induction n)
  case (Suc n)
  define x where "x = (2::nat) ^ n"
  then have "1 \<le> x" by simp
  with Suc show ?case unfolding weight.simps ones.simps take_bit_Suc_top power_Suc x_def [symmetric] by auto
qed simp

lemma weight_bound: "weight n q + n + 2 \<le> 2 ^ Suc n"
proof (induction n)
  case (Suc n)
  have "(2::nat) ^ Suc (Suc n) = 2 ^ Suc n + 2 ^ Suc n" "(1::nat) \<le> 2 ^ Suc n" by simp_all
  with Suc show ?case by (simp del: power_Suc)
qed simp

definition node_bits :: "nat \<Rightarrow> nat \<Rightarrow> nat" where
  "node_bits l p = p * 2 ^ l + (2 ^ l - 1)"

lemma bit_node_bits: "bit (node_bits l p) i \<longleftrightarrow> (if i < l then True else bit p (i - l))"
proof -
  have "node_bits l p = push_bit l p + mask l" by (simp add: node_bits_def push_bit_eq_mult mask_eq_exp_minus_1)
  also have "\<dots> = push_bit l p OR mask l"
    by (rule disjunctive_add) (auto simp: bit_push_bit_iff bit_mask_iff)
  finally show ?thesis by (auto simp: bit_or_iff bit_push_bit_iff bit_mask_iff)
qed

lemma ones_count: "n \<le> 64 \<Longrightarrow> length (filter (bit (v::u64)) [0..<n]) = ones n (unat v)"
proof (induction n)
  case (Suc n)
  have "bit (unat v) n = bit v n" using Suc.prems by (simp add: bit_unsigned_iff)
  with Suc show ?case by simp
qed simp

lemma ones_shift: "ones (n + k) (q * 2 ^ k) = ones n q"
proof (induction n)
  case 0
  have "\<not> bit (q * 2 ^ k) j" if "j < k" for j using that by (simp add: bit_push_bit_iff flip: push_bit_eq_mult)
  then have "ones m (q * 2 ^ k) = 0" if "m \<le> k" for m using that by (induction m) auto
  then show ?case by simp
next
  case (Suc n)
  have "bit (q * 2 ^ k) (n + k) = bit q n" by (simp add: bit_push_bit_iff flip: push_bit_eq_mult)
  with Suc show ?case by simp
qed

lemma ones_node_bits: "ones (n + l) (node_bits l p) = ones n p + l"
proof (induction n)
  case 0
  have "ones m (node_bits l p) = m" if "m \<le> l" for m using that by (induction m) (simp_all add: bit_node_bits)
  then show ?case by simp
next
  case (Suc n)
  then show ?case by (simp add: bit_node_bits)
qed

lemma ones_high: "p < 2 ^ n \<Longrightarrow> ones (n + m) p = ones n p"
proof (induction m)
  case (Suc m)
  have "p < 2 ^ (n + m)" using Suc.prems by (rule less_le_trans) simp
  then have "\<not> bit p (n + m)" by (simp add: bit_iff_odd)
  with Suc show ?case by simp
qed simp

lemma ones_le: "ones n q \<le> q"
proof -
  have "ones n q \<le> take_bit n q"
  proof (induction n)
    case (Suc n)
    define x where "x = (2::nat) ^ n"
    then have "1 \<le> x" by simp
    with Suc show ?case unfolding ones.simps take_bit_Suc_top x_def [symmetric] by simp
  qed simp
  also have "\<dots> \<le> q" by (rule take_bit_nat_less_eq_self)
  finally show ?thesis .
qed

lemma word_sub_nat: "n \<le> m \<Longrightarrow> m < 2 ^ 64 \<Longrightarrow> word_sub (word_of_nat m) (word_of_nat n) = Ret (word_of_nat (m - n) :: u64)"
  by (simp add: word_sub_def word_le_nat_alt unat_of_nat take_bit_nat_eq_self of_nat_diff)

lemma word_add_nat: "m + n < 2 ^ 64 \<Longrightarrow> word_add (word_of_nat m) (word_of_nat n) = Ret (word_of_nat (m + n) :: u64)"
  by (simp add: word_add_def unat_of_nat take_bit_nat_eq_self)

lemma postorder_weight:
  assumes t: "in_tree l p"
  shows "weight 64 (node_bits l p) + l + ones 64 p = p * 2 ^ Suc l + 2 ^ Suc l - 2"
    and "weight 64 (node_bits l p) + l < 2 ^ 64 - 1"
proof -
  have l: "l < 64" and p: "p < 2 ^ (63 - l)" using t by (simp_all add: in_tree_def)
  define x where "x = (2::nat) ^ l"
  have x: "1 \<le> x" "2 ^ Suc l = 2 * x" by (simp_all add: x_def)
  have b: "p * (2 * x) + 2 * x \<le> 2 ^ 64" using in_tree_bound [OF t] x(2) by simp
  have q: "node_bits l p < 2 ^ 64" "2 * node_bits l p = p * (2 * x) + 2 * x - 2"
    using b x by (auto simp: node_bits_def x_def)
  have "weight 64 (node_bits l p) + ones 64 (node_bits l p) = p * (2 * x) + 2 * x - 2"
    using weight_ones [of 64 "node_bits l p"] q by (simp add: take_bit_nat_eq_self)
  moreover have "ones 64 (node_bits l p) = ones 64 p + l"
  proof -
    have "ones 64 (node_bits l p) = ones (64 - l) p + l" using ones_node_bits [of "64 - l" l p] l by simp
    moreover have "p < 2 ^ (64 - l)" using p by (rule less_le_trans) (simp add: power_increasing)
    then have "ones 64 p = ones (64 - l) p" using ones_high [of p "64 - l" l] l by simp
    ultimately show ?thesis by simp
  qed
  ultimately show w: "weight 64 (node_bits l p) + l + ones 64 p = p * 2 ^ Suc l + 2 ^ Suc l - 2"
    unfolding x(2) by simp
  then show "weight 64 (node_bits l p) + l < 2 ^ 64 - 1" unfolding x(2) using b x(1) by linarith
qed

lemma count_ones_shifted:
  assumes "in_tree l p"
  shows "count_ones (push_bit (Suc l) (word_of_nat p)) = ones 64 p"
proof -
  have l: "l < 64" and p: "p < 2 ^ (63 - l)" using assms by (simp_all add: in_tree_def)
  have "p * 2 ^ Suc l < 2 ^ 64" using in_tree_bound [OF assms] by (rule order.strict_trans2 [rotated]) simp
  from unat_push_bit_nat [OF this]
  have "count_ones (push_bit (Suc l) (word_of_nat p)) = ones 64 (p * 2 ^ Suc l)"
    unfolding count_ones_def using ones_count [of 64 "push_bit (Suc l) (word_of_nat p)"] by simp
  also have "\<dots> = ones (63 - l) p" using ones_shift [of "63 - l" "Suc l" p] l by simp
  also have "\<dots> = ones 64 p" using ones_high [OF p, of "Suc l"] l by simp
  finally show ?thesis .
qed

lemma postorder_of_node:
  assumes t: "in_tree l p" and l63: "l < 63"
  shows "inorder_to_postorder (node l p) = Ret (word_of_nat (weight 64 (node_bits l p) + l))"
proof -
  have l: "l < 64" using l63 by simp
  define x where "x = (2::nat) ^ l"
  have x: "1 \<le> x" "2 ^ Suc l = 2 * x" by (simp_all add: x_def)
  have b: "p * (2 * x) + 2 * x \<le> 2 ^ 64" using in_tree_bound [OF t] x(2) by simp
  have iso: "isolate_rightmost_zero_bit (node l p) = push_bit l 1" by (rule isolate_node [OF l])
  have m: "word_sub (push_bit l 1) 1 = Ret (mask l :: u64)"
  proof -
    have "unat (push_bit l 1 :: u64) = x" using unat_push_bit_nat [of 1 l] b x by (simp add: x_def)
    then have "(1::u64) \<le> push_bit l 1" using x(1) by (simp add: word_le_nat_alt)
    then show ?thesis unfolding word_sub_def by (simp add: mask_eq_exp_minus_1)
  qed
  have x2: "node l p XOR mask l = push_bit (Suc l) (word_of_nat p)"
    by (rule bit_word_eqI) (use l in \<open>auto simp: bit_defs bit_mask_iff bit_of_nat_iff\<close>)
  have sh: "push_bit (Suc l) (word_of_nat p :: u64) = word_of_nat (p * (2 * x))"
    by (simp add: push_bit_eq_mult x_def)
  have "x < 2 ^ 63" unfolding x_def using l63 by (intro power_strict_increasing) simp_all
  then have child: "children_of_node (node l p) = Ret (word_of_nat (2 * x - 2))"
    unfolding children_of_node_def iso using word_sub_nat [of 2 "2 * x"] x(1)
    by (simp add: x_def push_bit_eq_mult mult.commute)
  have "ones 64 p * 1 \<le> p * (2 * x)" by (rule mult_le_mono [OF ones_le]) (use x(1) in simp)
  then have o: "ones 64 p \<le> p * (2 * x)" by simp
  moreover have "p * (2 * x) < 2 ^ 64" using b x(1) by linarith
  ultimately have left: "nodes_to_left_of (node l p) = Ret (word_of_nat (p * (2 * x) - ones 64 p))"
    unfolding nodes_to_left_of_def iso m out_bind_simps x2 Let_def count_ones_shifted [OF t] unfolding sh by (rule word_sub_nat)
  have sum: "2 * x - 2 + (p * (2 * x) - ones 64 p) = weight 64 (node_bits l p) + l"
    using postorder_weight(1) [OF t, unfolded x(2)] x(1) o by linarith
  then have "word_add (word_of_nat (2 * x - 2)) (word_of_nat (p * (2 * x) - ones 64 p))
      = Ret (word_of_nat (weight 64 (node_bits l p) + l) :: u64)"
    using word_add_nat [of "2 * x - 2" "p * (2 * x) - ones 64 p"] postorder_weight(2) [OF t] by simp
  then show ?thesis unfolding inorder_to_postorder_def child left by simp
qed

lemma postorder_loop_node:
  "\<lbrakk>n \<le> 64; unat v = weight n q + l; \<forall>j<l. bit q j\<rbrakk>
   \<Longrightarrow> postorder_loop n (v, mask n, b) = (word_of_nat l, b OR take_bit n (word_of_nat q))"
proof (induction n arbitrary: v b)
  case 0
  then have "v = word_of_nat l" using word_of_unat [of v l] by simp
  then show ?case by simp
next
  case (Suc i)
  have size: "unat (mask (Suc i) :: u64) = 2 ^ Suc i - 1"
  proof -
    have "(mask (Suc i) :: nat) < 2 ^ 64"
      using Suc.prems(1) power_increasing [of "Suc i" 64 "2::nat"] by (simp add: mask_eq_exp_minus_1 less_le_trans)
    then have "unat (word_of_nat (mask (Suc i)) :: u64) = mask (Suc i)" by (simp add: unat_of_nat)
    then show ?thesis by (simp add: of_nat_mask_eq mask_eq_exp_minus_1)
  qed
  have half: "drop_bit 1 (mask (Suc i)) = (mask i :: u64)"
    by (rule bit_word_eqI) (use Suc.prems(1) in \<open>auto simp: bit_drop_bit_eq bit_mask_iff\<close>)
  have i: "i \<le> 64" using Suc.prems(1) by simp
  show ?case
  proof (cases "bit q i")
    case True
    have ge: "mask (Suc i) \<le> v" using Suc.prems(2) True size by (simp add: word_le_nat_alt del: power_Suc)
    then have "unat (v - mask (Suc i)) = unat v - unat (mask (Suc i) :: u64)" by (rule unat_sub)
    also have "\<dots> = weight i q + l" 
      unfolding size Suc.prems(2) using True by (simp only: weight.simps if_True add.assoc diff_add_inverse)
    finally have "unat (v - mask (Suc i)) = weight i q + l" .
    note IH = Suc.IH [OF i this Suc.prems(3)]
    have "take_bit (Suc i) (word_of_nat q) = push_bit i 1 OR take_bit i (word_of_nat q :: u64)"
      by (rule bit_word_eqI) (use Suc.prems(1) True in \<open>auto simp: bit_defs bit_take_bit_iff bit_of_nat_iff less_Suc_eq\<close>)
    then show ?thesis using ge half IH by (simp add: or.assoc)
  next
    case False
    then have "l \<le> i" using Suc.prems(3) not_less by blast
    then have "unat v < 2 ^ Suc i - 1" using Suc.prems(2) False weight_bound [of i q] by (simp del: power_Suc)
    then have lt: "\<not> mask (Suc i) \<le> v" using size by (simp add: word_le_nat_alt del: power_Suc)
    have "unat v = weight i q + l" using Suc.prems(2) False by simp
    note IH = Suc.IH [OF i this Suc.prems(3)]
    have "take_bit (Suc i) (word_of_nat q) = take_bit i (word_of_nat q :: u64)"
      by (rule bit_word_eqI) (use Suc.prems(1) False in \<open>auto simp: bit_take_bit_iff bit_of_nat_iff less_Suc_eq\<close>)
    then show ?thesis using lt half IH by simp
  qed
qed

lemma drop_node_bits:
  assumes "in_tree l p"
  shows "drop_bit l (word_of_nat (node_bits l p)) = (word_of_nat p :: u64)"
proof (rule bit_word_eqI)
  fix n
  have "p < 2 ^ m" if "63 - l \<le> m" for m
    using assms that by (auto simp: in_tree_def intro: less_le_trans power_increasing)
  then have "\<not> bit p n" if "64 \<le> l + n" using that by (simp add: bit_iff_odd)
  then show "bit (drop_bit l (word_of_nat (node_bits l p) :: u64)) n = bit (word_of_nat p :: u64) n"
    by (cases "64 \<le> l + n") (auto simp: bit_drop_bit_eq bit_of_nat_iff bit_node_bits)
qed

lemma postorder_inverse:
  assumes t: "in_tree l p"
  shows "from_postorder_index (word_of_nat (weight 64 (node_bits l p) + l)) = Ret (Inr (Position (node l p)))"
proof -
  define i where "i = (word_of_nat (weight 64 (node_bits l p) + l) :: u64)"
  have l: "l < 64" using t by (simp add: in_tree_def)
  have full: "NOT 0 = (mask 64 :: u64)" by (rule bit_word_eqI) (simp add: bit_mask_iff)
  have w: "take_bit 64 v = v" for v :: u64 by (rule bit_word_eqI) (simp add: bit_take_bit_iff)
  have i: "unat i = weight 64 (node_bits l p) + l"
    using postorder_weight(2) [OF t] unfolding i_def by (simp add: unat_of_nat take_bit_nat_eq_self del: of_nat_add)
  then have "postorder_loop 64 (i, NOT 0, 0) = (word_of_nat l, word_of_nat (node_bits l p))"
    unfolding full by (subst postorder_loop_node [OF order.refl]) (simp_all add: bit_node_bits w)
  moreover have "unat (ucast (word_of_nat l :: u64) :: u32) = l"
    using l by (simp add: unsigned_ucast_eq unsigned_of_nat take_bit_nat_eq_self)
  ultimately have "postorder_to_inorder i = Ret (node l p)" using l
    by (simp add: postorder_to_inorder_def word_shr_def drop_node_bits [OF t] from_level_and_pos_node [OF t] to_inorder_index_def)
  moreover have "i < NOT 0"
    using i postorder_weight(2) [OF t] by (simp add: word_less_nat_alt unsigned_minus_1_eq_mask mask_eq_exp_minus_1)
  ultimately show ?thesis unfolding i_def [symmetric] by (simp add: from_postorder_index_def)
qed

lemma root_node: "node 63 0 = 2 ^ 63 - 1" "in_tree 63 0"
  by (simp_all add: node_def mask_eq_exp_minus_1 in_tree_def)

lemma postorder_of_root:
  "to_postorder_index (Position (2 ^ 63 - 1)) = Panic"
  "from_postorder_index (- 2) = Ret (Inr (Position (2 ^ 63 - 1)))"
proof -
  have "push_bit 1 (push_bit 63 1) = (0 :: u64)" by simp
  then show "to_postorder_index (Position (2 ^ 63 - 1)) = Panic"
    unfolding root_node(1) [symmetric]
    by (simp add: to_postorder_index_def to_inorder_index_def inorder_to_postorder_def children_of_node_def
        isolate_node word_sub_def word_le_nat_alt)
  have "ones n 0 = 0" for n by (induction n) simp_all
  then have "weight 64 (node_bits 63 0) + 63 = 2 ^ 64 - 2"
    using postorder_weight(1) [OF root_node(2)] by simp
  moreover have "- 2 = (word_of_nat (2 ^ 64 - 2) :: u64)" by simp
  ultimately show "from_postorder_index (- 2) = Ret (Inr (Position (2 ^ 63 - 1)))"
    using postorder_inverse [OF root_node(2)] unfolding root_node(1) by (simp only:)
qed

text \<open>
  C31. The post-order number of a position is read back to the position: flattening the tree to
  its post-order index with \<open>to_postorder_index\<close> and descending from it bit by bit with
  \<open>from_postorder_index\<close> is the identity on every position but the unused number
  \<open>2\<^sup>64 - 1\<close> and the root of the whole tree, never panics and never reports an invalid index. At the
  root \<open>2\<^sup>63 - 1\<close>, which is what \<open>from_postorder_index\<close> gives for the last index,
  \<open>to_postorder_index\<close> overflows and panics.
\<close>
theorem postorder_roundtrip:
  assumes "x \<noteq> Position (- 1)" and "x \<noteq> Position (2 ^ 63 - 1)"
  shows "(\<exists>i. to_postorder_index x = Ret i \<and> from_postorder_index i = Ret (Inr x))
    \<and> to_postorder_index (Position (2 ^ 63 - 1)) = Panic
    \<and> from_postorder_index (- 2) = Ret (Inr (Position (2 ^ 63 - 1)))"
proof -
  obtain v where x: "x = Position v" by (cases x)
  with assms obtain l p where t: "in_tree l p" and v: "v = node l p" using word_is_node by blast
  have l: "l < 63"
  proof (rule ccontr)
    assume "\<not> l < 63"
    with t have "l = 63" "p = 0" by (auto simp: in_tree_def)
    then have "v = 2 ^ 63 - 1" using v root_node(1) by simp
    with assms(2) x show False by simp
  qed
  have "to_postorder_index x = Ret (word_of_nat (weight 64 (node_bits l p) + l))"
    using postorder_of_node [OF t l] by (simp add: x v to_postorder_index_def to_inorder_index_def del: of_nat_add)
  then show ?thesis using postorder_inverse [OF t] postorder_of_root unfolding x v by blast
qed

theorem postorder_roundtrip_witness:
  "Position 5 \<noteq> Position (- 1) \<and> Position 5 \<noteq> Position (2 ^ 63 - 1)
   \<and> (\<exists>i. to_postorder_index (Position 5) = Ret i \<and> from_postorder_index i = Ret (Inr (Position 5)))"
proof -
  have h: "Position 5 \<noteq> Position (- 1)" "Position 5 \<noteq> Position (2 ^ 63 - 1)" by simp_all
  show ?thesis using postorder_roundtrip [OF h] h by blast
qed

section \<open>Positions are the nodes of a binary tree\<close>

lemma pos_eqI: "unat (pos_word a) = unat (pos_word b) \<Longrightarrow> a = b"
  by (cases a; cases b) (simp add: word_unat_eq_iff)

text \<open>The last pair of leaves lies beyond the range every operation asserts.\<close>

lemma last_inner:
  assumes t: "in_tree l p" and l: "0 < l" and x: "node l p \<noteq> - 3"
  shows "0 < l - 1 \<or> 2 * p + 1 < 2 ^ 63 - 1"
proof (cases "l = 1")
  case True
  have p: "p < 2 ^ 62" using t True by (simp add: in_tree_def)
  have "p \<noteq> 2 ^ 62 - 1"
  proof
    assume "p = 2 ^ 62 - 1"
    then have "node l p = - 3" using True by (simp add: node_def push_bit_eq_mult mask_eq_exp_minus_1)
    with x show False by simp
  qed
  with p show ?thesis by simp
qed (use l in simp)

text \<open>
  C32. The bit arithmetic on positions is the navigation of a binary tree laid out in order: an inner
  position (other than the parent of the last two leaves, where \<open>right_child\<close> leaves the
  asserted range) has a left and a right child one level below whose parent it is, that are each
  other's sibling and recognised as left and right, and it lies between the two subtrees.
\<close>
theorem position_is_tree:
  assumes "pos_inv x" and "\<not> is_leaf x" and "x \<noteq> Position (- 3)"
  shows "\<exists>a b. left_child x = Ret a \<and> right_child x = Ret b
    \<and> parent a = Ret x \<and> parent b = Ret x \<and> sibling a = Ret b \<and> sibling b = Ret a
    \<and> is_left_child a = Ret True \<and> is_right_child b = Ret True
    \<and> Suc (pos_level a) = pos_level x \<and> Suc (pos_level b) = pos_level x
    \<and> left_most_child a = left_most_child x \<and> right_most_child b = right_most_child x
    \<and> (\<exists>r l. right_most_child a = Ret r \<and> left_most_child b = Ret l \<and> pos_word r < pos_word x \<and> pos_word x < pos_word l)"
proof -
  obtain v where v: "x = Position v" by (cases x)
  have "v \<noteq> - 1" using assms(1) by (auto simp: v pos_inv_def)
  then obtain l p where t: "in_tree l p" and n: "v = node l p" using word_is_node by blast
  have l: "l < 64" and p: "p < 2 ^ (63 - l)" using t by (simp_all add: in_tree_def)
  have l0: "0 < l" using assms(2) is_leaf_node [OF l, of p] by (simp add: v n)
  obtain k where k: "l = Suc k" using l0 by (cases l) auto
  let ?a = "Position (node k (2 * p))" and ?b = "Position (node k (2 * p + 1))"
  have ta: "in_tree k (2 * p)" and tb: "in_tree k (2 * p + 1)"
  proof -
    have "(2::nat) ^ (63 - k) = 2 * 2 ^ (63 - l)" using l k by (simp add: Suc_diff_Suc flip: power_Suc)
    then show "in_tree k (2 * p)" "in_tree k (2 * p + 1)" using p l k by (simp_all add: in_tree_def)
  qed
  have fit: "0 < k \<or> 2 * p + 1 < 2 ^ 63 - 1" using last_inner [OF t l0] assms(3) by (simp add: v n k)
  have ia: "pos_inv ?a" by (rule pos_inv_node [OF ta]) (use fit in linarith)
  have ib: "pos_inv ?b" by (rule pos_inv_node [OF tb fit])
  have k63: "k < 63" using l k by simp
  have inner: "\<not> is_leaf (Position (node l p))" and inv: "pos_inv (Position (node l p))"
    using assms(1,2) by (simp_all add: v n)
  have nav: "left_child x = Ret ?a" "right_child x = Ret ?b"
    using child_node [OF l0 l inv] inner by (simp_all add: v n k left_child_def right_child_def)
  have up: "parent ?a = Ret x" "parent ?b = Ret x"
    using parent_node [OF k63 ia] parent_node [OF k63 ib] by (simp_all add: v n k)
  have sib: "sibling ?a = Ret ?b" "sibling ?b = Ret ?a"
    using sibling_node [OF k63 ia] sibling_node [OF k63 ib] by simp_all
  have side: "is_left_child ?a = Ret True" "is_right_child ?b = Ret True"
    using is_left_child_node [OF k63 ia] is_left_child_node [OF k63 ib] by (simp_all add: is_right_child_def)
  have lev: "Suc (pos_level ?a) = pos_level x" "Suc (pos_level ?b) = pos_level x"
    using l k by (simp_all add: v n level_node)
  define y where "y = (2::nat) ^ k"
  then have y: "1 \<le> y" by simp
  note ends = leftmost_node [OF ta] leftmost_node [OF tb] leftmost_node [OF t]
    rightmost_node [OF ta] rightmost_node [OF tb] rightmost_node [OF t]
  define z where "z = p * (4 * y)"
  have z: "2 * p * 2 ^ Suc k = z" "(2 * p + 1) * 2 ^ Suc k = z + 2 * y" "p * 2 ^ Suc l = z"
    "2 ^ Suc k = 2 * y" "2 ^ Suc l = 4 * y" "2 ^ l = 2 * y"
    by (simp_all add: z_def y_def k algebra_simps)
  note ends' = ends [unfolded z(1-3), unfolded z(4-)] unat_node [OF t, unfolded z(3), unfolded z(6)]
  have lo: "left_most_child ?a = left_most_child x" unfolding v n ends' ..
  have hi: "right_most_child ?b = right_most_child x"
    unfolding v n ends' by (simp only: add.assoc mult_2 [symmetric] mult.assoc [symmetric]) simp
  have small: "z + 4 * y \<le> 2 ^ 64" using in_tree_bound [OF t, unfolded z(3), unfolded z(5)] .
  have "unat (word_of_nat (z + 2 * y - 2) :: u64) = z + 2 * y - 2" "unat (word_of_nat (z + 2 * y) :: u64) = z + 2 * y"
    using small y by (simp_all only: unat_of_nat) (simp_all add: take_bit_nat_eq_self)
  then have "pos_word (Position (word_of_nat (z + 2 * y - 2))) < pos_word x"
    "pos_word x < pos_word (Position (word_of_nat (z + 2 * y)))"
    unfolding v n pos_word.simps word_less_nat_alt ends' using y by linarith+
  then have mid: "\<exists>r l. right_most_child ?a = Ret r \<and> left_most_child ?b = Ret l \<and> pos_word r < pos_word x \<and> pos_word x < pos_word l"
    using ends'(2,4) by blast
  show ?thesis using nav up sib side lev lo hi mid by blast
qed

theorem position_is_tree_witness:
  "pos_inv (Position 5) \<and> \<not> is_leaf (Position 5) \<and> Position 5 \<noteq> Position (- 3)
   \<and> (\<exists>a b. left_child (Position 5) = Ret a \<and> right_child (Position 5) = Ret b
    \<and> parent a = Ret (Position 5) \<and> sibling a = Ret b \<and> is_left_child a = Ret True
    \<and> left_most_child a = left_most_child (Position 5))"
proof -
  have h: "pos_inv (Position 5)" "\<not> is_leaf (Position 5)" "Position 5 \<noteq> Position (- 3)"
    by code_simp+
  show ?thesis using position_is_tree [OF h] h by auto
qed

end
