(* ===== verification/Accumulator.thy ===== *)
theory Accumulator
  imports Position
begin

text \<open>
  The in-memory Merkle accumulator (\<^verbatim>\<open>types/src/proof/accumulator/mod.rs\<close>). Hash values are opaque: the hash of an
  inner node, \<open>nh\<close>, and the placeholder hash, \<open>ph\<close>, are arguments. The lemmas relate every operation to the list of
  all leaves: the accumulator of a list stores the roots of its maximal full subtrees, and its root hash is that of
  the padded binary tree over the list.
\<close>

section \<open>The accumulator\<close>

record 'h accumulator =
  frozen_subtree_roots :: "'h list"
  num_leaves :: u64
  root_hash :: 'h

text \<open>Popping the last element of a vector.\<close>

definition pop :: "'a list \<Rightarrow> ('a \<times> 'a list) option" where
  "pop xs = (if xs = [] then None else Some (last xs, butlast xs))"

function root_loop :: "('h \<Rightarrow> 'h \<Rightarrow> 'h) \<Rightarrow> 'h \<Rightarrow> u64 \<Rightarrow> 'h \<Rightarrow> 'h list \<Rightarrow> 'h outcome" where
  "root_loop nh ph bits current_hash frozen_subtree_iter =
     (if bits > 0
      then if bits AND 1 \<noteq> 0
           then case frozen_subtree_iter of
                  [] \<Rightarrow> Panic
                | r # rs \<Rightarrow> root_loop nh ph (drop_bit 1 bits) (nh r current_hash) rs
           else root_loop nh ph (drop_bit 1 bits) (nh current_hash ph) frozen_subtree_iter
      else Ret current_hash)"
  by pat_completeness auto
termination
  by (relation "measure (\<lambda>(nh, ph, b, c, it). unat b)")
    (auto simp: drop_bit_Suc unat_div_distrib word_less_nat_alt)

declare root_loop.simps [simp del]

definition compute_root_hash :: "('h \<Rightarrow> 'h \<Rightarrow> 'h) \<Rightarrow> 'h \<Rightarrow> 'h list \<Rightarrow> u64 \<Rightarrow> 'h outcome" where
  "compute_root_hash nh ph roots n =
     (case roots of
        [] \<Rightarrow> Ret ph
      | [r] \<Rightarrow> Ret r
      | _ \<Rightarrow> root_loop nh ph (drop_bit (trailing_zeros n) n) ph (rev roots))"

definition acc_new :: "('h \<Rightarrow> 'h \<Rightarrow> 'h) \<Rightarrow> 'h \<Rightarrow> 'h list \<Rightarrow> u64 \<Rightarrow> (string + 'h accumulator) outcome" where
  "acc_new nh ph roots n =
     (if length roots = count_ones n
      then out_bind (compute_root_hash nh ph roots n) (\<lambda>root.
             Ret (Inr \<lparr>frozen_subtree_roots = roots, num_leaves = n, root_hash = root\<rparr>))
      else Ret (Inl ''The number of frozen subtrees does not match the number of leaves.''))"

definition acc_new_empty :: "'h \<Rightarrow> 'h accumulator" where
  "acc_new_empty ph = \<lparr>frozen_subtree_roots = [], num_leaves = 0, root_hash = ph\<rparr>"

fun merge_last :: "('h \<Rightarrow> 'h \<Rightarrow> 'h) \<Rightarrow> nat \<Rightarrow> 'h list \<Rightarrow> 'h list outcome" where
  "merge_last nh 0 roots = Ret roots"
| "merge_last nh (Suc i) roots =
     out_bind (expect (pop roots)) (\<lambda>(right_hash, roots).
     out_bind (expect (pop roots)) (\<lambda>(left_hash, roots).
       merge_last nh i (roots @ [nh left_hash right_hash])))"

definition append_one :: "('h \<Rightarrow> 'h \<Rightarrow> 'h) \<Rightarrow> 'h list \<Rightarrow> u64 \<Rightarrow> 'h \<Rightarrow> 'h list outcome" where
  "append_one nh roots num_existing_leaves leaf =
     merge_last nh (trailing_zeros (NOT num_existing_leaves)) (roots @ [leaf])"

fun append_all :: "('h \<Rightarrow> 'h \<Rightarrow> 'h) \<Rightarrow> 'h list \<Rightarrow> u64 \<Rightarrow> 'h list \<Rightarrow> ('h list \<times> u64) outcome" where
  "append_all nh roots n [] = Ret (roots, n)"
| "append_all nh roots n (leaf # leaves) =
     out_bind (append_one nh roots n leaf) (\<lambda>roots.
     out_bind (word_add n 1) (\<lambda>n. append_all nh roots n leaves))"

definition append :: "('h \<Rightarrow> 'h \<Rightarrow> 'h) \<Rightarrow> 'h \<Rightarrow> 'h accumulator \<Rightarrow> 'h list \<Rightarrow> 'h accumulator outcome" where
  "append nh ph acc leaves =
     out_bind (append_all nh (frozen_subtree_roots acc) (num_leaves acc) leaves) (\<lambda>(roots, n).
     out_bind (acc_new nh ph roots n) expect_ok)"

definition acc_default :: "('h \<Rightarrow> 'h \<Rightarrow> 'h) \<Rightarrow> 'h \<Rightarrow> 'h accumulator outcome" where
  "acc_default nh ph = out_bind (acc_new nh ph [] 0) expect_ok"

definition from_leaves :: "('h \<Rightarrow> 'h \<Rightarrow> 'h) \<Rightarrow> 'h \<Rightarrow> 'h list \<Rightarrow> 'h accumulator outcome" where
  "from_leaves nh ph leaves = out_bind (acc_default nh ph) (\<lambda>acc. append nh ph acc leaves)"

text \<open>
  The inner loop of \<open>append_subtrees\<close>: as long as the number of leaves has the bit of the mask, the last root is
  combined. It ends because a mask that has been shifted out of the word is zero.
\<close>

function carry_loop :: "('h \<Rightarrow> 'h \<Rightarrow> 'h) \<Rightarrow> u64 \<Rightarrow> u64 \<Rightarrow> 'h \<Rightarrow> 'h list \<Rightarrow> (u64 \<times> 'h \<times> 'h list) outcome" where
  "carry_loop nh n size_bit current_hash roots =
     (if n AND size_bit \<noteq> 0
      then case pop roots of
             None \<Rightarrow> Panic
           | Some (left_hash, roots) \<Rightarrow> carry_loop nh n (push_bit 1 size_bit) (nh left_hash current_hash) roots
      else Ret (size_bit, current_hash, roots))"
  by pat_completeness auto
termination
proof (relation "measure (\<lambda>(nh, n, size_bit, c, roots). 64 - trailing_zeros size_bit)")
  fix nh :: "'h \<Rightarrow> 'h \<Rightarrow> 'h" and n size_bit :: u64 and c :: 'h and roots x and l and rs
  assume "n AND size_bit \<noteq> 0"
  then have "size_bit \<noteq> 0" by auto
  from trailing_zeros_bits(1) [OF this] trailing_zeros_shift [OF this]
  show "((nh, n, push_bit 1 size_bit, nh l c, rs), nh, n, size_bit, c, roots)
    \<in> measure (\<lambda>(nh, n, size_bit, c, roots). 64 - trailing_zeros size_bit)" by simp
qed simp

declare carry_loop.simps [simp del]

text \<open>The outer loop: each round takes one of the given subtrees.\<close>

fun combine_loop :: "('h \<Rightarrow> 'h \<Rightarrow> 'h) \<Rightarrow> 'h list \<Rightarrow> 'h list \<Rightarrow> u64 \<Rightarrow> u64 \<Rightarrow> u64
    \<Rightarrow> (string + 'h list \<times> 'h list \<times> u64 \<times> u64) outcome" where
  "combine_loop nh [] roots n remaining rightmost =
     (if remaining \<ge> rightmost then Ret (Inl ''Too few subtrees.'') else Ret (Inr ([], roots, n, remaining)))"
| "combine_loop nh (h # hs) roots n remaining rightmost =
     (if remaining \<ge> rightmost
      then out_bind (carry_loop nh n rightmost h roots) (\<lambda>(size_bit, current_hash, roots).
           out_bind (word_add n rightmost) (\<lambda>n.
             combine_loop nh hs (roots @ [current_hash]) n (remaining - rightmost) size_bit))
      else Ret (Inr (h # hs, roots, n, remaining)))"

definition append_subtrees :: "('h \<Rightarrow> 'h \<Rightarrow> 'h) \<Rightarrow> 'h \<Rightarrow> 'h accumulator \<Rightarrow> 'h list \<Rightarrow> u64
    \<Rightarrow> (string + 'h accumulator) outcome" where
  "append_subtrees nh ph acc subtrees num_new_leaves =
     out_bind (word_sub MAX_ACCUMULATOR_LEAVES (num_leaves acc)) (\<lambda>room.
      if num_new_leaves \<le> room
      then if num_leaves acc = 0 then acc_new nh ph subtrees num_new_leaves
           else out_try (combine_loop nh subtrees (frozen_subtree_roots acc) (num_leaves acc) num_new_leaves
                           (push_bit (trailing_zeros (num_leaves acc)) 1))
                  (\<lambda>(rest, roots, n, remaining).
                    out_bind (word_add n remaining) (\<lambda>n. acc_new nh ph (roots @ rest) n))
      else Ret (Inl ''Too many new leaves.''))"

definition acc_version :: "'h accumulator \<Rightarrow> u64" where
  "acc_version acc = (if num_leaves acc = 0 then 0 else num_leaves acc - 1)"

definition acc_is_empty :: "'h accumulator \<Rightarrow> bool" where
  "acc_is_empty acc \<longleftrightarrow> num_leaves acc = 0"

section \<open>The tree over a list of leaves\<close>

text \<open>
  The root of the tree of depth \<open>k\<close> over at most \<open>2\<^sup>k\<close> leaves; a subtree without leaves is the placeholder. The
  tree over \<open>n\<close> leaves has the least depth with room for them.
\<close>

fun mroot :: "('h \<Rightarrow> 'h \<Rightarrow> 'h) \<Rightarrow> 'h \<Rightarrow> nat \<Rightarrow> 'h list \<Rightarrow> 'h" where
  "mroot nh ph 0 xs = (case xs of [] \<Rightarrow> ph | x # _ \<Rightarrow> x)"
| "mroot nh ph (Suc k) xs =
     (if xs = [] then ph else nh (mroot nh ph k (take (2 ^ k) xs)) (mroot nh ph k (drop (2 ^ k) xs)))"

fun bit_length :: "nat \<Rightarrow> nat" where
  "bit_length n = (if n = 0 then 0 else Suc (bit_length (n div 2)))"

declare bit_length.simps [simp del]

definition tree_depth :: "nat \<Rightarrow> nat" where
  "tree_depth n = bit_length (n - 1)"

text \<open>
  The block of leaves below the node of index \<open>p\<close> at level \<open>k\<close>, and the roots of the maximal full subtrees over the
  first \<open>n\<close> blocks of level \<open>k\<close>, from right to left: an odd block is a subtree of its own, the others are taken in
  pairs.
\<close>

definition block :: "nat \<Rightarrow> nat \<Rightarrow> 'h list \<Rightarrow> 'h list" where
  "block k p xs = take (2 ^ k) (drop (p * 2 ^ k) xs)"

fun frozen :: "('h \<Rightarrow> 'h \<Rightarrow> 'h) \<Rightarrow> 'h \<Rightarrow> nat \<Rightarrow> nat \<Rightarrow> 'h list \<Rightarrow> 'h list" where
  "frozen nh ph k n xs =
     (if n = 0 then []
      else if odd n then mroot nh ph k (block k (n - 1) xs) # frozen nh ph (Suc k) (n div 2) xs
      else frozen nh ph (Suc k) (n div 2) xs)"

declare frozen.simps [simp del]

definition acc_of :: "('h \<Rightarrow> 'h \<Rightarrow> 'h) \<Rightarrow> 'h \<Rightarrow> 'h list \<Rightarrow> 'h accumulator" where
  "acc_of nh ph xs =
     \<lparr>frozen_subtree_roots = rev (frozen nh ph 0 (length xs) xs),
      num_leaves = word_of_nat (length xs),
      root_hash = mroot nh ph (tree_depth (length xs)) xs\<rparr>"

lemma pop_simps [simp]:
  "pop [] = None" "pop (xs @ [x]) = Some (x, xs)" "pop (xs @ [x, y]) = Some (y, xs @ [x])"
  by (simp_all add: pop_def butlast_append)

lemma mroot_Nil [simp]: "mroot nh ph k [] = ph"
  by (cases k) simp_all

lemma mroot_join: "length xs = 2 ^ k \<Longrightarrow> nh (mroot nh ph k xs) (mroot nh ph k ys) = mroot nh ph (Suc k) (xs @ ys)"
  by auto

lemma mroot_pad: "xs \<noteq> [] \<Longrightarrow> length xs \<le> 2 ^ k \<Longrightarrow> nh (mroot nh ph k xs) ph = mroot nh ph (Suc k) xs"
  by simp

lemma frozen_0 [simp]: "frozen nh ph k 0 xs = []"
  by (simp add: frozen.simps)

lemma frozen_even: "even n \<Longrightarrow> frozen nh ph k n xs = frozen nh ph (Suc k) (n div 2) xs"
  by (subst frozen.simps) simp

lemma frozen_odd_block: "odd n \<Longrightarrow> frozen nh ph k n xs = mroot nh ph k (block k (n - 1) xs) # frozen nh ph (Suc k) (n div 2) xs"
  by (subst frozen.simps) (auto intro: odd_pos)

lemma block_append: "Suc p * 2 ^ k \<le> length xs \<Longrightarrow> block k p (xs @ ys) = block k p xs"
  by (simp add: block_def)

lemma frozen_append: "n * 2 ^ k \<le> length xs \<Longrightarrow> frozen nh ph k n (xs @ ys) = frozen nh ph k n xs"
proof (induction n arbitrary: k rule: less_induct)
  case (less n)
  have half: "n div 2 * 2 ^ Suc k \<le> length xs"
  proof -
    have "n div 2 * 2 ^ Suc k = (n div 2 * 2) * 2 ^ k" by simp
    also have "\<dots> \<le> n * 2 ^ k" by (rule mult_le_mono1) simp
    also have "\<dots> \<le> length xs" by (rule less.prems)
    finally show ?thesis .
  qed
  consider "n = 0" | "odd n" | "even n" "n div 2 < n" by (cases "n = 0") auto
  then show ?case
  proof cases
    case 2
    then obtain j where j: "n = Suc j" by (cases n) auto
    have "n div 2 < n" using j by simp
    from less.IH [OF this half] show ?thesis using 2 less.prems by (simp add: frozen_odd_block block_append j)
  next
    case 3
    then show ?thesis using less.IH [OF _ half] by (simp add: frozen_even)
  qed simp
qed

lemma frozen_odd:
  assumes "odd n" and "length ys = 2 ^ k" and "length xs = (n - 1) * 2 ^ k"
  shows "frozen nh ph k n (xs @ ys) = mroot nh ph k ys # frozen nh ph (Suc k) (n div 2) xs"
proof -
  obtain m where "n = Suc (2 * m)" using assms(1) by (auto elim: oddE)
  then show ?thesis using assms by (simp add: frozen_odd_block frozen_append) (simp add: block_def)
qed

lemma odd_blocks:
  assumes "odd n" and "length xs = n * 2 ^ k"
  obtains us vs where "xs = us @ vs" and "length vs = 2 ^ k" and "length us = (n - 1) * 2 ^ k"
    and "length us = (n div 2) * 2 ^ Suc k"
proof -
  obtain m where n: "n = Suc (2 * m)" using assms(1) by (auto elim: oddE)
  show ?thesis
    by (rule that [of "take (2 * m * 2 ^ k) xs" "drop (2 * m * 2 ^ k) xs"]) (simp_all add: assms(2) n)
qed

text \<open>Appending a full subtree carries through the subtrees of the trailing ones.\<close>

lemma merge_last_frozen:
  "\<lbrakk>length xs = n * 2 ^ k; length ys = 2 ^ k; \<forall>j<t. bit n j; \<not> bit n t\<rbrakk>
   \<Longrightarrow> merge_last nh t (rev (frozen nh ph k n xs) @ [mroot nh ph k ys]) = Ret (rev (frozen nh ph k (Suc n) (xs @ ys)))"
proof (induction t arbitrary: n k xs ys)
  case 0
  then have e: "even n" by (simp add: bit_0)
  with 0 have "frozen nh ph k (Suc n) (xs @ ys) = mroot nh ph k ys # frozen nh ph (Suc k) (Suc n div 2) xs"
    by (intro frozen_odd) simp_all
  then show ?case using e frozen_even [OF e, of nh ph k xs] by simp
next
  case (Suc t)
  have o: "odd n" using Suc.prems(3) by (auto simp: bit_0)
  obtain us vs where x: "xs = us @ vs" and v: "length vs = 2 ^ k" and u: "length us = (n - 1) * 2 ^ k"
    and u': "length us = n div 2 * 2 ^ Suc k" using odd_blocks [OF o Suc.prems(1)] .
  have b: "\<forall>j<t. bit (n div 2) j" "\<not> bit (n div 2) t" using Suc.prems(3,4) by (auto simp: bit_Suc)
  have s: "length (vs @ ys) = 2 ^ Suc k" using v Suc.prems(2) by simp
  have "merge_last nh t (rev (frozen nh ph (Suc k) (n div 2) us) @ [mroot nh ph (Suc k) (vs @ ys)])
    = Ret (rev (frozen nh ph (Suc k) (Suc (n div 2)) (us @ vs @ ys)))" by (rule Suc.IH [OF u' s b])
  moreover have "frozen nh ph k (Suc n) (us @ vs @ ys) = frozen nh ph (Suc k) (Suc (n div 2)) (us @ vs @ ys)"
    using o frozen_even [of "Suc n" nh ph k "us @ vs @ ys"] by simp
  ultimately show ?case
    by (simp add: x frozen_odd [OF o v u] expect_def mroot_join [OF v, of nh ph ys] del: mroot.simps)
qed

text \<open>The root of the whole tree from the roots of the full subtrees.\<close>

lemma word_and_1: "(v::u64) AND 1 \<noteq> 0 \<longleftrightarrow> bit v 0"
  by (simp add: and_one_eq bit_0 odd_iff_mod_2_eq_one)

lemma word_of_nat_halves:
  assumes "n < 2 ^ 64"
  shows "(word_of_nat n :: u64) AND 1 \<noteq> 0 \<longleftrightarrow> odd n" and "drop_bit 1 (word_of_nat n :: u64) = word_of_nat (n div 2)"
    and "(word_of_nat n :: u64) > 0 \<longleftrightarrow> n \<noteq> 0"
proof -
  show "(word_of_nat n :: u64) AND 1 \<noteq> 0 \<longleftrightarrow> odd n" unfolding word_and_1 by (simp add: bit_of_nat_iff bit_0)
  have "unat (drop_bit 1 (word_of_nat n :: u64)) = n div 2"
    unfolding unat_drop_bit_eq using assms by (simp add: unsigned_of_nat take_bit_nat_eq_self drop_bit_eq_div)
  then show "drop_bit 1 (word_of_nat n :: u64) = word_of_nat (n div 2)" by (rule word_of_unat)
  show "(word_of_nat n :: u64) > 0 \<longleftrightarrow> n \<noteq> 0"
    using assms by (auto simp: word_less_nat_alt unsigned_of_nat take_bit_nat_eq_self)
qed

lemma root_loop_frozen:
  "\<lbrakk>length xs = n * 2 ^ k; length ys \<le> 2 ^ k; ys \<noteq> [] \<or> odd n; n < 2 ^ 64\<rbrakk>
   \<Longrightarrow> root_loop nh ph (word_of_nat n) (mroot nh ph k ys) (frozen nh ph k n xs)
       = Ret (mroot nh ph (k + bit_length n) (xs @ ys))"
proof (induction n arbitrary: k xs ys rule: less_induct)
  case (less n)
  note halves = word_of_nat_halves [OF less.prems(4)]
  consider "n = 0" | "odd n" | "n \<noteq> 0" "even n" by blast
  then show ?case
  proof cases
    case 1
    then show ?thesis using less.prems(1) by (simp add: root_loop.simps bit_length.simps)
  next
    case 2
    have n: "n div 2 < n" "n div 2 < 2 ^ 64" "n \<noteq> 0" using 2 less.prems(4) by (cases n; simp)+
    obtain us vs where x: "xs = us @ vs" and v: "length vs = 2 ^ k" and u: "length us = (n - 1) * 2 ^ k"
      and u': "length us = n div 2 * 2 ^ Suc k" using odd_blocks [OF 2 less.prems(1)] .
    have "length (vs @ ys) \<le> 2 ^ Suc k" using v less.prems(2) by simp
    moreover have "vs @ ys \<noteq> [] \<or> odd (n div 2)" using v by auto
    ultimately have "root_loop nh ph (word_of_nat (n div 2)) (mroot nh ph (Suc k) (vs @ ys)) (frozen nh ph (Suc k) (n div 2) us)
      = Ret (mroot nh ph (Suc k + bit_length (n div 2)) (us @ vs @ ys))" by (intro less.IH [OF n(1) u' _ _ n(2)])
    then show ?thesis using 2 n(3) halves
      by (subst root_loop.simps)
        (simp add: x frozen_odd [OF 2 v u] mroot_join [OF v, of nh ph ys] bit_length.simps [of n] del: mroot.simps)
  next
    case 3
    have n: "n div 2 < n" "n div 2 < 2 ^ 64" using 3 less.prems(4) by simp_all
    have y: "ys \<noteq> []" using less.prems(3) 3 by simp
    have "length xs = n div 2 * 2 ^ Suc k" "length ys \<le> 2 ^ Suc k" using less.prems(1,2) 3 by (auto elim!: evenE)
    then have "root_loop nh ph (word_of_nat (n div 2)) (mroot nh ph (Suc k) ys) (frozen nh ph (Suc k) (n div 2) xs)
      = Ret (mroot nh ph (Suc k + bit_length (n div 2)) (xs @ ys))" using y by (intro less.IH [OF n(1) _ _ _ n(2)]) auto
    then show ?thesis using 3 halves
      by (subst root_loop.simps)
        (simp add: frozen_even [OF 3(2), of nh ph k xs] mroot_pad [OF y less.prems(2), of nh ph] bit_length.simps [of n] del: mroot.simps)
  qed
qed

text \<open>A number is an odd multiple of the power of two of its trailing zeros.\<close>

lemma trailing_zeros_nat:
  assumes "n \<noteq> 0" and "n < 2 ^ 64"
  obtains m z where "n = m * 2 ^ z" and "odd m" and "trailing_zeros (word_of_nat n) = z" and "z < 64"
    and "drop_bit z (word_of_nat n :: u64) = word_of_nat m"
proof -
  define z where "z = trailing_zeros (word_of_nat n)"
  have nz: "(word_of_nat n :: u64) \<noteq> 0" using word_of_nat_halves(3) [OF assms(2)] assms(1) by auto
  note t = trailing_zeros_bits [OF nz, folded z_def]
  have bits: "\<not> bit n j" if "j < z" for j using t(1) t(3) [OF that] that by (simp add: bit_of_nat_iff)
  have "take_bit z n = 0" by (rule bit_eqI) (simp add: bit_take_bit_iff bits)
  then have n: "n = (n div 2 ^ z) * 2 ^ z" by (metis add.right_neutral div_mult_mod_eq take_bit_eq_mod)
  have "bit n z" using t(2) by (simp add: bit_of_nat_iff)
  then have "odd (n div 2 ^ z)" by (simp add: bit_iff_odd)
  moreover have "unat (drop_bit z (word_of_nat n :: u64)) = n div 2 ^ z"
    unfolding unat_drop_bit_eq using assms(2) by (simp add: unsigned_of_nat take_bit_nat_eq_self drop_bit_eq_div)
  then have "drop_bit z (word_of_nat n :: u64) = word_of_nat (n div 2 ^ z)" by (rule word_of_unat)
  ultimately show ?thesis using that [OF n] t(1) z_def by blast
qed

lemma frozen_shift: "frozen nh ph k (m * 2 ^ z) xs = frozen nh ph (k + z) m xs"
proof (induction z arbitrary: k)
  case (Suc z)
  have "frozen nh ph k (m * 2 ^ Suc z) xs = frozen nh ph (Suc k) (m * 2 ^ z) xs"
    using frozen_even [of "m * 2 ^ Suc z" nh ph k xs] by (simp add: mult.assoc [symmetric])
  with Suc show ?case by simp
qed simp

lemma tree_depth_shift: "0 < m \<Longrightarrow> tree_depth (m * 2 ^ z) = z + tree_depth m"
proof (induction z)
  case (Suc z)
  have "0 < m * 2 ^ z" using Suc.prems by simp
  then obtain j where j: "m * 2 ^ z = Suc j" using gr0_implies_Suc by blast
  have "bit_length (Suc (2 * j)) = Suc (bit_length j)" by (subst bit_length.simps) simp
  then have "tree_depth (m * 2 ^ Suc z) = Suc (tree_depth (m * 2 ^ z))"
    using j by (simp add: tree_depth_def mult.left_commute [of m])
  with Suc show ?case by simp
qed simp

lemma tree_depth_odd:
  assumes "odd m" and "m \<noteq> 1"
  shows "tree_depth m = bit_length m"
proof -
  obtain j where j: "m = Suc (2 * j)" and "j \<noteq> 0" using assms by (cases "m div 2") (auto elim!: oddE)
  then have "bit_length (2 * j) = Suc (bit_length j)" "bit_length m = Suc (bit_length j)"
    by (subst bit_length.simps; simp)+
  then show ?thesis by (simp add: tree_depth_def j)
qed

lemma frozen_not_Nil: "n \<noteq> 0 \<Longrightarrow> frozen nh ph k n xs \<noteq> []"
proof (induction n arbitrary: k xs rule: less_induct)
  case (less n)
  show ?case
  proof (cases "odd n")
    case False
    with less show ?thesis by (subst frozen.simps) (auto elim!: evenE)
  qed (use less.prems in \<open>subst frozen.simps, simp\<close>)
qed

lemma compute_root_frozen:
  assumes "length xs < 2 ^ 64"
  shows "compute_root_hash nh ph (rev (frozen nh ph 0 (length xs) xs)) (word_of_nat (length xs))
    = Ret (mroot nh ph (tree_depth (length xs)) xs)"
proof (cases "xs = []")
  case False
  then have "length xs \<noteq> 0" by simp
  from trailing_zeros_nat [OF this assms] obtain m z where l: "length xs = m * 2 ^ z" and o: "odd m"
    and t: "trailing_zeros (word_of_nat (length xs)) = z" "z < 64" "drop_bit z (word_of_nat (length xs) :: u64) = word_of_nat m" .
  have f: "frozen nh ph 0 (length xs) xs = frozen nh ph z m xs" using frozen_shift [of nh ph 0 m z xs] l by simp
  obtain us vs where x: "xs = us @ vs" and v: "length vs = 2 ^ z" and u: "length us = (m - 1) * 2 ^ z"
    using odd_blocks [OF o l] .
  have fm: "frozen nh ph z m xs = mroot nh ph z vs # frozen nh ph (Suc z) (m div 2) us"
    unfolding x by (rule frozen_odd [OF o v u])
  show ?thesis
  proof (cases "m = 1")
    case True
    then show ?thesis using tree_depth_shift [of 1 z] l fm f x u
      by (simp add: compute_root_hash_def tree_depth_def bit_length.simps [of 0])
  next
    case False
    have "m * 1 \<le> m * 2 ^ z" by (rule mult_le_mono2) simp
    then have m: "m < 2 ^ 64" using l assms by linarith
    have d: "tree_depth (length xs) = z + bit_length m"
      using tree_depth_shift [of m z] tree_depth_odd [OF o False] l o by (simp add: odd_pos)
    have "m div 2 \<noteq> 0" using o False by (auto elim!: oddE)
    from frozen_not_Nil [OF this, of nh ph "Suc z" us] obtain a as where a: "frozen nh ph (Suc z) (m div 2) us = as @ [a]"
      by (metis rev_exhaust)
    have "root_loop nh ph (word_of_nat m) (mroot nh ph z []) (frozen nh ph z m xs) = Ret (mroot nh ph (z + bit_length m) (xs @ []))"
      by (rule root_loop_frozen [OF l _ _ m]) (simp_all add: o)
    then show ?thesis using t f d fm a by (cases "rev as") (simp_all add: compute_root_hash_def)
  qed
qed (simp add: compute_root_hash_def)

text \<open>The number of full subtrees is the number of bits set.\<close>

fun popcount :: "nat \<Rightarrow> nat" where
  "popcount n = (if n = 0 then 0 else n mod 2 + popcount (n div 2))"

declare popcount.simps [simp del]

lemma popcount_halves: "even n \<Longrightarrow> popcount n = popcount (n div 2)" "odd n \<Longrightarrow> popcount n = Suc (popcount (n div 2))"
  by (subst popcount.simps, auto simp: popcount.simps [of 0] elim: oddE)+

lemma ones_low: "ones (Suc j) n = (if odd n then 1 else 0) + ones j (n div 2)"
  by (induction j) (simp_all add: bit_0 bit_Suc)

lemma popcount_ones: "n < 2 ^ j \<Longrightarrow> ones j n = popcount n"
proof (induction j arbitrary: n)
  case (Suc j)
  then have "ones j (n div 2) = popcount (n div 2)" by auto
  then show ?case by (cases "odd n") (simp_all add: ones_low popcount_halves del: ones.simps)
qed (simp add: popcount.simps)

lemma length_frozen: "length (frozen nh ph k n xs) = popcount n"
proof (induction n arbitrary: k rule: less_induct)
  case (less n)
  consider "n = 0" | "odd n" "n div 2 < n" | "even n" "n div 2 < n" by (cases "n = 0") auto
  then show ?case
    by cases (simp_all add: popcount.simps [of 0] frozen_even frozen_odd_block popcount_halves less.IH)
qed

lemma count_ones_nat: "n < 2 ^ 64 \<Longrightarrow> count_ones (word_of_nat n) = popcount n"
  unfolding count_ones_def using ones_count [of 64 "word_of_nat n"] popcount_ones [of n 64]
  by (simp add: unsigned_of_nat take_bit_nat_eq_self)

lemma acc_new_frozen:
  assumes "length xs < 2 ^ 64"
  shows "acc_new nh ph (rev (frozen nh ph 0 (length xs) xs)) (word_of_nat (length xs)) = Ret (Inr (acc_of nh ph xs))"
  by (simp add: acc_new_def compute_root_frozen [OF assms] count_ones_nat [OF assms] length_frozen acc_of_def)

lemma append_one_frozen:
  assumes "length xs < 2 ^ 64 - 1"
  shows "append_one nh (rev (frozen nh ph 0 (length xs) xs)) (word_of_nat (length xs)) x
    = Ret (rev (frozen nh ph 0 (Suc (length xs)) (xs @ [x])))"
proof -
  let ?w = "word_of_nat (length xs) :: u64"
  have "unat ?w = length xs" using assms by (simp add: unsigned_of_nat take_bit_nat_eq_self)
  then have "?w \<noteq> - 1" using assms by (auto simp: unsigned_minus_1_eq_mask mask_eq_exp_minus_1)
  then have "NOT ?w \<noteq> 0" by (metis bit.compl_zero bit.double_compl)
  note t = trailing_zeros_bits [OF this]
  have "\<forall>j<trailing_zeros (NOT ?w). bit (length xs) j"
  proof (intro allI impI)
    fix j assume j: "j < trailing_zeros (NOT ?w)"
    then have "j < 64" using t(1) by simp
    with t(3) [OF j] show "bit (length xs) j" by (simp add: bit_not_iff bit_of_nat_iff)
  qed
  moreover have "\<not> bit (length xs) (trailing_zeros (NOT ?w))" using t(1,2) by (simp add: bit_not_iff bit_of_nat_iff)
  ultimately show ?thesis
    unfolding append_one_def using merge_last_frozen [of xs "length xs" 0 "[x]" "trailing_zeros (NOT ?w)" nh ph] by simp
qed

lemma append_all_frozen:
  "length xs + length ys < 2 ^ 64 \<Longrightarrow>
   append_all nh (rev (frozen nh ph 0 (length xs) xs)) (word_of_nat (length xs)) ys
     = Ret (rev (frozen nh ph 0 (length (xs @ ys)) (xs @ ys)), word_of_nat (length (xs @ ys)))"
proof (induction ys arbitrary: xs)
  case (Cons y ys)
  have "append_one nh (rev (frozen nh ph 0 (length xs) xs)) (word_of_nat (length xs)) y
    = Ret (rev (frozen nh ph 0 (length (xs @ [y])) (xs @ [y])))"
    using append_one_frozen [of xs nh ph y] Cons.prems by simp
  moreover have "word_add (word_of_nat (length xs)) 1 = Ret (word_of_nat (length (xs @ [y])) :: u64)"
    using word_add_nat [of "length xs" 1] Cons.prems by (simp add: algebra_simps)
  ultimately show ?case using Cons.IH [of "xs @ [y]"] Cons.prems by (simp add: ac_simps)
qed simp

text \<open>
  C23. The accumulator implements the list of its leaves: appending leaves to the accumulator of a list gives, with no
  panic, the accumulator of the concatenated list, whose frozen subtree roots, leaf count and root hash are those of
  the padded Merkle tree over all the leaves. Starting from nothing, \<open>from_leaves\<close> gives the accumulator of its list.
\<close>
theorem append_is_list_append:
  assumes "length xs + length ys < 2 ^ 64"
  shows "append nh ph (acc_of nh ph xs) ys = Ret (acc_of nh ph (xs @ ys))
    \<and> from_leaves nh ph xs = Ret (acc_of nh ph xs)"
proof -
  have a: "append nh ph (acc_of nh ph us) vs = Ret (acc_of nh ph (us @ vs))" if "length us + length vs < 2 ^ 64" for us vs
    using append_all_frozen [OF that, of nh ph] acc_new_frozen [of "us @ vs" nh ph] that
    by (simp add: append_def acc_of_def expect_ok_def)
  have "acc_default nh ph = Ret (acc_of nh ph [])"
    using acc_new_frozen [of "[]" nh ph] by (simp add: acc_default_def expect_ok_def)
  with a [of "[]" xs] a [OF assms] assms show ?thesis by (simp add: from_leaves_def)
qed

definition text_hash :: "string \<Rightarrow> string \<Rightarrow> string" where
  "text_hash l r = ''('' @ l @ r @ '')''"

theorem append_is_list_append_witness:
  "length [''a'', ''b''] + length [''c''] < (2::nat) ^ 64
   \<and> append text_hash ''_'' (acc_of text_hash ''_'' [''a'', ''b'']) [''c''] = Ret (acc_of text_hash ''_'' [''a'', ''b'', ''c''])
   \<and> acc_of text_hash ''_'' [''a'', ''b'', ''c'']
       = \<lparr>frozen_subtree_roots = [''(ab)'', ''c''], num_leaves = 3, root_hash = ''((ab)(c_))''\<rparr>"
proof -
  have h: "length [''a'', ''b''] + length [''c''] < (2::nat) ^ 64" by simp
  have "acc_of text_hash ''_'' [''a'', ''b'', ''c'']
    = \<lparr>frozen_subtree_roots = [''(ab)'', ''c''], num_leaves = 3, root_hash = ''((ab)(c_))''\<rparr>"
    by (simp add: acc_of_def frozen.simps block_def tree_depth_def bit_length.simps text_hash_def)
  then show ?thesis using append_is_list_append [OF h, of text_hash "''_''"] h by simp
qed

end
