(* ===== verification/Consistency.thy ===== *)
theory Consistency
  imports Accumulator
begin

text \<open>
  Extending an accumulator by subtrees whose leaves are not known (\<open>append_subtrees\<close>): what a consistency proof
  shows. With the right subtrees the result is the accumulator of the longer list, and conversely a result with the
  root hash of a longer list can only be reached from an accumulator of its prefix, unless some inner node of the
  tree has a second preimage.
\<close>

section \<open>Nodes of the tree\<close>

text \<open>The inner nodes of the tree over \<open>xs\<close> have no second preimage under the node hash.\<close>

definition no_second_preimage :: "('h \<Rightarrow> 'h \<Rightarrow> 'h) \<Rightarrow> 'h \<Rightarrow> 'h list \<Rightarrow> bool" where
  "no_second_preimage nh ph xs \<longleftrightarrow>
     (\<forall>k p c d. k < tree_depth (length xs) \<longrightarrow> block (Suc k) p xs \<noteq> []
        \<longrightarrow> nh c d = nh (mroot nh ph k (block k (2 * p) xs)) (mroot nh ph k (block k (2 * p + 1) xs))
        \<longrightarrow> c = mroot nh ph k (block k (2 * p) xs) \<and> d = mroot nh ph k (block k (2 * p + 1) xs))"

lemma block_halves: "take (2 ^ k) (block (Suc k) p xs) = block k (2 * p) xs" "drop (2 ^ k) (block (Suc k) p xs) = block k (2 * p + 1) xs"
proof -
  have e: "p * 2 ^ Suc k = 2 * p * 2 ^ k" "(2 * p + 1) * 2 ^ k = 2 ^ k + 2 * p * 2 ^ k" by simp_all
  show "take (2 ^ k) (block (Suc k) p xs) = block k (2 * p) xs" unfolding block_def e(1) by (simp add: min_def)
  show "drop (2 ^ k) (block (Suc k) p xs) = block k (2 * p + 1) xs"
    unfolding block_def e drop_drop [symmetric] by (simp add: drop_take add.commute)
qed

lemma mroot_block:
  "block (Suc k) p xs \<noteq> [] \<Longrightarrow> mroot nh ph (Suc k) (block (Suc k) p xs)
     = nh (mroot nh ph k (block k (2 * p) xs)) (mroot nh ph k (block k (2 * p + 1) xs))"
  by (simp add: block_halves)

lemma block_not_Nil: "p * 2 ^ k < length xs \<Longrightarrow> block k p xs \<noteq> []"
  by (simp add: block_def)

text \<open>A node below the root of the tree over all leaves.\<close>

lemma tree_depth_less:
  assumes "2 ^ k < n"
  shows "k < tree_depth n"
proof -
  have "2 ^ k \<le> j \<Longrightarrow> k < bit_length j" for j
  proof (induction k arbitrary: j)
    case (Suc k)
    have "2 ^ k \<le> j div 2" using Suc.prems by simp
    from Suc.IH [OF this] show ?case by (subst bit_length.simps) (auto simp: bit_length.simps [of 0] intro: gr0I)
  qed (subst bit_length.simps, simp)
  from this [of "n - 1"] show ?thesis using assms by (simp add: tree_depth_def)
qed

section \<open>Carrying a new subtree\<close>

lemma carry_loop_frozen:
  assumes "c < 2 ^ 64"
  shows "\<lbrakk>length R = popcount m; m = c div 2 ^ k; Suc m * 2 ^ k \<le> 2 ^ 63; Suc m * 2 ^ k \<le> length Y\<rbrakk>
   \<Longrightarrow> \<exists>t h' R'. carry_loop nh (word_of_nat c) (push_bit k 1) h R = Ret (push_bit (k + t) 1, h', R')
        \<and> length R' + 1 = popcount (Suc m) \<and> 2 ^ t dvd Suc m \<and> odd (Suc m div 2 ^ t)
        \<and> (h = mroot nh ph k (block k m Y) \<and> R = rev (frozen nh ph k m Y) \<longrightarrow> R' @ [h'] = rev (frozen nh ph k (Suc m) Y))
        \<and> (no_second_preimage nh ph Y \<and> R' @ [h'] = rev (frozen nh ph k (Suc m) Y)
            \<longrightarrow> h = mroot nh ph k (block k m Y) \<and> R = rev (frozen nh ph k m Y))"
proof (induction m arbitrary: k h R rule: less_induct)
  case (less m)
  have k: "k < 64"
  proof (rule ccontr)
    assume "\<not> k < 64"
    then have "(2::nat) ^ 64 \<le> 2 ^ k" by (intro power_increasing) simp_all
    also have "\<dots> \<le> Suc m * 2 ^ k" by simp
    finally show False using less.prems(3) by simp
  qed
  have "word_of_nat c AND push_bit k 1 \<noteq> (0::u64) \<longleftrightarrow> bit (word_of_nat c :: u64) k"
  proof -
    have p: "bit (push_bit k 1 :: u64) j \<longleftrightarrow> j = k \<and> k < 64" for j
      unfolding bit_push_bit_iff by (auto simp: bit_1_iff)
    have z: "v \<noteq> 0 \<longleftrightarrow> (\<exists>j. bit v j)" for v :: u64
      using trailing_zeros_bits(2) [of v] by auto
    show ?thesis unfolding z bit_and_iff p using k by blast
  qed
  then have b: "word_of_nat c AND push_bit k 1 \<noteq> (0::u64) \<longleftrightarrow> odd m"
    unfolding less.prems(2) bit_iff_odd [of c, symmetric] using k by (simp add: bit_of_nat_iff)
  show ?case
  proof (cases "odd m")
    case False
    then have f: "frozen nh ph k (Suc m) Y = mroot nh ph k (block k m Y) # frozen nh ph k m Y"
      using frozen_odd_block [of "Suc m" nh ph k Y] frozen_even [of m nh ph k Y] by simp
    have p: "popcount (Suc m) = Suc (popcount m)" using False popcount_halves [of m] popcount_halves [of "Suc m"] by simp
    have "carry_loop nh (word_of_nat c) (push_bit k 1) h R = Ret (push_bit (k + 0) 1, h, R)"
      using b False by (subst carry_loop.simps) simp
    then show ?thesis using f p less.prems(1) False by (intro exI conjI) (assumption | auto)+
  next
    case True
    then have m: "m div 2 < m" "m \<noteq> 0" using odd_pos [OF True] by simp_all
    have "R \<noteq> []" using less.prems(1) True popcount_halves(2) [of m] by auto
    then obtain R1 l where R: "R = R1 @ [l]" by (metis rev_exhaust)
    have s: "Suc m div 2 = Suc (m div 2)" "Suc (m div 2) * 2 ^ Suc k = Suc m * 2 ^ k" using True by (auto elim!: oddE)
    have p: "length R1 = popcount (m div 2)" using less.prems(1) True R popcount_halves(2) [of m] by simp
    have d: "m div 2 = c div 2 ^ Suc k" unfolding less.prems(2) power_Suc2 div_mult2_eq ..
    have q: "popcount (Suc m) = popcount (Suc (m div 2))" using True popcount_halves(1) [of "Suc m"] s by simp
    have fm: "frozen nh ph k (Suc m) Y = frozen nh ph (Suc k) (Suc (m div 2)) Y"
      using frozen_even [of "Suc m" nh ph k Y] True s by simp
    have fo: "frozen nh ph k m Y = mroot nh ph k (block k (m - 1) Y) # frozen nh ph (Suc k) (m div 2) Y"
      by (rule frozen_odd_block [OF True])
    have i: "2 * (m div 2) + 1 = m" "2 * (m div 2) = m - 1" using True by (auto elim!: oddE)
    have big: "2 ^ k < length Y"
    proof -
      have "2 * 2 ^ k \<le> Suc m * 2 ^ k" using m(2) by (intro mult_le_mono1) simp
      also have "\<dots> \<le> length Y" by (rule less.prems(4))
      finally show ?thesis using zero_less_power [of "2::nat" k] by linarith
    qed
    have ne: "block (Suc k) (m div 2) Y \<noteq> []"
    proof (rule block_not_Nil)
      have "m div 2 * 2 ^ Suc k < Suc (m div 2) * 2 ^ Suc k" by simp
      then show "m div 2 * 2 ^ Suc k < length Y" using less.prems(4) unfolding s(2) by linarith
    qed
    note mb = mroot_block [OF ne, of nh ph, unfolded i(1), unfolded i(2)]
    obtain t h' R' where c: "carry_loop nh (word_of_nat c) (push_bit (Suc k) 1) (nh l h) R1 = Ret (push_bit (Suc k + t) 1, h', R')"
      and r: "length R' + 1 = popcount (Suc (m div 2))" "2 ^ t dvd Suc (m div 2)" "odd (Suc (m div 2) div 2 ^ t)"
      and fw: "nh l h = mroot nh ph (Suc k) (block (Suc k) (m div 2) Y) \<and> R1 = rev (frozen nh ph (Suc k) (m div 2) Y)
        \<longrightarrow> R' @ [h'] = rev (frozen nh ph (Suc k) (Suc (m div 2)) Y)"
      and bw: "no_second_preimage nh ph Y \<and> R' @ [h'] = rev (frozen nh ph (Suc k) (Suc (m div 2)) Y)
        \<longrightarrow> nh l h = mroot nh ph (Suc k) (block (Suc k) (m div 2) Y) \<and> R1 = rev (frozen nh ph (Suc k) (m div 2) Y)"
      using less.IH [OF m(1) p d, of "nh l h"] less.prems(3,4) unfolding s(2) by blast
    have step: "carry_loop nh (word_of_nat c) (push_bit k 1) h R = Ret (push_bit (k + Suc t) 1, h', R')"
    proof -
      have sh: "push_bit 1 (push_bit k 1) = (push_bit (Suc k) 1 :: u64)" unfolding push_bit_push_bit by simp
      have "carry_loop nh (word_of_nat c) (push_bit k 1) h R
        = carry_loop nh (word_of_nat c) (push_bit 1 (push_bit k 1)) (nh l h) R1"
        using b True by (subst carry_loop.simps) (simp add: R)
      then show ?thesis unfolding sh c by simp
    qed
    have t: "2 ^ Suc t dvd Suc m" "odd (Suc m div 2 ^ Suc t)"
    proof -
      have e: "Suc m = 2 * Suc (m div 2)" using True by (auto elim!: oddE)
      show "2 ^ Suc t dvd Suc m" unfolding e power_Suc by (rule mult_dvd_mono [OF dvd_refl r(2)])
      show "odd (Suc m div 2 ^ Suc t)" unfolding e power_Suc using r(3) by (simp only: div_mult_mult1 numeral_neq_zero not_False_eq_True)
    qed
    have inv: "l = mroot nh ph k (block k (m - 1) Y) \<and> h = mroot nh ph k (block k m Y)"
      if "no_second_preimage nh ph Y" "nh l h = mroot nh ph (Suc k) (block (Suc k) (m div 2) Y)"
      using that(1) [unfolded no_second_preimage_def, rule_format, of k "m div 2" l h, unfolded i(1), unfolded i(2)]
        tree_depth_less [OF big] ne that(2) [unfolded mb] by blast
    have fw': "R' @ [h'] = rev (frozen nh ph k (Suc m) Y)" if "h = mroot nh ph k (block k m Y) \<and> R = rev (frozen nh ph k m Y)"
      using that fw unfolding fm fo R mb by simp
    have bw': "h = mroot nh ph k (block k m Y) \<and> R = rev (frozen nh ph k m Y)"
      if "no_second_preimage nh ph Y \<and> R' @ [h'] = rev (frozen nh ph k (Suc m) Y)"
      using that bw inv unfolding fm fo R by simp
    show ?thesis using step r(1) q t fw' bw' by metis
  qed
qed

lemma frozen_split:
  assumes "r < 2 ^ z"
  shows "\<exists>low. frozen nh ph k (m * 2 ^ z + r) Y = low @ frozen nh ph (k + z) m Y"
  using assms
proof (induction z arbitrary: k r)
  case (Suc z)
  have h: "(m * 2 ^ Suc z + r) div 2 = m * 2 ^ z + r div 2" by simp
  have "r div 2 < 2 ^ z" using Suc.prems by simp
  from Suc.IH [OF this, of "Suc k"] obtain low where "frozen nh ph (Suc k) (m * 2 ^ z + r div 2) Y = low @ frozen nh ph (Suc k + z) m Y"
    by blast
  then show ?case using frozen_even [of "m * 2 ^ Suc z + r" nh ph k Y] frozen_odd_block [of "m * 2 ^ Suc z + r" nh ph k Y] h
    by (cases "even r") auto
qed simp

lemma push_bit_1_nat:
  assumes "z < 64"
  shows "unat (push_bit z 1 :: u64) = 2 ^ z" and "push_bit z 1 = (word_of_nat (2 ^ z) :: u64)"
proof -
  have "(2::nat) ^ z < 2 ^ 64" using assms by (intro power_strict_increasing) simp_all
  then show u: "unat (push_bit z 1 :: u64) = 2 ^ z" using unat_push_bit_nat [of 1 z] by (simp only: of_nat_1 mult_1)
  show "push_bit z 1 = (word_of_nat (2 ^ z) :: u64)" by (rule word_of_unat [OF u])
qed

lemma popcount_shift: "popcount (m * 2 ^ z) = popcount m"
  by (induction z) (simp_all add: popcount_halves mult.left_commute)

lemma exponent_bound:
  assumes "c = m * 2 ^ z" and "odd m" and "c \<le> (2::nat) ^ 63"
  shows "z < 64"
proof (rule ccontr)
  assume "\<not> z < 64"
  then have "(2::nat) ^ 64 \<le> 2 ^ z" by (intro power_increasing) simp_all
  also have "\<dots> \<le> m * 2 ^ z" using odd_pos [OF assms(2)] by simp
  finally show False using assms(1,3) by simp
qed

lemma unat_small: "c + r \<le> 2 ^ 63 \<Longrightarrow> unat (word_of_nat r :: u64) = r"
  by (simp add: unsigned_of_nat take_bit_nat_eq_self)

lemma combine_step:
  assumes c: "c = m * 2 ^ z" "odd m" and r: "2 ^ z \<le> r" and b: "c + r \<le> 2 ^ 63"
    and R: "length R = popcount c" and Y: "length Y = c + r"
  shows "\<exists>t h' R' m'. (\<forall>sts. combine_loop nh (h # sts) R (word_of_nat c) (word_of_nat r) (push_bit z 1)
        = combine_loop nh sts (R' @ [h']) (word_of_nat (c + 2 ^ z)) (word_of_nat (r - 2 ^ z)) (push_bit (z + t) 1))
      \<and> c + 2 ^ z = m' * 2 ^ (z + t) \<and> odd m' \<and> length (R' @ [h']) = popcount (c + 2 ^ z)
      \<and> (h = mroot nh ph z (block z m Y) \<and> R = rev (frozen nh ph 0 c Y) \<longrightarrow> R' @ [h'] = rev (frozen nh ph 0 (c + 2 ^ z) Y))
      \<and> (no_second_preimage nh ph Y \<and> R' @ [h'] = rev (frozen nh ph 0 (c + 2 ^ z) Y) \<longrightarrow> R = rev (frozen nh ph 0 c Y))"
proof -
  have z: "z < 64" using exponent_bound [OF c] b by simp
  note w = push_bit_1_nat [OF z]
  have s: "Suc m * 2 ^ z = c + 2 ^ z" using c(1) by simp
  have m: "m = c div 2 ^ z" using c(1) by simp
  have f: "frozen nh ph 0 c Y = frozen nh ph z m Y" "frozen nh ph 0 (c + 2 ^ z) Y = frozen nh ph z (Suc m) Y"
    using frozen_shift [of nh ph 0 m z Y] frozen_shift [of nh ph 0 "Suc m" z Y] c(1) unfolding s by simp_all
  have p: "popcount c = popcount m" "popcount (c + 2 ^ z) = popcount (Suc m)"
    using popcount_shift [of m z] popcount_shift [of "Suc m" z] c(1) unfolding s by simp_all
  have g: "push_bit z 1 \<le> (word_of_nat r :: u64)"
    unfolding word_le_nat_alt w(1) unat_small [OF b] by (rule r)
  have "c < 2 ^ 64" "Suc m * 2 ^ z \<le> 2 ^ 63" "Suc m * 2 ^ z \<le> length Y" using r b Y unfolding s by simp_all
  from carry_loop_frozen [OF this(1) R [unfolded p] m this(2,3), of nh h ph]
  obtain t h' R' where l: "carry_loop nh (word_of_nat c) (push_bit z 1) h R = Ret (push_bit (z + t) 1, h', R')"
    and n: "length R' + 1 = popcount (Suc m)" "2 ^ t dvd Suc m" "odd (Suc m div 2 ^ t)"
    and fw: "h = mroot nh ph z (block z m Y) \<and> R = rev (frozen nh ph z m Y) \<longrightarrow> R' @ [h'] = rev (frozen nh ph z (Suc m) Y)"
    and bw: "no_second_preimage nh ph Y \<and> R' @ [h'] = rev (frozen nh ph z (Suc m) Y)
      \<longrightarrow> h = mroot nh ph z (block z m Y) \<and> R = rev (frozen nh ph z m Y)" by blast
  have "word_add (word_of_nat c) (push_bit z 1) = Ret (word_of_nat (c + 2 ^ z) :: u64)"
    unfolding w(2) by (rule word_add_nat) (use r b in simp)
  moreover have "word_of_nat r - push_bit z 1 = (word_of_nat (r - 2 ^ z) :: u64)"
    unfolding w(2) using r by (simp add: of_nat_diff)
  ultimately have "combine_loop nh (h # sts) R (word_of_nat c) (word_of_nat r) (push_bit z 1)
    = combine_loop nh sts (R' @ [h']) (word_of_nat (c + 2 ^ z)) (word_of_nat (r - 2 ^ z)) (push_bit (z + t) 1)" for sts
    using g l unfolding combine_loop.simps by (simp only: if_True out_bind_simps prod.case)
  moreover have "c + 2 ^ z = (Suc m div 2 ^ t) * 2 ^ (z + t)"
  proof -
    have "(Suc m div 2 ^ t) * 2 ^ (z + t) = (Suc m div 2 ^ t * 2 ^ t) * 2 ^ z" by (simp only: power_add ac_simps)
    then show ?thesis unfolding dvd_div_mult_self [OF n(2)] s by (rule sym)
  qed
  moreover have "length (R' @ [h']) = popcount (c + 2 ^ z)" unfolding p using n(1) by simp
  ultimately show ?thesis using n(3) fw bw unfolding f by blast
qed

lemma combine_stop:
  assumes c: "c = m * 2 ^ z" "odd m" and r: "r < 2 ^ z" and b: "c + r \<le> 2 ^ 63"
  shows "combine_loop nh sts R (word_of_nat c) (word_of_nat r) (push_bit z 1) = Ret (Inr (sts, R, word_of_nat c, word_of_nat r))"
    and "\<exists>low. frozen nh ph 0 (c + r) Y = low @ frozen nh ph 0 c Y"
proof -
  have z: "z < 64" using exponent_bound [OF c] b by simp
  have "\<not> push_bit z 1 \<le> (word_of_nat r :: u64)"
    unfolding word_le_nat_alt push_bit_1_nat(1) [OF z] unat_small [OF b] using r by simp
  then show "combine_loop nh sts R (word_of_nat c) (word_of_nat r) (push_bit z 1) = Ret (Inr (sts, R, word_of_nat c, word_of_nat r))"
    by (cases sts) simp_all
  show "\<exists>low. frozen nh ph 0 (c + r) Y = low @ frozen nh ph 0 c Y"
    using frozen_split [OF r, of nh ph 0 m Y] frozen_shift [of nh ph 0 m z Y] c(1) by simp
qed

lemma combine_stop_sound:
  assumes c: "c = m * 2 ^ z" "odd m" and r: "r < 2 ^ z" and b: "c + r \<le> 2 ^ 63" and R: "length R = popcount c"
    and l: "combine_loop nh sts R (word_of_nat c) (word_of_nat r) (push_bit z 1) = Ret (Inr (rest, R', n', r'))"
  shows "n' + r' = word_of_nat (c + r)"
    and "R' @ rest = rev (frozen nh ph 0 (c + r) Y) \<Longrightarrow> R = rev (frozen nh ph 0 c Y)"
proof -
  obtain low where low: "frozen nh ph 0 (c + r) Y = low @ frozen nh ph 0 c Y"
    using combine_stop(2) [OF c r b, of nh ph Y] by blast
  have e: "sts = rest" "R = R'" "n' = word_of_nat c" "r' = word_of_nat r"
    using l [unfolded combine_stop(1) [OF c r b]] by simp_all
  then show "n' + r' = word_of_nat (c + r)" by simp
  show "R = rev (frozen nh ph 0 c Y)" if "R' @ rest = rev (frozen nh ph 0 (c + r) Y)"
    using that R length_frozen [of nh ph 0 c Y] unfolding low e by simp
qed

text \<open>The loop reaches the roots over the longer list only from the roots of its prefix.\<close>

lemma combine_loop_sound:
  "\<lbrakk>combine_loop nh sts R (word_of_nat c) (word_of_nat r) (push_bit z 1) = Ret (Inr (rest, R', n', r'));
    c = m * 2 ^ z; odd m; c + r \<le> 2 ^ 63; length R = popcount c; length Y = c + r\<rbrakk>
   \<Longrightarrow> n' + r' = word_of_nat (c + r)
     \<and> (no_second_preimage nh ph Y \<and> R' @ rest = rev (frozen nh ph 0 (c + r) Y) \<longrightarrow> R = rev (frozen nh ph 0 c Y))"
proof (induction sts arbitrary: R c r z m)
  case Nil
  have "r < 2 ^ z"
  proof (rule ccontr)
    assume "\<not> r < 2 ^ z"
    then have "push_bit z 1 \<le> (word_of_nat r :: u64)" using exponent_bound [OF Nil.prems(2,3)] Nil.prems(4)
      unfolding word_le_nat_alt unat_small [OF Nil.prems(4)] by (subst push_bit_1_nat(1)) simp_all
    with Nil.prems(1) show False by simp
  qed
  from combine_stop_sound [OF Nil.prems(2,3) this Nil.prems(4,5,1)] show ?case by blast
next
  case (Cons h sts)
  show ?case
  proof (cases "r < 2 ^ z")
    case True
    from combine_stop_sound [OF Cons.prems(2,3) True Cons.prems(4,5,1)] show ?thesis by blast
  next
    case False
    then have r: "2 ^ z \<le> r" by simp
    then have e: "c + 2 ^ z + (r - 2 ^ z) = c + r" by simp
    from combine_step [OF Cons.prems(2,3) r Cons.prems(4-6), of nh h ph] obtain t h' R1 m'
      where l: "combine_loop nh (h # sts) R (word_of_nat c) (word_of_nat r) (push_bit z 1)
        = combine_loop nh sts (R1 @ [h']) (word_of_nat (c + 2 ^ z)) (word_of_nat (r - 2 ^ z)) (push_bit (z + t) 1)"
      and m: "c + 2 ^ z = m' * 2 ^ (z + t)" "odd m'" "length (R1 @ [h']) = popcount (c + 2 ^ z)"
      and bw: "no_second_preimage nh ph Y \<and> R1 @ [h'] = rev (frozen nh ph 0 (c + 2 ^ z) Y) \<longrightarrow> R = rev (frozen nh ph 0 c Y)" by blast
    show ?thesis using Cons.IH [OF Cons.prems(1) [unfolded l] m(1,2) _ m(3)] Cons.prems(4,6) bw unfolding e by blast
  qed
qed

section \<open>The root hash determines the subtrees\<close>

lemma no_second_preimageD:
  assumes "no_second_preimage nh ph Y" and "k < tree_depth (length Y)" and "block (Suc k) p Y \<noteq> []"
    and "nh c d = mroot nh ph (Suc k) (block (Suc k) p Y)"
  shows "c = mroot nh ph k (block k (2 * p) Y)" and "d = mroot nh ph k (block k (2 * p + 1) Y)"
  using assms(1) [unfolded no_second_preimage_def, rule_format, OF assms(2,3)] assms(4)
  unfolding mroot_block [OF assms(3)] by blast+

lemma root_loop_inj:
  "\<lbrakk>root_loop nh ph (word_of_nat n) cur F = Ret (mroot nh ph (k + bit_length n) Y); no_second_preimage nh ph Y;
    length F = popcount n; n < 2 ^ 64; n * 2 ^ k \<le> length Y; length Y \<le> Suc n * 2 ^ k; n * 2 ^ k < length Y \<or> odd n;
    k + bit_length n = tree_depth (length Y)\<rbrakk>
   \<Longrightarrow> F = frozen nh ph k n Y \<and> cur = mroot nh ph k (block k n Y)"
proof (induction n arbitrary: k cur F rule: less_induct)
  case (less n)
  note halves = word_of_nat_halves [OF less.prems(4)]
  consider "n = 0" | "odd n" | "n \<noteq> 0" "even n" by blast
  then show ?case
  proof cases
    case 1
    with less.prems show ?thesis by (simp add: root_loop.simps bit_length.simps popcount.simps block_def)
  next
    case 2
    have n: "n div 2 < n" "n div 2 < 2 ^ 64" "n \<noteq> 0" using odd_pos [OF 2] less.prems(4) by simp_all
    have bl: "k + bit_length n = Suc k + bit_length (n div 2)" using n(3) by (simp add: bit_length.simps [of n])
    obtain j where j: "n = Suc (2 * j)" using 2 by (auto elim: oddE)
    obtain r rs where F: "F = r # rs" using less.prems(3) popcount_halves(2) [OF 2] by (cases F) auto
    have step: "root_loop nh ph (word_of_nat n) cur F = root_loop nh ph (word_of_nat (n div 2)) (nh r cur) rs"
      using halves 2 n(3) F by (subst root_loop.simps) simp
    have lt: "n div 2 * 2 ^ Suc k < length Y"
    proof -
      have "n div 2 * 2 ^ Suc k + 2 ^ k = n * 2 ^ k" by (simp add: j algebra_simps)
      then show ?thesis using less.prems(5) zero_less_power [of "2::nat" k] by linarith
    qed
    have IH: "rs = frozen nh ph (Suc k) (n div 2) Y \<and> nh r cur = mroot nh ph (Suc k) (block (Suc k) (n div 2) Y)"
    proof (rule less.IH [OF n(1)])
      show "length rs = popcount (n div 2)" using less.prems(3) popcount_halves(2) [OF 2] F by simp
      show "length Y \<le> Suc (n div 2) * 2 ^ Suc k" using less.prems(6) unfolding j by (simp add: algebra_simps)
    qed (use less.prems(1,2,8) step bl n(2) lt in simp_all)
    have d: "k < tree_depth (length Y)" using less.prems(8) bl by simp
    have "2 * (n div 2) = n - 1" "2 * (n div 2) + 1 = n" by (simp_all add: j)
    with no_second_preimageD [OF less.prems(2) d block_not_Nil [OF lt] conjunct2 [OF IH]]
    show ?thesis using IH F by (simp add: frozen_odd_block [OF 2])
  next
    case 3
    have n: "n div 2 < n" "n div 2 < 2 ^ 64" using 3 less.prems(4) by simp_all
    have bl: "k + bit_length n = Suc k + bit_length (n div 2)" using 3(1) by (simp add: bit_length.simps [of n])
    obtain j where j: "n = 2 * j" using 3 by (auto elim: evenE)
    have step: "root_loop nh ph (word_of_nat n) cur F = root_loop nh ph (word_of_nat (n div 2)) (nh cur ph) F"
      using halves 3 by (subst root_loop.simps) simp
    have lt: "n div 2 * 2 ^ Suc k < length Y" using less.prems(7) 3(2) unfolding j by (simp add: algebra_simps)
    have IH: "F = frozen nh ph (Suc k) (n div 2) Y \<and> nh cur ph = mroot nh ph (Suc k) (block (Suc k) (n div 2) Y)"
    proof (rule less.IH [OF n(1)])
      show "length F = popcount (n div 2)" using less.prems(3) popcount_halves(1) [OF 3(2)] by simp
      show "length Y \<le> Suc (n div 2) * 2 ^ Suc k" using less.prems(6) unfolding j by (simp add: algebra_simps)
    qed (use less.prems(1,2,8) step bl n(2) lt in simp_all)
    have d: "k < tree_depth (length Y)" using less.prems(8) bl by simp
    have "2 * (n div 2) = n" by (simp add: j)
    with no_second_preimageD(1) [OF less.prems(2) d block_not_Nil [OF lt] conjunct2 [OF IH]]
    show ?thesis using IH by (simp add: frozen_even [OF 3(2)])
  qed
qed

lemma compute_root_inj:
  assumes root: "compute_root_hash nh ph R (word_of_nat (length Y)) = Ret (mroot nh ph (tree_depth (length Y)) Y)"
    and len: "length R = popcount (length Y)" and Y: "length Y < 2 ^ 64" and nsp: "no_second_preimage nh ph Y"
  shows "R = rev (frozen nh ph 0 (length Y) Y)"
proof (cases "Y = []")
  case True
  then show ?thesis using len by (simp add: popcount.simps)
next
  case False
  then have "length Y \<noteq> 0" by simp
  from trailing_zeros_nat [OF this Y] obtain m z where l: "length Y = m * 2 ^ z" and o: "odd m"
    and t: "trailing_zeros (word_of_nat (length Y)) = z" "z < 64" "drop_bit z (word_of_nat (length Y) :: u64) = word_of_nat m" .
  have f: "frozen nh ph 0 (length Y) Y = frozen nh ph z m Y" using frozen_shift [of nh ph 0 m z Y] l by simp
  have pc: "length R = popcount m" using len popcount_shift [of m z] l by simp
  show ?thesis
  proof (cases "m = 1")
    case True
    have "length R = 1" using pc True popcount_halves(2) [of 1] by (simp add: popcount.simps [of 0])
    then obtain r where R: "R = [r]" by (auto simp: length_Suc_conv)
    have "tree_depth (length Y) = z" using tree_depth_shift [of 1 z] l True by (simp add: tree_depth_def bit_length.simps [of 0])
    moreover have "block z 0 Y = Y" using l True by (simp add: block_def)
    ultimately show ?thesis using root True R unfolding f by (simp add: compute_root_hash_def frozen_odd_block)
  next
    case False
    have "m * 1 \<le> m * 2 ^ z" by (rule mult_le_mono2) simp
    then have m: "m < 2 ^ 64" using l Y by linarith
    have d: "tree_depth (length Y) = z + bit_length m"
      using tree_depth_shift [of m z] tree_depth_odd [OF o False] l o by (simp add: odd_pos)
    have "m div 2 \<noteq> 0" using o False by (auto elim!: oddE)
    then have "popcount (m div 2) \<noteq> 0" using frozen_not_Nil [of "m div 2" nh ph 0 Y] length_frozen [of nh ph 0 "m div 2" Y] by (metis length_0_conv)
    then obtain a b as where R: "R = a # b # as" using pc popcount_halves(2) [OF o] by (cases R; cases "tl R") auto
    have "root_loop nh ph (word_of_nat m) ph (rev R) = Ret (mroot nh ph (z + bit_length m) Y)"
      using root t d R by (simp add: compute_root_hash_def)
    from root_loop_inj [OF this nsp _ m] pc l o d have "rev R = frozen nh ph z m Y" by simp
    then show ?thesis unfolding f by (metis rev_rev_ident)
  qed
qed

text \<open>The subtrees determine the leaves.\<close>

lemma mroot_inj:
  "\<lbrakk>mroot nh ph k xs = mroot nh ph k (block k p Y); length xs = 2 ^ k; Suc p * 2 ^ k \<le> length Y; no_second_preimage nh ph Y\<rbrakk>
   \<Longrightarrow> xs = block k p Y"
proof (induction k arbitrary: xs p)
  case 0
  then obtain x where x: "xs = [x]" by (auto simp: length_Suc_conv)
  have "p < length Y" using 0 by simp
  then have "block 0 p Y = [Y ! p]" by (simp add: block_def Cons_nth_drop_Suc [symmetric])
  with 0 x show ?case by simp
next
  case (Suc k)
  have z: "(0::nat) < 2 ^ k" by simp
  have ne: "block (Suc k) p Y \<noteq> []" 
    by (rule block_not_Nil) (use Suc.prems(3) [unfolded power_Suc mult_Suc] z in \<open>unfold power_Suc, linarith\<close>)
  have "2 ^ Suc k \<le> Suc p * 2 ^ Suc k" by simp
  then have "2 ^ k < length Y" using Suc.prems(3) z unfolding power_Suc by linarith
  then have d: "k < tree_depth (length Y)" by (rule tree_depth_less)
  have "xs \<noteq> []" using Suc.prems(2) by auto
  then have "nh (mroot nh ph k (take (2 ^ k) xs)) (mroot nh ph k (drop (2 ^ k) xs)) = mroot nh ph (Suc k) (block (Suc k) p Y)"
    unfolding Suc.prems(1) [symmetric] by simp
  note h = no_second_preimageD [OF Suc.prems(4) d ne this]
  have "Suc (2 * p) * 2 ^ k \<le> length Y" "Suc (2 * p + 1) * 2 ^ k \<le> length Y" using Suc.prems(3) by (simp_all add: algebra_simps)
  with h Suc.IH [of "take (2 ^ k) xs" "2 * p"] Suc.IH [of "drop (2 ^ k) xs" "2 * p + 1"] Suc.prems(2,4)
  have "take (2 ^ k) xs = block k (2 * p) Y" "drop (2 ^ k) xs = block k (2 * p + 1) Y" by simp_all
  then show ?case by (metis append_take_drop_id block_halves)
qed

lemma take_blocks: "take (Suc p * 2 ^ k) xs = take (p * 2 ^ k) xs @ block k p xs"
  by (simp add: block_def take_add [symmetric] add.commute)

lemma frozen_inj:
  "\<lbrakk>frozen nh ph k n xs = frozen nh ph k n Y; n * 2 ^ k \<le> length xs; n * 2 ^ k \<le> length Y; no_second_preimage nh ph Y\<rbrakk>
   \<Longrightarrow> take (n * 2 ^ k) xs = take (n * 2 ^ k) Y"
proof (induction n arbitrary: k rule: less_induct)
  case (less n)
  consider "n = 0" | "odd n" | "n \<noteq> 0" "even n" by blast
  then show ?case
  proof cases
    case 2
    then obtain j where j: "n = Suc (2 * j)" by (auto elim: oddE)
    have s: "n div 2 * 2 ^ Suc k = 2 * j * 2 ^ k" by (simp add: j)
    have b: "Suc (2 * j) * 2 ^ k \<le> length xs" "Suc (2 * j) * 2 ^ k \<le> length Y" using less.prems(2,3) j by simp_all
    have e: "mroot nh ph k (block k (2 * j) xs) = mroot nh ph k (block k (2 * j) Y)"
      "frozen nh ph (Suc k) (n div 2) xs = frozen nh ph (Suc k) (n div 2) Y"
      using less.prems(1) by (simp_all add: frozen_odd_block [OF 2]) (simp_all add: j)
    have "length (block k (2 * j) xs) = 2 ^ k" using b(1) by (simp add: block_def)
    from mroot_inj [OF e(1) this b(2) less.prems(4)] have "block k (2 * j) xs = block k (2 * j) Y" .
    moreover have "take (2 * j * 2 ^ k) xs = take (2 * j * 2 ^ k) Y"
      using less.IH [OF _ e(2) _ _ less.prems(4)] b unfolding s by (simp add: j)
    ultimately show ?thesis unfolding j take_blocks by simp
  next
    case 3
    then have s: "n div 2 * 2 ^ Suc k = n * 2 ^ k" by (auto elim!: evenE)
    show ?thesis using less.IH [of "n div 2" "Suc k"] less.prems 3 unfolding s by (simp add: frozen_even)
  qed simp
qed

lemma acc_new_root:
  assumes new: "acc_new nh ph R (word_of_nat (length ys)) = Ret (Inr acc)"
    and root: "root_hash acc = root_hash (acc_of nh ph ys)" and bound: "length ys \<le> 2 ^ 63" and nsp: "no_second_preimage nh ph ys"
  shows "R = rev (frozen nh ph 0 (length ys) ys)" and "acc = acc_of nh ph ys"
proof -
  have b: "length ys < 2 ^ 64" using bound by simp
  have len: "length R = popcount (length ys)" using new count_ones_nat [OF b] by (simp add: acc_new_def split: if_splits)
  have "compute_root_hash nh ph R (word_of_nat (length ys)) = Ret (mroot nh ph (tree_depth (length ys)) ys)"
    using new root by (cases "compute_root_hash nh ph R (word_of_nat (length ys))") (auto simp: acc_new_def acc_of_def split: if_splits)
  from compute_root_inj [OF this len b nsp] show R: "R = rev (frozen nh ph 0 (length ys) ys)" .
  show "acc = acc_of nh ph ys" using new acc_new_frozen [OF b, of nh ph] unfolding R by simp
qed

text \<open>
  Subtrees cannot hide a fork: if applying some subtrees to the accumulator of \<open>xs\<close> gives the root hash of a tree
  over \<open>ys\<close> in which no inner node has a second preimage, then \<open>ys\<close> starts with \<open>xs\<close>.
\<close>

lemma append_subtrees_sound:
  assumes app: "append_subtrees nh ph (acc_of nh ph xs) subtrees (word_of_nat d) = Ret (Inr acc)"
    and root: "root_hash acc = root_hash (acc_of nh ph ys)"
    and len: "length ys = length xs + d" and bound: "length ys \<le> 2 ^ 63"
    and nsp: "no_second_preimage nh ph ys"
  shows "xs = take (length xs) ys \<and> acc = acc_of nh ph ys"
proof (cases "xs = []")
  case True
  then have "acc_new nh ph subtrees (word_of_nat (length ys)) = Ret (Inr acc)"
    using app len by (auto simp: append_subtrees_def acc_of_def out_bind_eq_Ret_iff split: if_splits)
  from acc_new_root [OF this root bound nsp] True show ?thesis by simp
next
  case False
  let ?c = "length xs"
  have c: "?c \<noteq> 0" "?c < 2 ^ 64" "?c + d \<le> 2 ^ 63" using False bound len by simp_all
  from trailing_zeros_nat [OF c(1,2)] obtain m z where m: "?c = m * 2 ^ z" "odd m"
    and z: "trailing_zeros (word_of_nat ?c) = z" by blast
  have nz: "(word_of_nat ?c :: u64) \<noteq> 0" using word_of_nat_halves(3) [OF c(2)] c(1) by auto
  let ?R = "rev (frozen nh ph 0 ?c xs)"
  obtain rest R' n' r' where l: "combine_loop nh subtrees ?R (word_of_nat ?c) (word_of_nat d) (push_bit z 1) = Ret (Inr (rest, R', n', r'))"
    and new: "acc_new nh ph (R' @ rest) (n' + r') = Ret (Inr acc)"
    using app nz z unfolding append_subtrees_def acc_of_def
    by (auto simp: out_try_ok out_bind_eq_Ret_iff word_add_def split: if_splits)
  have "length ?R = popcount ?c" by (simp add: length_frozen)
  note sound = combine_loop_sound [OF l m c(3) this len, of ph]
  have "n' + r' = word_of_nat (length ys)" unfolding len using sound by blast
  from acc_new_root [OF new [unfolded this] root bound nsp] have R: "R' @ rest = rev (frozen nh ph 0 (length ys) ys)"
    and acc: "acc = acc_of nh ph ys" by blast+
  have "frozen nh ph 0 ?c xs = frozen nh ph 0 ?c ys" using sound nsp R [unfolded len] by simp
  from frozen_inj [OF this _ _ nsp] len have "take ?c xs = take ?c ys" by simp
  with acc show ?thesis by simp
qed

section \<open>Subtrees for every prefix\<close>

lemma combine_loop_complete:
  "\<lbrakk>c = m * 2 ^ z; odd m; c + r \<le> 2 ^ 63; length Y = c + r\<rbrakk>
   \<Longrightarrow> \<exists>sts rest R' c' r'. combine_loop nh sts (rev (frozen nh ph 0 c Y)) (word_of_nat c) (word_of_nat r) (push_bit z 1)
         = Ret (Inr (rest, R', word_of_nat c', word_of_nat r')) \<and> R' @ rest = rev (frozen nh ph 0 (c + r) Y) \<and> c' + r' = c + r"
proof (induction r arbitrary: c m z rule: less_induct)
  case (less r)
  show ?case
  proof (cases "r < 2 ^ z")
    case True
    obtain low where low: "frozen nh ph 0 (c + r) Y = low @ frozen nh ph 0 c Y"
      using combine_stop(2) [OF less.prems(1,2) True less.prems(3), of nh ph Y] by blast
    show ?thesis
      using combine_stop(1) [OF less.prems(1,2) True less.prems(3), of nh "rev low" "rev (frozen nh ph 0 c Y)"]
      unfolding low by (metis rev_append)
  next
    case False
    then have r: "2 ^ z \<le> r" by simp
    have R: "length (rev (frozen nh ph 0 c Y)) = popcount c" by (simp add: length_frozen)
    let ?h = "mroot nh ph z (block z m Y)"
    obtain t h' R1 m' where step: "\<And>sts. combine_loop nh (?h # sts) (rev (frozen nh ph 0 c Y)) (word_of_nat c) (word_of_nat r) (push_bit z 1)
        = combine_loop nh sts (R1 @ [h']) (word_of_nat (c + 2 ^ z)) (word_of_nat (r - 2 ^ z)) (push_bit (z + t) 1)"
      and m: "c + 2 ^ z = m' * 2 ^ (z + t)" "odd m'" and f: "R1 @ [h'] = rev (frozen nh ph 0 (c + 2 ^ z) Y)"
      using combine_step [OF less.prems(1,2) r less.prems(3) R less.prems(4), of nh ?h ph] by blast
    have "(0::nat) < 2 ^ z" by simp
    then have e: "c + 2 ^ z + (r - 2 ^ z) = c + r" "r - 2 ^ z < r" using r by linarith+
    from less.IH [OF e(2) m] less.prems(3,4) obtain sts rest R' c' r' where
      "combine_loop nh sts (R1 @ [h']) (word_of_nat (c + 2 ^ z)) (word_of_nat (r - 2 ^ z)) (push_bit (z + t) 1)
        = Ret (Inr (rest, R', word_of_nat c', word_of_nat r'))" "R' @ rest = rev (frozen nh ph 0 (c + r) Y)" "c' + r' = c + r"
      unfolding f e(1) by blast
    then show ?thesis unfolding step [symmetric] by blast
  qed
qed

lemma append_subtrees_complete:
  assumes "length (xs @ ys) \<le> 2 ^ 63"
  shows "\<exists>subtrees. append_subtrees nh ph (acc_of nh ph xs) subtrees (word_of_nat (length ys)) = Ret (Inr (acc_of nh ph (xs @ ys)))"
proof -
  let ?Y = "xs @ ys" and ?c = "length xs" and ?d = "length ys"
  have max: "MAX_ACCUMULATOR_LEAVES = word_of_nat (2 ^ 63)"
    unfolding MAX_ACCUMULATOR_LEAVES_def MAX_ACCUMULATOR_PROOF_DEPTH_def by (rule push_bit_1_nat(2)) simp
  have room: "word_sub MAX_ACCUMULATOR_LEAVES (word_of_nat ?c) = Ret (word_of_nat (2 ^ 63 - ?c))"
    unfolding max by (rule word_sub_nat) (use assms in simp_all)
  have d: "(word_of_nat ?d :: u64) \<le> word_of_nat (2 ^ 63 - ?c)"
    using assms by (simp only: word_le_nat_alt unat_of_nat) (simp add: take_bit_nat_eq_self)
  have b: "length ?Y < 2 ^ 64" using assms by simp
  show ?thesis
  proof (cases "xs = []")
    case True
    then show ?thesis
      using acc_new_frozen [OF b, of nh ph] room d
      by (intro exI [of _ "rev (frozen nh ph 0 (length ys) ys)"]) (simp add: append_subtrees_def acc_of_def)
  next
    case False
    have c: "?c \<noteq> 0" "?c < 2 ^ 64" using False assms by simp_all
    from trailing_zeros_nat [OF c] obtain m z where m: "?c = m * 2 ^ z" "odd m"
      and z: "trailing_zeros (word_of_nat ?c) = z" by blast
    have nz: "(word_of_nat ?c :: u64) \<noteq> 0" using word_of_nat_halves(3) [OF c(2)] c(1) by auto
    have f: "frozen nh ph 0 ?c ?Y = frozen nh ph 0 ?c xs" by (rule frozen_append) simp
    obtain sts rest R' c' r' where
      l: "combine_loop nh sts (rev (frozen nh ph 0 ?c xs)) (word_of_nat ?c) (word_of_nat ?d) (push_bit z 1)
        = Ret (Inr (rest, R', word_of_nat c', word_of_nat r'))" "R' @ rest = rev (frozen nh ph 0 (length ?Y) ?Y)" "c' + r' = length ?Y"
      using combine_loop_complete [OF m, of ?d ?Y nh ph] assms unfolding f by auto
    have "word_add (word_of_nat c') (word_of_nat r') = Ret (word_of_nat (length ?Y) :: u64)"
      using word_add_nat [of c' r'] l(3) b by simp
    then have "append_subtrees nh ph (acc_of nh ph xs) sts (word_of_nat ?d) = Ret (Inr (acc_of nh ph ?Y))"
      using acc_new_frozen [OF b, of nh ph] l room d nz z
      by (simp add: append_subtrees_def acc_of_def del: of_nat_add)
    then show ?thesis by blast
  qed
qed

end
