(* ===== verification/BitVec.thy ===== *)
theory BitVec
  imports Prelude
begin

text \<open>
  Bit vectors (\<^verbatim>\<open>crates/ol-bitvec/src/lib.rs\<close>): a vector of bytes, eight positions to a byte from the most significant
  bit on, positions up to 65535. The lemmas show that it is a set of positions.
\<close>

unbundle bit_operations_syntax

type_synonym bitvec = bytes

definition BUCKET_SIZE :: nat where
  "BUCKET_SIZE = 8"

definition MAX_BUCKETS :: nat where
  "MAX_BUCKETS = 8192"

definition bv_default :: bitvec where
  "bv_default = []"

text \<open>\<^verbatim>\<open>checked_sub(1)\<close> fails on 0 only.\<close>

definition required_buckets :: "u16 \<Rightarrow> nat" where
  "required_buckets num_bits = (if num_bits = 0 then 0 else unat (num_bits - 1) div BUCKET_SIZE + 1)"

definition with_num_bits :: "u16 \<Rightarrow> bitvec" where
  "with_num_bits num_bits = replicate (required_buckets num_bits) 0"

definition bv_set :: "bitvec \<Rightarrow> u16 \<Rightarrow> bitvec" where
  "bv_set bv pos =
     (let bucket = unat pos div BUCKET_SIZE;
          inner = (if length bv \<le> bucket then bv @ replicate (bucket + 1 - length bv) 0 else bv);
          bucket_pos = unat pos - bucket * BUCKET_SIZE in
      inner[bucket := (inner ! bucket) OR drop_bit bucket_pos 0b10000000])"

definition is_set :: "bitvec \<Rightarrow> u16 \<Rightarrow> bool" where
  "is_set bv pos =
     (let bucket = unat pos div BUCKET_SIZE in
      if length bv \<le> bucket then False
      else let bucket_pos = unat pos - bucket * BUCKET_SIZE in
           (bv ! bucket) AND drop_bit bucket_pos 0b10000000 \<noteq> 0)"

definition all_zeros :: "bitvec \<Rightarrow> bool" where
  "all_zeros bv \<longleftrightarrow> list_all (\<lambda>byte. byte = 0) bv"

definition byte_ones :: "u8 \<Rightarrow> nat" where
  "byte_ones b = length (filter (bit b) [0..<8])"

definition bv_count_ones :: "bitvec \<Rightarrow> nat" where
  "bv_count_ones bv = sum_list (map byte_ones bv)"

definition byte_trailing_zeros :: "u8 \<Rightarrow> nat" where
  "byte_trailing_zeros b = length (takeWhile (\<lambda>i. \<not> bit b i) [0..<8])"

definition last_set_bit :: "bitvec \<Rightarrow> u16 option" where
  "last_set_bit bv =
     map_option (\<lambda>(i, byte). word_of_nat (8 * (length bv - i) - byte_trailing_zeros byte - 1))
       (List.find (\<lambda>(i, byte). byte \<noteq> 0) (enumerate 0 (rev bv)))"

definition iter_ones :: "bitvec \<Rightarrow> nat list" where
  "iter_ones bv = filter (\<lambda>idx. is_set bv (word_of_nat idx)) [0..<length bv * BUCKET_SIZE]"

definition num_buckets :: "bitvec \<Rightarrow> nat" where
  "num_buckets bv = length bv"

definition bv_and :: "bitvec \<Rightarrow> bitvec \<Rightarrow> bitvec" where
  "bv_and a b = map (\<lambda>i. (a ! i) AND (b ! i)) [0..<min (length a) (length b)]"

definition get_or_0 :: "bitvec \<Rightarrow> nat \<Rightarrow> u8" where
  "get_or_0 bv i = (if i < length bv then bv ! i else 0)"

definition bv_or :: "bitvec \<Rightarrow> bitvec \<Rightarrow> bitvec" where
  "bv_or a b = map (\<lambda>i. get_or_0 a i OR get_or_0 b i) [0..<max (length a) (length b)]"

definition bv_from_iter :: "u8 list \<Rightarrow> bitvec" where
  "bv_from_iter iter = foldl (\<lambda>bv b. bv_set bv (ucast b)) bv_default iter"

definition bv_from_bytes :: "bytes \<Rightarrow> bitvec outcome" where
  "bv_from_bytes raw_bytes = assert_that (length raw_bytes \<le> MAX_BUCKETS) raw_bytes"

definition bv_from_bools :: "bool list \<Rightarrow> bitvec outcome" where
  "bv_from_bools bits = assert_that (length bits \<le> MAX_BUCKETS * BUCKET_SIZE)
     (foldl (\<lambda>bv (i, b). if b then bv_set bv (word_of_nat i) else bv)
        (with_num_bits (word_of_nat (length bits))) (enumerate 0 bits))"

definition bv_deserialize :: "bytes \<Rightarrow> string + bitvec" where
  "bv_deserialize v = (if length v > MAX_BUCKETS then Inl ''BitVec too long'' else Inr v)"

section \<open>A bit vector is a set of positions\<close>

definition bit_at :: "bitvec \<Rightarrow> nat \<Rightarrow> bool" where
  "bit_at bv i \<longleftrightarrow> i div 8 < length bv \<and> bit (bv ! (i div 8)) (7 - i mod 8)"

definition bv_positions :: "bitvec \<Rightarrow> nat set" where
  "bv_positions bv = {i. bit_at bv i}"

lemma bit_128: "bit (128 :: u8) m \<longleftrightarrow> m = 7"
proof -
  have "(128 :: u8) = push_bit 7 1" by simp
  then show ?thesis by (simp only: bit_push_bit_iff bit_1_iff) auto
qed

lemma bit_high: "k < 8 \<Longrightarrow> bit (drop_bit k 0b10000000 :: u8) n \<longleftrightarrow> n = 7 - k"
  unfolding bit_drop_bit_eq comp_def bit_128 by linarith

lemma bucket_pos: "n - n div BUCKET_SIZE * BUCKET_SIZE = n mod 8"
  by (simp add: BUCKET_SIZE_def minus_div_mult_eq_mod)

lemma is_set_bit: "is_set bv pos \<longleftrightarrow> bit_at bv (unat pos)"
proof -
  have "(v :: u8) AND drop_bit (unat pos mod 8) 0b10000000 \<noteq> 0 \<longleftrightarrow> bit v (7 - unat pos mod 8)" for v
  proof -
    have "(v AND drop_bit (unat pos mod 8) 0b10000000 \<noteq> 0) \<longleftrightarrow> (\<exists>n<8. bit v n \<and> n = 7 - unat pos mod 8)"
      unfolding bit_eq_iff [of "v AND _"] using bit_high [of "unat pos mod 8"] by (auto simp: bit_and_iff)
    also have "\<dots> \<longleftrightarrow> bit v (7 - unat pos mod 8)" by auto
    finally show ?thesis .
  qed
  then show ?thesis unfolding is_set_def Let_def bucket_pos by (simp add: bit_at_def not_le BUCKET_SIZE_def)
qed

lemma same_position: "i = j \<longleftrightarrow> i div 8 = j div 8 \<and> 7 - i mod 8 = 7 - j mod 8" for i j :: nat
proof
  assume a: "i div 8 = j div 8 \<and> 7 - i mod 8 = 7 - j mod 8"
  then have "i mod 8 = j mod 8" using mod_less_divisor [of 8 i] mod_less_divisor [of 8 j] by linarith
  with a show "i = j" by (metis div_mod_decomp)
qed simp

lemma bit_at_set: "bit_at (bv_set bv pos) i \<longleftrightarrow> i = unat pos \<or> bit_at bv i"
proof -
  let ?b = "unat pos div 8"
  let ?inner = "if length bv \<le> ?b then bv @ replicate (?b + 1 - length bv) 0 else bv"
  have e: "bv_set bv pos = ?inner[?b := (?inner ! ?b) OR drop_bit (unat pos mod 8) 0b10000000]"
    unfolding bv_set_def Let_def bucket_pos by (simp add: BUCKET_SIZE_def)
  have l: "?b < length ?inner" by simp
  have o: "bit_at ?inner i \<longleftrightarrow> bit_at bv i" by (auto simp: bit_at_def nth_append)
  have "bit_at (?inner[?b := (?inner ! ?b) OR drop_bit (unat pos mod 8) 0b10000000]) i \<longleftrightarrow> i = unat pos \<or> bit_at ?inner i"
    using l same_position [of i "unat pos"] bit_high [of "unat pos mod 8" "7 - i mod 8"]
    by (auto simp: bit_at_def nth_list_update bit_or_iff)
  then show ?thesis unfolding e o .
qed

lemma length_set: "length (bv_set bv pos) \<le> max (length bv) 8192"
  using unsigned_less [of pos, where 'a = nat] unfolding bv_set_def Let_def by (auto simp: BUCKET_SIZE_def)

lemma bit_at_and: "bit_at (bv_and a b) i \<longleftrightarrow> bit_at a i \<and> bit_at b i"
  by (auto simp: bit_at_def bv_and_def bit_and_iff)

lemma bit_at_or: "bit_at (bv_or a b) i \<longleftrightarrow> bit_at a i \<or> bit_at b i"
proof -
  have "bv_or a b ! k = get_or_0 a k OR get_or_0 b k" if "k < max (length a) (length b)" for k
    using that by (simp add: bv_or_def)
  moreover have "length (bv_or a b) = max (length a) (length b)" by (simp add: bv_or_def)
  ultimately show ?thesis by (auto simp: bit_at_def get_or_0_def bit_or_iff split: if_splits)
qed

lemma bit_at_bound: "bit_at bv i \<Longrightarrow> i < 8 * length bv"
  by (auto simp: bit_at_def)

lemma iter_ones_bits:
  assumes "length bv \<le> MAX_BUCKETS"
  shows "iter_ones bv = filter (bit_at bv) [0..<8 * length bv]"
proof -
  have "unat (word_of_nat i :: u16) = i" if "i < 8 * length bv" for i
    using that assms by (simp add: unsigned_of_nat take_bit_nat_eq_self MAX_BUCKETS_def)
  then show ?thesis unfolding iter_ones_def is_set_bit BUCKET_SIZE_def by (intro filter_cong) (simp_all add: mult.commute)
qed

lemma bit_at_Cons:
  "bit_at (b # bs) i \<longleftrightarrow> (if i < 8 then bit b (7 - i) else bit_at bs (i - 8))"
  by (auto simp: bit_at_def nth_Cons' div_if [of i 8] mod_if [of i 8])

lemma count_filter_rev: "length (filter P [0..<8]) = length (filter (\<lambda>i. P (7 - i)) [0..<8])"
proof -
  have "rev (map (\<lambda>i. 7 - i) [0..<8]) = [0..<(8::nat)]" by (simp add: upt_rec)
  then have "length (filter P [0..<8]) = length (filter P (map (\<lambda>i. 7 - i) [0..<8]))"
    by (metis length_rev rev_filter)
  then show ?thesis by (simp add: filter_map comp_def)
qed

lemma count_ones_bits: "bv_count_ones bv = length (filter (bit_at bv) [0..<8 * length bv])"
proof (induction bv)
  case (Cons b bs)
  have "[0..<8 * length (b # bs)] = [0..<8] @ map (\<lambda>i. i + 8) [0..<8 * length bs]"
    by (simp add: map_add_upt upt_add_eq_append [of 0 8, symmetric] add.commute)
  moreover have "filter (bit_at (b # bs)) [0..<8] = filter (\<lambda>i. bit b (7 - i)) [0..<8]"
    by (rule filter_cong) (simp_all add: bit_at_Cons)
  ultimately have "length (filter (bit_at (b # bs)) [0..<8 * length (b # bs)])
    = length (filter (\<lambda>i. bit b (7 - i)) [0..<8]) + length (filter (bit_at bs) [0..<8 * length bs])"
    by (simp add: filter_map comp_def) (simp add: bit_at_Cons)
  then show ?case using Cons count_filter_rev [of "bit b"] by (simp add: bv_count_ones_def byte_ones_def)
qed (simp add: bv_count_ones_def)

lemma find_enumerate:
  "List.find (\<lambda>(i, b). P b) (enumerate n xs) = map_option (\<lambda>(i, b). (i + n, b)) (List.find (\<lambda>(i, b). P b) (enumerate 0 xs))"
proof (induction xs arbitrary: n)
  case (Cons x xs)
  show ?case using Cons.IH [of "Suc n"] Cons.IH [of "Suc 0"] by (auto simp: option.map_comp comp_def split_beta)
qed simp

lemma last_set_bit_snoc:
  "last_set_bit (bs @ [b]) = (if b \<noteq> 0 then Some (word_of_nat (8 * Suc (length bs) - byte_trailing_zeros b - 1)) else last_set_bit bs)"
  using find_enumerate [of "\<lambda>b. b \<noteq> 0" 1 "rev bs"]
  by (cases "List.find (\<lambda>(i, b). b \<noteq> 0) (enumerate 0 (rev bs))") (auto simp: last_set_bit_def)

lemma position_of:
  assumes "n < (8::nat)"
  shows "(8 * k + (7 - n)) div 8 = k" and "7 - (8 * k + (7 - n)) mod 8 = n"
proof -
  define m where "m = 7 - n"
  then have m: "m < 8" "7 - m = n" using assms by auto
  show "(8 * k + (7 - n)) div 8 = k" "7 - (8 * k + (7 - n)) mod 8 = n" unfolding m_def [symmetric] using m by simp_all
qed

lemma byte_trailing_zeros_bits:
  assumes "(b :: u8) \<noteq> 0"
  shows "byte_trailing_zeros b < 8" and "bit b (byte_trailing_zeros b)" and "j < byte_trailing_zeros b \<Longrightarrow> \<not> bit b j"
proof -
  have ex: "\<exists>i\<in>set [0..<8]. bit b i"
  proof (rule ccontr)
    assume "\<not> (\<exists>i\<in>set [0..<8]. bit b i)"
    then have "b = 0" by (intro bit_word_eqI) simp
    with assms show False ..
  qed
  let ?t = "takeWhile (\<lambda>i. \<not> bit b i) [0..<8]"
  have lt: "length ?t < length [0..<8::nat]"
  proof (rule ccontr)
    assume "\<not> length ?t < length [0..<8::nat]"
    then have "?t = [0..<8]" using length_takeWhile_le [of "\<lambda>i. \<not> bit b i" "[0..<8]"]
      by (metis append_Nil2 append_eq_conv_conj le_antisym not_less takeWhile_eq_take take_all)
    then show False using ex set_takeWhileD by fastforce
  qed
  then show "byte_trailing_zeros b < 8" by (simp add: byte_trailing_zeros_def)
  show "bit b (byte_trailing_zeros b)" using nth_length_takeWhile [OF lt] lt by (simp add: byte_trailing_zeros_def)
  assume "j < byte_trailing_zeros b"
  then show "\<not> bit b j" using set_takeWhileD [of j "\<lambda>i. \<not> bit b i" "[0..<8]"] lt takeWhile_nth [of j "\<lambda>i. \<not> bit b i" "[0..<8]"]
    nth_mem [of j ?t] by (simp add: byte_trailing_zeros_def)
qed

lemma bit_at_snoc:
  "bit_at (bs @ [b]) i \<longleftrightarrow> bit_at bs i \<or> i div 8 = length bs \<and> bit b (7 - i mod 8)"
  by (auto simp: bit_at_def nth_append less_Suc_eq)

lemma last_set_bit_max:
  "length bv \<le> MAX_BUCKETS \<Longrightarrow>
   (case last_set_bit bv of None \<Rightarrow> \<forall>i. \<not> bit_at bv i
    | Some p \<Rightarrow> bit_at bv (unat p) \<and> (\<forall>i. bit_at bv i \<longrightarrow> i \<le> unat p))"
proof (induction bv rule: rev_induct)
  case (snoc b bs)
  show ?case
  proof (cases "b = 0")
    case True
    then show ?thesis using snoc by (simp add: last_set_bit_snoc bit_at_snoc split: option.splits)
  next
    case False
    note t = byte_trailing_zeros_bits [OF False]
    let ?p = "8 * Suc (length bs) - byte_trailing_zeros b - 1"
    have p: "?p = 8 * length bs + (7 - byte_trailing_zeros b)" using t(1) by simp
    have d: "?p div 8 = length bs" "7 - ?p mod 8 = byte_trailing_zeros b" unfolding p by (rule position_of [OF t(1)])+
    have "unat (word_of_nat ?p :: u16) = ?p" using snoc.prems by (simp add: unsigned_of_nat take_bit_nat_eq_self MAX_BUCKETS_def)
    moreover have "bit_at (bs @ [b]) ?p" using d t(2) by (simp add: bit_at_snoc)
    moreover have "i \<le> ?p" if "bit_at (bs @ [b]) i" for i
    proof (cases "bit_at bs i")
      case True
      then show ?thesis unfolding p using bit_at_bound [OF True] by simp
    next
      case False
      then have i: "i div 8 = length bs" "bit b (7 - i mod 8)" using that by (auto simp: bit_at_snoc)
      then have "byte_trailing_zeros b \<le> 7 - i mod 8" using t(3) not_less by blast
      moreover have "i = 8 * length bs + i mod 8" using i(1) by (metis div_mod_decomp mult.commute)
      ultimately show ?thesis unfolding p using mod_less_divisor [of 8 i] by linarith
    qed
    ultimately show ?thesis using False by (simp add: last_set_bit_snoc)
  qed
qed (simp add: last_set_bit_def bit_at_def)

text \<open>
  A bit vector implements a finite set of positions: setting, testing, intersection and union are those of sets,
  \<open>iter_ones\<close> lists the elements in order, \<open>count_ones\<close> is their number, \<open>last_set_bit\<close> the greatest of them, and
  \<open>all_zeros\<close> the test for the empty set.
\<close>
theorem bitvec_refines_set:
  assumes "length a \<le> MAX_BUCKETS"
  shows "bv_positions (bv_set a pos) = insert (unat pos) (bv_positions a)
    \<and> is_set a pos = (unat pos \<in> bv_positions a)
    \<and> bv_positions (bv_and a b) = bv_positions a \<inter> bv_positions b
    \<and> bv_positions (bv_or a b) = bv_positions a \<union> bv_positions b
    \<and> set (iter_ones a) = bv_positions a \<and> sorted (iter_ones a) \<and> distinct (iter_ones a)
    \<and> bv_count_ones a = card (bv_positions a)
    \<and> map_option unat (last_set_bit a) = (if bv_positions a = {} then None else Some (Max (bv_positions a)))
    \<and> (all_zeros a \<longleftrightarrow> bv_positions a = {})"
proof -
  have set: "set (iter_ones a) = bv_positions a"
    unfolding iter_ones_bits [OF assms] using bit_at_bound [of a] by (auto simp: bv_positions_def)
  have dist: "sorted (iter_ones a)" "distinct (iter_ones a)"
    unfolding iter_ones_bits [OF assms] by (simp_all add: sorted_wrt_filter)
  have "bv_count_ones a = length (iter_ones a)" by (simp add: count_ones_bits iter_ones_bits [OF assms])
  then have count: "bv_count_ones a = card (bv_positions a)" using distinct_card [OF dist(2)] set by simp
  have fin: "finite (bv_positions a)" unfolding set [symmetric] by simp
  have last: "map_option unat (last_set_bit a) = (if bv_positions a = {} then None else Some (Max (bv_positions a)))"
    using last_set_bit_max [OF assms] fin by (cases "last_set_bit a") (auto simp: bv_positions_def intro!: Max_eqI [symmetric])
  have "all_zeros a \<longleftrightarrow> bv_positions a = {}"
  proof
    assume "bv_positions a = {}"
    then have none: "\<not> bit_at a i" for i by (auto simp: bv_positions_def)
    show "all_zeros a" unfolding all_zeros_def list_all_length
    proof (intro allI impI)
      fix k assume k: "k < length a"
      have "bit (a ! k) n = bit (0 :: u8) n" if "n < 8" for n
        using none [of "8 * k + (7 - n)"] k unfolding bit_at_def position_of [OF that] by simp
      then show "a ! k = 0" by (intro bit_word_eqI) simp
    qed
  qed (auto simp: all_zeros_def list_all_length bv_positions_def bit_at_def)
  with set dist count last show ?thesis
    by (auto simp: bv_positions_def bit_at_set bit_at_and bit_at_or is_set_bit)
qed

theorem bitvec_refines_set_witness:
  "length (bv_set [] 11) \<le> MAX_BUCKETS \<and> bv_positions (bv_set (bv_set [] 11) 3) = insert 3 (insert 11 {})
   \<and> iter_ones (bv_set (bv_set [] 11) 3) = [3, 11]"
proof -
  have h: "length (bv_set [] 11) \<le> MAX_BUCKETS" "length ([] :: bitvec) \<le> MAX_BUCKETS" by code_simp+
  have "bv_positions [] = {}" by (simp add: bv_positions_def bit_at_def)
  moreover have "iter_ones (bv_set (bv_set [] 11) 3) = [3, 11]" by code_simp
  ultimately show ?thesis using bitvec_refines_set [OF h(1), of 3] bitvec_refines_set [OF h(2), of 11] h(1) by simp
qed

end
