(* ===== verification/Validators.thy ===== *)
theory Validators
  imports BTreeMap BitVec
begin

text \<open>
  Validator sets and the verification of their signatures (\<^verbatim>\<open>types/src/validator_verifier.rs\<close>,
  \<^verbatim>\<open>types/src/aggregate_signature.rs\<close>, \<^verbatim>\<open>types/src/on_chain_config/validator_set.rs\<close>). The BLS scheme is an
  argument. The main result is that any two accepted multi-signatures share validators that hold more than a third
  of the voting power.
\<close>

section \<open>Signatures\<close>

text \<open>
  The BLS functions that are called: checking a signature of a message under a (possibly aggregated) key, aggregating
  signatures and keys, and checking an aggregate over different messages.
\<close>

record ('key, 'sig, 'msg) bls =
  verify_struct :: "'key \<Rightarrow> 'msg \<Rightarrow> 'sig \<Rightarrow> bool"
  aggregate_sigs :: "'sig list \<Rightarrow> 'sig option"
  aggregate_keys :: "'key list \<Rightarrow> 'key option"
  verify_aggregate :: "'msg list \<Rightarrow> 'key list \<Rightarrow> 'sig \<Rightarrow> bool"

record 'sig aggregate_signature =
  validator_bitmask :: bitvec
  sig :: "'sig option"

definition aggregate_empty :: "'sig aggregate_signature" where
  "aggregate_empty = \<lparr>validator_bitmask = bv_default, sig = None\<rparr>"

definition get_voter_addresses :: "'sig aggregate_signature \<Rightarrow> 'a list \<Rightarrow> 'a list" where
  "get_voter_addresses s validator_addresses =
     List.map_filter (\<lambda>(index, addr). if is_set (validator_bitmask s) (word_of_nat index) then Some addr else None)
       (enumerate 0 validator_addresses)"

definition get_num_voters :: "'sig aggregate_signature \<Rightarrow> nat" where
  "get_num_voters s = bv_count_ones (validator_bitmask s)"

type_synonym ('a, 'sig) partial_signatures = "('a, 'sig) btree_map"

definition remove_signature :: "('a::linorder, 'sig) partial_signatures \<Rightarrow> 'a \<Rightarrow> ('a, 'sig) partial_signatures" where
  "remove_signature ps validator = btm_remove validator ps"

definition add_signature :: "('a::linorder, 'sig) partial_signatures \<Rightarrow> 'a \<Rightarrow> 'sig \<Rightarrow> ('a, 'sig) partial_signatures" where
  "add_signature ps validator signature =
     (case btm_get ps validator of None \<Rightarrow> btm_insert validator signature ps | Some _ \<Rightarrow> ps)"

section \<open>The verifier\<close>

datatype verify_error =
    UnknownAuthor
  | TooLittleVotingPower u128 u128
  | EmptySignature
  | InvalidMultiSignature
  | InvalidAggregatedSignature
  | InconsistentBlockInfo
  | FailedToAggregatePubKey
  | FailedToAggregateSignature
  | FailedToVerifyMultiSignature
  | InvalidBitVec
  | FailedToVerifyAggregatedSignature

record ('a, 'key) consensus_info =
  address :: 'a
  public_key :: 'key
  voting_power :: u64

record ('a, 'key) validator_verifier =
  validator_infos :: "('a, 'key) consensus_info list"
  quorum_voting_power :: u128
  total_voting_power :: u128
  address_to_validator_index :: "'a \<Rightarrow> nat option"

definition u128_checked_add :: "u128 \<Rightarrow> u128 \<Rightarrow> u128 option" where
  "u128_checked_add a b = (if unat a + unat b < 2 ^ 128 then Some (a + b) else None)"

definition sum_voting_power :: "('a, 'key) consensus_info list \<Rightarrow> u128 outcome" where
  "sum_voting_power infos =
     foldl (\<lambda>sum x. out_bind sum (\<lambda>s. expect (u128_checked_add s (ucast (voting_power x))))) (Ret 0) infos"

definition build_index :: "('a, 'key) consensus_info list \<Rightarrow> u128 \<Rightarrow> u128 \<Rightarrow> ('a, 'key) validator_verifier" where
  "build_index infos quorum total_power =
     \<lparr>validator_infos = infos, quorum_voting_power = quorum, total_voting_power = total_power,
      address_to_validator_index = foldl (\<lambda>m (index, info). m(address info \<mapsto> index)) Map.empty (enumerate 0 infos)\<rparr>"

definition verifier_new :: "('a, 'key) consensus_info list \<Rightarrow> ('a, 'key) validator_verifier outcome" where
  "verifier_new infos =
     out_bind (sum_voting_power infos) (\<lambda>total_power.
     out_bind (if infos = [] then Ret 0
               else out_bind (word_mul total_power 2) (\<lambda>double. word_add (double div 3) 1)) (\<lambda>quorum.
       Ret (build_index infos quorum total_power)))"

definition new_with_quorum_voting_power ::
  "('a, 'key) consensus_info list \<Rightarrow> u128 \<Rightarrow> (string + ('a, 'key) validator_verifier) outcome" where
  "new_with_quorum_voting_power infos quorum =
     out_bind (sum_voting_power infos) (\<lambda>total_power.
       if quorum \<le> total_power then Ret (Inr (build_index infos quorum total_power))
       else Ret (Inl ''Quorum voting power is greater than the sum of all voting power of authors''))"

definition new_single :: "'a \<Rightarrow> 'key \<Rightarrow> ('a, 'key) validator_verifier outcome" where
  "new_single author key = verifier_new [\<lparr>address = author, public_key = key, voting_power = 1\<rparr>]"

definition verifier_len :: "('a, 'key) validator_verifier \<Rightarrow> nat" where
  "verifier_len v = length (validator_infos v)"

definition get_public_key :: "('a, 'key) validator_verifier \<Rightarrow> 'a \<Rightarrow> 'key option outcome" where
  "get_public_key v author =
     (case address_to_validator_index v author of
        None \<Rightarrow> Ret None
      | Some i \<Rightarrow> out_bind (index (validator_infos v) i) (\<lambda>info. Ret (Some (public_key info))))"

definition get_voting_power :: "('a, 'key) validator_verifier \<Rightarrow> 'a \<Rightarrow> u64 option outcome" where
  "get_voting_power v author =
     (case address_to_validator_index v author of
        None \<Rightarrow> Ret None
      | Some i \<Rightarrow> out_bind (index (validator_infos v) i) (\<lambda>info. Ret (Some (voting_power info))))"

definition ordered_account_addresses :: "('a, 'key) validator_verifier \<Rightarrow> 'a list" where
  "ordered_account_addresses v = map address (validator_infos v)"

definition verify_author :: "('key, 'sig, 'msg) bls \<Rightarrow> ('a, 'key) validator_verifier \<Rightarrow> 'a \<Rightarrow> 'msg \<Rightarrow> 'sig
    \<Rightarrow> (verify_error + unit) outcome" where
  "verify_author bls v author message signature =
     out_bind (get_public_key v author) (\<lambda>k. case k of
         None \<Rightarrow> Ret (Inl UnknownAuthor)
       | Some key \<Rightarrow> Ret (if verify_struct bls key message signature then Inr () else Inl InvalidMultiSignature))"

fun collect_signatures :: "('a \<Rightarrow> nat option) \<Rightarrow> ('a \<times> 'sig) list \<Rightarrow> bitvec \<Rightarrow> 'sig list
    \<Rightarrow> verify_error + bitvec \<times> 'sig list" where
  "collect_signatures idx [] masks sigs = Inr (masks, sigs)"
| "collect_signatures idx ((addr, s) # rest) masks sigs =
     (case idx addr of
        None \<Rightarrow> Inl UnknownAuthor
      | Some i \<Rightarrow> collect_signatures idx rest (bv_set masks (word_of_nat i)) (sigs @ [s]))"

definition aggregate_signatures :: "('key, 'sig, 'msg) bls \<Rightarrow> ('a::linorder, 'key) validator_verifier
    \<Rightarrow> ('a, 'sig) partial_signatures \<Rightarrow> verify_error + 'sig aggregate_signature" where
  "aggregate_signatures bls v ps =
     and_then (collect_signatures (address_to_validator_index v) ps
                 (with_num_bits (word_of_nat (verifier_len v))) []) (\<lambda>(masks, sigs).
       case aggregate_sigs bls sigs of
         None \<Rightarrow> Inl FailedToAggregateSignature
       | Some s \<Rightarrow> Inr \<lparr>validator_bitmask = masks, sig = Some s\<rparr>)"

definition check_num_of_voters :: "u16 \<Rightarrow> bitvec \<Rightarrow> verify_error + unit" where
  "check_num_of_voters num_validators bv =
     (if num_buckets bv \<noteq> required_buckets num_validators then Inl InvalidBitVec
      else case last_set_bit bv of
             None \<Rightarrow> Inr ()
           | Some last_bit \<Rightarrow> if last_bit \<ge> num_validators then Inl InvalidBitVec else Inr ())"

fun add_voting_power :: "('a, 'key) validator_verifier \<Rightarrow> 'a list \<Rightarrow> u128 \<Rightarrow> (verify_error + u128) outcome" where
  "add_voting_power v [] aggregated = Ret (Inr aggregated)"
| "add_voting_power v (a # authors) aggregated =
     out_bind (get_voting_power v a) (\<lambda>p. case p of
         Some w \<Rightarrow> out_bind (word_add aggregated (ucast w)) (add_voting_power v authors)
       | None \<Rightarrow> Ret (Inl UnknownAuthor))"

definition check_voting_power :: "('a, 'key) validator_verifier \<Rightarrow> 'a list \<Rightarrow> (verify_error + unit) outcome" where
  "check_voting_power v authors =
     out_try (add_voting_power v authors 0) (\<lambda>aggregated.
       if aggregated < quorum_voting_power v then Ret (Inl (TooLittleVotingPower aggregated (quorum_voting_power v)))
       else Ret (Inr ()))"

fun collect_voters :: "('a, 'key) consensus_info list \<Rightarrow> nat list \<Rightarrow> verify_error + ('a \<times> 'key) list" where
  "collect_voters infos [] = Inr []"
| "collect_voters infos (i # is) =
     (if i < length infos
      then and_then (collect_voters infos is) (\<lambda>rest. Inr ((address (infos ! i), public_key (infos ! i)) # rest))
      else Inl UnknownAuthor)"

definition verify_multi_signatures :: "('key, 'sig, 'msg) bls \<Rightarrow> ('a, 'key) validator_verifier \<Rightarrow> 'msg
    \<Rightarrow> 'sig aggregate_signature \<Rightarrow> (verify_error + unit) outcome" where
  "verify_multi_signatures bls v message multi_signature =
     out_try (Ret (check_num_of_voters (word_of_nat (verifier_len v)) (validator_bitmask multi_signature))) (\<lambda>_.
     out_try (Ret (collect_voters (validator_infos v) (iter_ones (validator_bitmask multi_signature)))) (\<lambda>voters.
     out_try (check_voting_power v (map fst voters)) (\<lambda>_.
       case sig multi_signature of
         None \<Rightarrow> Ret (Inl EmptySignature)
       | Some multi_sig \<Rightarrow>
           (case aggregate_keys bls (map snd voters) of
              None \<Rightarrow> Ret (Inl FailedToAggregatePubKey)
            | Some key \<Rightarrow> Ret (if verify_struct bls key message multi_sig then Inr () else Inl InvalidMultiSignature)))))"

definition verify_aggregate_signatures :: "('key, 'sig, 'msg) bls \<Rightarrow> ('a, 'key) validator_verifier \<Rightarrow> 'msg list
    \<Rightarrow> 'sig aggregate_signature \<Rightarrow> (verify_error + unit) outcome" where
  "verify_aggregate_signatures bls v messages aggregated_signature =
     out_try (Ret (check_num_of_voters (word_of_nat (verifier_len v)) (validator_bitmask aggregated_signature))) (\<lambda>_.
     out_try (Ret (collect_voters (validator_infos v) (iter_ones (validator_bitmask aggregated_signature)))) (\<lambda>voters.
     out_try (check_voting_power v (map fst voters)) (\<lambda>_.
       case sig aggregated_signature of
         None \<Rightarrow> Ret (Inl EmptySignature)
       | Some s \<Rightarrow> Ret (if verify_aggregate bls messages (map snd voters) s then Inr ()
                         else Inl InvalidAggregatedSignature))))"

section \<open>Validator sets\<close>

record ('a, 'key) validator_info =
  account_address :: 'a
  consensus_voting_power :: u64
  consensus_public_key :: 'key
  validator_index :: u64

record ('a, 'key) validator_set =
  active_validators :: "('a, 'key) validator_info list"
  pending_inactive :: "('a, 'key) validator_info list"
  pending_active :: "('a, 'key) validator_info list"

definition validator_set_new :: "('a, 'key) validator_info list \<Rightarrow> ('a, 'key) validator_set" where
  "validator_set_new payload = \<lparr>active_validators = payload, pending_inactive = [], pending_active = []\<rparr>"

definition set_payload :: "('a, 'key) validator_set \<Rightarrow> ('a, 'key) validator_info list" where
  "set_payload vs = active_validators vs @ pending_inactive vs"

definition num_validators :: "('a, 'key) validator_set \<Rightarrow> nat" where
  "num_validators vs = length (active_validators vs) + length (pending_inactive vs)"

definition info_of :: "('a, 'key) validator_info \<Rightarrow> ('a, 'key) consensus_info" where
  "info_of i = \<lparr>address = account_address i, public_key = consensus_public_key i, voting_power = consensus_voting_power i\<rparr>"

fun check_positions :: "('a, 'key) consensus_info list \<Rightarrow> ('a, 'key) validator_info list \<Rightarrow> unit outcome" where
  "check_positions infos [] = Ret ()"
| "check_positions infos (i # is) =
     out_bind (index infos (unat (validator_index i))) (\<lambda>info.
       if address info = account_address i then check_positions infos is else Panic)"

definition verifier_from_set :: "('a, 'key) validator_set \<Rightarrow> ('a, 'key) validator_verifier outcome" where
  "verifier_from_set vs =
     (let infos = map snd (btm_of_list (map (\<lambda>i. (validator_index i, info_of i)) (set_payload vs))) in
      out_bind (check_positions infos (set_payload vs)) (\<lambda>_. verifier_new infos))"

section \<open>Weighted quorums\<close>

text \<open>
  What the protocol relies on: if a quorum is more than two thirds of the power, two quorums share more than a third
  of it.
\<close>

locale weighted_quorum =
  fixes members :: "'v set" and weight :: "'v \<Rightarrow> nat" and quorum :: nat
  assumes finite_members: "finite members"
    and two_thirds: "2 * sum weight members < 3 * quorum"
begin

lemma quorums_intersect:
  assumes "P \<subseteq> members" and "Q \<subseteq> members" and "quorum \<le> sum weight P" and "quorum \<le> sum weight Q"
  shows "sum weight members < 3 * sum weight (P \<inter> Q)"
proof -
  have fin: "finite P" "finite Q" using assms(1,2) finite_members finite_subset by blast+
  have "sum weight P + sum weight Q = sum weight (P \<union> Q) + sum weight (P \<inter> Q)"
    using sum.union_inter [OF fin, of weight] by simp
  moreover have "sum weight (P \<union> Q) \<le> sum weight members" using assms(1,2) finite_members by (intro sum_mono2) auto
  ultimately show ?thesis using assms(3,4) two_thirds by linarith
qed

lemma honest_member:
  assumes "P \<subseteq> members" and "Q \<subseteq> members" and "quorum \<le> sum weight P" and "quorum \<le> sum weight Q"
    and "3 * sum weight F \<le> sum weight members" and "F \<subseteq> members"
  shows "\<exists>i\<in>P \<inter> Q. i \<notin> F"
proof (rule ccontr)
  assume "\<not> (\<exists>i\<in>P \<inter> Q. i \<notin> F)"
  then have "P \<inter> Q \<subseteq> F" by auto
  then have "sum weight (P \<inter> Q) \<le> sum weight F" using assms(6) finite_members by (intro sum_mono2) (auto intro: finite_subset)
  then show False using quorums_intersect [OF assms(1-4)] assms(5) by linarith
qed

end

text \<open>The voting power of a list of validators, and the quorum that \<open>verifier_new\<close> computes from it.\<close>

definition power_at :: "('a, 'key) consensus_info list \<Rightarrow> nat \<Rightarrow> nat" where
  "power_at infos i = unat (voting_power (infos ! i))"

definition power_sum :: "('a, 'key) consensus_info list \<Rightarrow> nat" where
  "power_sum infos = sum (power_at infos) {..<length infos}"

definition quorum_of :: "('a, 'key) consensus_info list \<Rightarrow> nat" where
  "quorum_of infos = power_sum infos * 2 div 3 + 1"

interpretation vq: weighted_quorum "{..<length infos}" "power_at infos" "quorum_of infos" for infos
proof
  have "power_sum infos * 2 < 3 * (power_sum infos * 2 div 3 + 1)" by (simp add: mult.commute)
  then show "2 * sum (power_at infos) {..<length infos} < 3 * quorum_of infos"
    by (simp add: quorum_of_def power_sum_def mult.commute)
qed simp

section \<open>The verifier counts voting power correctly\<close>

lemma power_sum_list: "power_sum infos = sum_list (map (\<lambda>i. unat (voting_power i)) infos)"
  by (simp add: power_sum_def power_at_def sum_list_sum_nth atLeast0LessThan)

lemma power_sum_bound: "power_sum infos \<le> length infos * 2 ^ 64"
proof -
  have "unat (voting_power (infos ! i)) \<le> 2 ^ 64" for i using unsigned_less [of "voting_power (infos ! i)", where 'a = nat] by simp
  then show ?thesis using sum_bounded_above [of "{..<length infos}" "power_at infos" "2 ^ 64"]
    by (simp add: power_sum_def power_at_def)
qed

lemma unat_ucast_power: "unat (ucast (p :: u64) :: u128) = unat p"
  by (simp add: unsigned_ucast_eq take_bit_nat_eq_self less_trans [OF unsigned_less])

lemma ucast_power: "(ucast (p :: u64) :: u128) = word_of_nat (unat p)"
  by (simp only: of_nat_unat)

lemma sum_voting_power_ok:
  assumes "power_sum infos < 2 ^ 128"
  shows "sum_voting_power infos = Ret (word_of_nat (power_sum infos))"
proof -
  have "n + sum_list (map (\<lambda>i. unat (voting_power i)) infos) < 2 ^ 128 \<Longrightarrow>
    foldl (\<lambda>sum x. out_bind sum (\<lambda>s. expect (u128_checked_add s (ucast (voting_power x))))) (Ret (word_of_nat n)) infos
      = Ret (word_of_nat (n + sum_list (map (\<lambda>i. unat (voting_power i)) infos)))" for n
  proof (induction infos arbitrary: n)
    case (Cons x infos)
    have u: "unat (word_of_nat n :: u128) = n" using Cons.prems by (simp add: unsigned_of_nat take_bit_nat_eq_self)
    have "word_of_nat n + ucast (voting_power x) = (word_of_nat (n + unat (voting_power x)) :: u128)" by (simp add: ucast_power)
    then have "u128_checked_add (word_of_nat n) (ucast (voting_power x)) = Some (word_of_nat (n + unat (voting_power x)))"
      unfolding u128_checked_add_def unat_ucast_power u using Cons.prems by simp
    then show ?case using Cons.IH [of "n + unat (voting_power x)"] Cons.prems by (simp add: expect_def add.assoc)
  qed simp
  from this [of 0] show ?thesis using assms by (simp add: sum_voting_power_def power_sum_list)
qed

definition index_map :: "('a, 'key) consensus_info list \<Rightarrow> 'a \<Rightarrow> nat option" where
  "index_map infos = foldl (\<lambda>m (index, info). m(address info \<mapsto> index)) Map.empty (enumerate 0 infos)"

lemma index_map_snoc: "index_map (infos @ [x]) = (index_map infos)(address x \<mapsto> length infos)"
  by (simp add: index_map_def enumerate_append_eq)

lemma index_map_sound: "index_map infos a = Some i \<Longrightarrow> i < length infos \<and> address (infos ! i) = a"
  by (induction infos rule: rev_induct)
    (auto simp: index_map_snoc nth_append less_Suc_eq index_map_def [of "[]"] split: if_splits)

lemma index_map_complete: "i < length infos \<Longrightarrow> index_map infos (address (infos ! i)) \<noteq> None"
  by (induction infos rule: rev_induct) (auto simp: index_map_snoc nth_append less_Suc_eq)

lemma index_map_distinct:
  assumes "distinct (map address infos)" and "i < length infos"
  shows "index_map infos (address (infos ! i)) = Some i"
proof -
  obtain j where j: "index_map infos (address (infos ! i)) = Some j" using index_map_complete [OF assms(2)] by blast
  have "j < length infos" "address (infos ! j) = address (infos ! i)" using index_map_sound [OF j] by simp_all
  then have "j = i" using nth_eq_iff_index_eq [OF assms(1), of j i] assms(2) by simp
  with j show ?thesis by simp
qed

text \<open>What every verifier built from a list of validators satisfies.\<close>

definition wf_verifier :: "('a, 'key) validator_verifier \<Rightarrow> bool" where
  "wf_verifier v \<longleftrightarrow> address_to_validator_index v = index_map (validator_infos v)
     \<and> total_voting_power v = word_of_nat (power_sum (validator_infos v))"

lemma build_index_wf: "total_power = word_of_nat (power_sum infos) \<Longrightarrow> wf_verifier (build_index infos quorum total_power)"
  by (simp add: wf_verifier_def build_index_def index_map_def)

lemma get_voting_power_at:
  assumes "wf_verifier v" and "distinct (map address (validator_infos v))" and "i < length (validator_infos v)"
  shows "get_voting_power v (address (validator_infos v ! i)) = Ret (Some (voting_power (validator_infos v ! i)))"
  using assms index_map_distinct [OF assms(2,3)] by (simp add: get_voting_power_def wf_verifier_def index_def)

lemma get_voting_power_never_panics: "wf_verifier v \<Longrightarrow> get_voting_power v a \<noteq> Panic"
  by (auto simp: get_voting_power_def wf_verifier_def index_def split: option.splits dest: index_map_sound)

lemma u128_add_nat: "m + n < 2 ^ 128 \<Longrightarrow> word_add (word_of_nat m) (word_of_nat n) = Ret (word_of_nat (m + n) :: u128)"
  by (simp add: word_add_def unat_of_nat take_bit_nat_eq_self)

lemma add_voting_power_sum:
  assumes "wf_verifier v" and "distinct (map address (validator_infos v))"
  shows "\<forall>i\<in>set is. i < length (validator_infos v) \<Longrightarrow> acc + sum_list (map (power_at (validator_infos v)) is) < 2 ^ 128 \<Longrightarrow>
    add_voting_power v (map (\<lambda>i. address (validator_infos v ! i)) is) (word_of_nat acc)
      = Ret (Inr (word_of_nat (acc + sum_list (map (power_at (validator_infos v)) is))))"
proof (induction "is" arbitrary: acc)
  case (Cons i "is")
  have "word_add (word_of_nat acc) (ucast (voting_power (validator_infos v ! i)))
    = Ret (word_of_nat (acc + power_at (validator_infos v) i) :: u128)"
    unfolding ucast_power power_at_def [symmetric] by (rule u128_add_nat) (use Cons.prems(2) in simp)
  with Cons.IH [of "acc + power_at (validator_infos v) i"] Cons.prems show ?case
    by (simp add: get_voting_power_at [OF assms] add.assoc del: of_nat_add)
qed simp

lemma collect_voters_ok:
  "collect_voters infos is = Inr voters \<Longrightarrow>
   (\<forall>i\<in>set is. i < length infos) \<and> voters = map (\<lambda>i. (address (infos ! i), public_key (infos ! i))) is"
  by (induction "is" arbitrary: voters) (auto simp: and_then_def split: if_splits sum.splits)

lemma required_buckets_bound: "required_buckets n \<le> MAX_BUCKETS"
proof -
  have "unat (n - 1) < 2 ^ 16" using unsigned_less [of "n - 1", where 'a = nat] by simp
  then have "unat (n - 1) div 8 < 8192" by (intro less_mult_imp_div_less) simp
  then show ?thesis by (simp add: required_buckets_def MAX_BUCKETS_def BUCKET_SIZE_def)
qed

lemma iter_ones_positions:
  assumes "length bv \<le> MAX_BUCKETS"
  shows "set (iter_ones bv) = bv_positions bv" and "distinct (iter_ones bv)"
  unfolding iter_ones_bits [OF assms] using bit_at_bound [of bv] by (auto simp: bv_positions_def)

text \<open>What an accepted multi-signature establishes.\<close>

lemma multi_signature_quorum:
  assumes v: "wf_verifier v" and d: "distinct (map address (validator_infos v))" and p: "power_sum (validator_infos v) < 2 ^ 128"
    and ok: "verify_multi_signatures bls v m s = Ret (Inr ())"
  shows "bv_positions (validator_bitmask s) \<subseteq> {..<length (validator_infos v)}"
    and "unat (quorum_voting_power v) \<le> sum (power_at (validator_infos v)) (bv_positions (validator_bitmask s))"
proof -
  let ?is = "iter_ones (validator_bitmask s)" and ?infos = "validator_infos v"
  obtain voters where n: "check_num_of_voters (word_of_nat (verifier_len v)) (validator_bitmask s) = Inr ()"
    and c: "collect_voters ?infos ?is = Inr voters" and w: "check_voting_power v (map fst voters) = Ret (Inr ())"
    using ok unfolding verify_multi_signatures_def by (auto simp: out_try_ok)
  have "length (validator_bitmask s) \<le> MAX_BUCKETS"
    using n required_buckets_bound by (auto simp: check_num_of_voters_def num_buckets_def split: if_splits)
  note it = iter_ones_positions [OF this]
  note vs = collect_voters_ok [OF c]
  show sub: "bv_positions (validator_bitmask s) \<subseteq> {..<length ?infos}" using vs it(1) by auto
  let ?sum = "sum (power_at ?infos) (bv_positions (validator_bitmask s))"
  have l: "sum_list (map (power_at ?infos) ?is) = ?sum"
    using sum_list_distinct_conv_sum_set [OF it(2), of "power_at ?infos"] it(1) by simp
  have "?sum \<le> power_sum ?infos" unfolding power_sum_def by (rule sum_mono2 [OF _ sub]) simp_all
  then have u: "unat (word_of_nat ?sum :: u128) = ?sum" using p by (simp add: unsigned_of_nat take_bit_nat_eq_self del: of_nat_sum)
  have "add_voting_power v (map fst voters) 0 = Ret (Inr (word_of_nat ?sum))"
    using add_voting_power_sum [OF v d, of ?is 0] vs l \<open>?sum \<le> power_sum ?infos\<close> p by (simp add: comp_def del: of_nat_sum)
  then have "\<not> word_of_nat ?sum < quorum_voting_power v" using w by (auto simp: check_voting_power_def split: if_splits)
  then show "unat (quorum_voting_power v) \<le> ?sum" using u by (simp add: word_less_nat_alt)
qed

lemma verifier_new_ok:
  assumes "length infos \<le> 65535"
  shows "verifier_new infos = Ret (build_index infos (if infos = [] then 0 else word_of_nat (quorum_of infos)) (word_of_nat (power_sum infos)))"
    and "power_sum infos < 2 ^ 81" and "quorum_of infos < 2 ^ 82"
proof -
  have "length infos * 2 ^ 64 \<le> 65535 * 2 ^ 64" using assms by (intro mult_le_mono1)
  also have "\<dots> < (2::nat) ^ 81" by simp
  finally show p: "power_sum infos < 2 ^ 81" using power_sum_bound [of infos] by (rule le_less_trans [rotated])
  then show "quorum_of infos < 2 ^ 82" by (simp add: quorum_of_def)
  have "unat (word_of_nat (power_sum infos * 2) :: u128) = power_sum infos * 2"
    using p by (simp add: unsigned_of_nat take_bit_nat_eq_self del: of_nat_mult)
  then have "unat (word_of_nat (power_sum infos) * 2 :: u128) = power_sum infos * 2" by simp
  then have "unat (word_of_nat (power_sum infos) * 2 div 3 :: u128) = power_sum infos * 2 div 3" by (simp add: unat_div_distrib)
  then have half: "(word_of_nat (power_sum infos) * 2 div 3 :: u128) = word_of_nat (power_sum infos * 2 div 3)"
    by (metis of_nat_unat ucast_id)
  have mul: "word_mul (word_of_nat (power_sum infos)) 2 = Ret (word_of_nat (power_sum infos) * 2 :: u128)"
    using p by (simp add: word_mul_def unsigned_of_nat take_bit_nat_eq_self)
  have "power_sum infos * 2 div 3 + 1 < 2 ^ 128" using p by simp
  from u128_add_nat [OF this] half
  have add: "word_add (word_of_nat (power_sum infos) * 2 div 3) 1 = Ret (word_of_nat (quorum_of infos) :: u128)"
    unfolding quorum_of_def by (simp del: of_nat_add of_nat_div)
  show "verifier_new infos = Ret (build_index infos (if infos = [] then 0 else word_of_nat (quorum_of infos)) (word_of_nat (power_sum infos)))"
    using sum_voting_power_ok [of infos] p mul add by (simp add: verifier_new_def quorum_of_def add.commute)
qed

lemma quorum_overlap:
  assumes "verifier_new infos = Ret v" and "infos \<noteq> []" and "length infos \<le> 65535" and "distinct (map address infos)"
    and "verify_multi_signatures bls v m s = Ret (Inr ())" and "verify_multi_signatures bls v m' s' = Ret (Inr ())"
  shows "power_sum infos < 3 * sum (power_at infos) (bv_positions (validator_bitmask s) \<inter> bv_positions (validator_bitmask s'))"
    and "\<lbrakk>faulty \<subseteq> {..<length infos}; 3 * sum (power_at infos) faulty \<le> power_sum infos\<rbrakk>
      \<Longrightarrow> \<exists>i<length infos. i \<in> bv_positions (validator_bitmask s) \<and> i \<in> bv_positions (validator_bitmask s') \<and> i \<notin> faulty"
proof -
  note n = verifier_new_ok [OF assms(3)]
  have v: "v = build_index infos (word_of_nat (quorum_of infos)) (word_of_nat (power_sum infos))" using assms(1,2) n(1) by simp
  then have i: "validator_infos v = infos" "wf_verifier v" by (simp_all add: build_index_wf) (simp add: build_index_def)
  have q: "unat (quorum_voting_power v) = quorum_of infos"
    using n(3) by (simp add: v build_index_def unsigned_of_nat take_bit_nat_eq_self)
  have p: "power_sum infos < 2 ^ 128" using n(2) by simp
  note m = multi_signature_quorum [OF i(2), unfolded i q, OF assms(4) p]
  note a = m(1) [OF assms(5)] m(1) [OF assms(6)] m(2) [OF assms(5)] m(2) [OF assms(6)]
  show "power_sum infos < 3 * sum (power_at infos) (bv_positions (validator_bitmask s) \<inter> bv_positions (validator_bitmask s'))"
    using vq.quorums_intersect [OF a] unfolding power_sum_def .
  show "\<exists>i<length infos. i \<in> bv_positions (validator_bitmask s) \<and> i \<in> bv_positions (validator_bitmask s') \<and> i \<notin> faulty"
    if "faulty \<subseteq> {..<length infos}" "3 * sum (power_at infos) faulty \<le> power_sum infos"
    using vq.honest_member [OF a that(2) [unfolded power_sum_def] that(1)] a(1) by blast
qed

text \<open>
  C6. Any two multi-signatures accepted by the verifier of a validator set, on whatever messages, were made by
  validators in common that hold more than a third of the total voting power. So as long as the faulty validators
  hold at most a third, some honest validator signed both messages.
\<close>
theorem quorum_intersection:
  assumes "verifier_new infos = Ret v" and "infos \<noteq> []" and "length infos \<le> 65535" and "distinct (map address infos)"
    and "verify_multi_signatures bls v m s = Ret (Inr ())" and "verify_multi_signatures bls v m' s' = Ret (Inr ())"
    and "faulty \<subseteq> {..<length infos}" and "3 * sum (power_at infos) faulty \<le> power_sum infos"
  shows "power_sum infos < 3 * sum (power_at infos) (bv_positions (validator_bitmask s) \<inter> bv_positions (validator_bitmask s'))
    \<and> (\<exists>i. i \<in> bv_positions (validator_bitmask s) \<and> i \<in> bv_positions (validator_bitmask s') \<and> i \<notin> faulty)"
  using quorum_overlap(1) [OF assms(1-6)] quorum_overlap(2) [OF assms] by blast

text \<open>
  C28. Constructing a verifier for at most 65535 validators does not panic, whatever their voting powers, and gives a
  well-formed verifier: the index maps each known address to a position holding it, looking up the voting power of
  any address does not panic, the total is the sum of the powers, and the quorum is more than two thirds of it.
\<close>
theorem verifier_new_wf:
  assumes "length infos \<le> 65535" and "infos \<noteq> []"
  shows "\<exists>v. verifier_new infos = Ret v \<and> wf_verifier v \<and> validator_infos v = infos
    \<and> unat (total_voting_power v) = power_sum infos
    \<and> 2 * unat (total_voting_power v) < 3 * unat (quorum_voting_power v)
    \<and> 3 * unat (quorum_voting_power v) \<le> 2 * unat (total_voting_power v) + 3
    \<and> (\<forall>a. get_voting_power v a \<noteq> Panic)"
proof -
  note n = verifier_new_ok [OF assms(1)]
  let ?v = "build_index infos (word_of_nat (quorum_of infos)) (word_of_nat (power_sum infos))"
  have w: "wf_verifier ?v" by (simp add: build_index_wf)
  have t: "unat (total_voting_power ?v) = power_sum infos" "unat (quorum_voting_power ?v) = quorum_of infos"
    using n(2,3) by (simp_all add: build_index_def unsigned_of_nat take_bit_nat_eq_self)
  have "2 * power_sum infos < 3 * quorum_of infos" "3 * quorum_of infos \<le> 2 * power_sum infos + 3"
    using div_mult_mod_eq [of "power_sum infos * 2" 3] mod_less_divisor [of 3 "power_sum infos * 2"]
    unfolding quorum_of_def by simp_all
  then show ?thesis using n(1) assms(2) w t get_voting_power_never_panics [OF w]
    by (intro exI [of _ ?v]) (simp add: build_index_def)
qed

text \<open>A scheme in which a signature is the list of the keys and the message it was made for.\<close>

definition list_bls :: "(nat list, nat list \<times> nat, nat) bls" where
  "list_bls = \<lparr>verify_struct = (\<lambda>k m s. s = (k, m)), aggregate_sigs = (\<lambda>sigs. case sigs of [] \<Rightarrow> None | s # _ \<Rightarrow> Some (concat (map fst sigs), snd s)),
     aggregate_keys = (\<lambda>keys. if keys = [] then None else Some (concat keys)), verify_aggregate = (\<lambda>ms ks s. False)\<rparr>"

definition four_infos :: "(nat, nat list) consensus_info list" where
  "four_infos = map (\<lambda>i. \<lparr>address = i, public_key = [i], voting_power = 10\<rparr>) [2, 3, 4, 5]"

theorem verifier_new_wf_witness:
  "length four_infos \<le> 65535 \<and> four_infos \<noteq> [] \<and> power_sum four_infos = 40
   \<and> (\<exists>v. verifier_new four_infos = Ret v \<and> wf_verifier v \<and> unat (total_voting_power v) = 40)"
proof -
  have h: "length four_infos \<le> 65535" "four_infos \<noteq> []" by (simp_all add: four_infos_def)
  have "power_sum four_infos = 40" by (simp add: power_sum_list four_infos_def)
  then show ?thesis using verifier_new_wf [OF h] h by auto
qed

theorem quorum_intersection_witness:
  "\<exists>v. verifier_new four_infos = Ret v
     \<and> verify_multi_signatures list_bls v 7 \<lparr>validator_bitmask = [0b11100000], sig = Some ([2, 3, 4], 7)\<rparr> = Ret (Inr ())
     \<and> verify_multi_signatures list_bls v 8 \<lparr>validator_bitmask = [0b01110000], sig = Some ([3, 4, 5], 8)\<rparr> = Ret (Inr ())
     \<and> power_sum four_infos < 3 * sum (power_at four_infos) (bv_positions [0b11100000] \<inter> bv_positions [0b01110000])"
proof -
  let ?v = "build_index four_infos 27 40"
  have l: "length four_infos \<le> 65535" "four_infos \<noteq> []" by (simp_all add: four_infos_def)
  have "power_sum four_infos = 40" by (simp add: power_sum_list four_infos_def)
  then have v: "verifier_new four_infos = Ret ?v" using verifier_new_ok(1) [OF l(1)] l(2) by (simp add: quorum_of_def)
  let ?s = "\<lparr>validator_bitmask = [0b11100000], sig = Some ([2, 3, 4], 7)\<rparr>"
  let ?s' = "\<lparr>validator_bitmask = [0b01110000], sig = Some ([3, 4, 5], 8)\<rparr>"
  have h: "verify_multi_signatures list_bls ?v 7 ?s = Ret (Inr ())" "verify_multi_signatures list_bls ?v 8 ?s' = Ret (Inr ())"
    by code_simp+
  have i: "four_infos \<noteq> []" "length four_infos \<le> 65535" "distinct (map address four_infos)" by (simp_all add: four_infos_def)
  have f: "{} \<subseteq> {..<length four_infos}" "3 * sum (power_at four_infos) {} \<le> power_sum four_infos" by simp_all
  show ?thesis using quorum_intersection [OF v i h f] v h by (intro exI [of _ ?v]) simp
qed

end
