(* ===== verification/Ledger.thy ===== *)
theory Ledger
  imports Validators
begin

text \<open>
  Block infos, ledger infos and epoch states (\<^verbatim>\<open>types/src/block_info.rs\<close>, \<^verbatim>\<open>types/src/ledger_info.rs\<close>,
  \<^verbatim>\<open>types/src/epoch_state.rs\<close>). Hash values are opaque here; the zero hash and the placeholder are arguments.
\<close>

section \<open>Epochs and blocks\<close>

record ('a, 'key) epoch_state =
  es_epoch :: u64
  es_verifier :: "('a, 'key) validator_verifier"

definition epoch_state_empty :: "('a, 'key) epoch_state outcome" where
  "epoch_state_empty = out_bind (verifier_new []) (\<lambda>v. Ret \<lparr>es_epoch = 0, es_verifier = v\<rparr>)"

definition GENESIS_EPOCH :: u64 where
  "GENESIS_EPOCH = 0"

definition GENESIS_ROUND :: u64 where
  "GENESIS_ROUND = 0"

definition GENESIS_VERSION :: u64 where
  "GENESIS_VERSION = 0"

definition GENESIS_TIMESTAMP_USECS :: u64 where
  "GENESIS_TIMESTAMP_USECS = 0"

record ('a, 'key, 'h) block_info =
  bi_epoch :: u64
  bi_round :: u64
  bi_id :: 'h
  executed_state_id :: 'h
  bi_version :: u64
  bi_timestamp_usecs :: u64
  bi_next_epoch_state :: "('a, 'key) epoch_state option"

definition block_info_empty :: "'h \<Rightarrow> ('a, 'key, 'h) block_info" where
  "block_info_empty zero =
     \<lparr>bi_epoch = 0, bi_round = 0, bi_id = zero, executed_state_id = zero, bi_version = 0, bi_timestamp_usecs = 0,
      bi_next_epoch_state = None\<rparr>"

definition block_info_genesis :: "'h \<Rightarrow> 'h \<Rightarrow> ('a, 'key) validator_set \<Rightarrow> ('a, 'key, 'h) block_info outcome" where
  "block_info_genesis zero genesis_state_root_hash vs =
     out_bind (verifier_from_set vs) (\<lambda>v. Ret
       \<lparr>bi_epoch = GENESIS_EPOCH, bi_round = GENESIS_ROUND, bi_id = zero, executed_state_id = genesis_state_root_hash,
        bi_version = GENESIS_VERSION, bi_timestamp_usecs = GENESIS_TIMESTAMP_USECS,
        bi_next_epoch_state = Some \<lparr>es_epoch = 1, es_verifier = v\<rparr>\<rparr>)"

definition bi_next_block_epoch :: "('a, 'key, 'h) block_info \<Rightarrow> u64" where
  "bi_next_block_epoch b = (case bi_next_epoch_state b of None \<Rightarrow> bi_epoch b | Some e \<Rightarrow> es_epoch e)"

definition has_reconfiguration :: "('a, 'key, 'h) block_info \<Rightarrow> bool" where
  "has_reconfiguration b \<longleftrightarrow> bi_next_epoch_state b \<noteq> None"

definition allow_timestamp_change :: "('a, 'key, 'h) block_info \<Rightarrow> u64 \<Rightarrow> bool" where
  "allow_timestamp_change b timestamp \<longleftrightarrow> has_reconfiguration b \<and> bi_timestamp_usecs b \<ge> timestamp"

definition change_timestamp :: "('a, 'key, 'h) block_info \<Rightarrow> u64 \<Rightarrow> ('a, 'key, 'h) block_info outcome" where
  "change_timestamp b timestamp = assert_that (allow_timestamp_change b timestamp) (b\<lparr>bi_timestamp_usecs := timestamp\<rparr>)"

definition match_ordered_only :: "('a, 'key, 'h) block_info \<Rightarrow> ('a, 'key, 'h) block_info \<Rightarrow> bool" where
  "match_ordered_only b executed \<longleftrightarrow>
     bi_epoch b = bi_epoch executed \<and> bi_round b = bi_round executed \<and> bi_id b = bi_id executed
     \<and> (bi_timestamp_usecs b = bi_timestamp_usecs executed
        \<or> bi_timestamp_usecs b > bi_timestamp_usecs executed \<and> has_reconfiguration executed)"

definition is_ordered_only :: "'h \<Rightarrow> 'h \<Rightarrow> ('a, 'key, 'h) block_info \<Rightarrow> bool" where
  "is_ordered_only zero placeholder b \<longleftrightarrow>
     b \<noteq> block_info_empty zero \<and> bi_next_epoch_state b = None \<and> executed_state_id b = placeholder \<and> bi_version b = 0"

section \<open>Ledger infos\<close>

record ('a, 'key, 'h) ledger_info =
  commit_info :: "('a, 'key, 'h) block_info"
  consensus_data_hash :: 'h

definition ledger_info_genesis :: "'h \<Rightarrow> 'h \<Rightarrow> ('a, 'key) validator_set \<Rightarrow> ('a, 'key, 'h) ledger_info outcome" where
  "ledger_info_genesis zero genesis_state_root_hash vs =
     out_bind (block_info_genesis zero genesis_state_root_hash vs) (\<lambda>b.
       Ret \<lparr>commit_info = b, consensus_data_hash = zero\<rparr>)"

definition li_epoch :: "('a, 'key, 'h) ledger_info \<Rightarrow> u64" where
  "li_epoch li = bi_epoch (commit_info li)"

definition next_block_epoch :: "('a, 'key, 'h) ledger_info \<Rightarrow> u64" where
  "next_block_epoch li = bi_next_block_epoch (commit_info li)"

definition transaction_accumulator_hash :: "('a, 'key, 'h) ledger_info \<Rightarrow> 'h" where
  "transaction_accumulator_hash li = executed_state_id (commit_info li)"

definition li_version :: "('a, 'key, 'h) ledger_info \<Rightarrow> u64" where
  "li_version li = bi_version (commit_info li)"

definition timestamp_usecs :: "('a, 'key, 'h) ledger_info \<Rightarrow> u64" where
  "timestamp_usecs li = bi_timestamp_usecs (commit_info li)"

definition next_epoch_state :: "('a, 'key, 'h) ledger_info \<Rightarrow> ('a, 'key) epoch_state option" where
  "next_epoch_state li = bi_next_epoch_state (commit_info li)"

definition ends_epoch :: "('a, 'key, 'h) ledger_info \<Rightarrow> bool" where
  "ends_epoch li \<longleftrightarrow> next_epoch_state li \<noteq> None"

definition set_consensus_data_hash :: "('a, 'key, 'h) ledger_info \<Rightarrow> 'h \<Rightarrow> ('a, 'key, 'h) ledger_info" where
  "set_consensus_data_hash li h = li\<lparr>consensus_data_hash := h\<rparr>"

record ('a, 'key, 'h, 'sig) ledger_info_with_sigs =
  ledger_info :: "('a, 'key, 'h) ledger_info"
  signatures :: "'sig aggregate_signature"

definition li_sigs_genesis :: "'h \<Rightarrow> 'h \<Rightarrow> ('a, 'key) validator_set \<Rightarrow> ('a, 'key, 'h, 'sig) ledger_info_with_sigs outcome" where
  "li_sigs_genesis zero genesis_state_root_hash vs =
     out_bind (ledger_info_genesis zero genesis_state_root_hash vs) (\<lambda>li.
       Ret \<lparr>ledger_info = li, signatures = aggregate_empty\<rparr>)"

definition get_voters :: "('a, 'key, 'h, 'sig) ledger_info_with_sigs \<Rightarrow> 'a list \<Rightarrow> 'a list" where
  "get_voters li validator_addresses = get_voter_addresses (signatures li) validator_addresses"

definition verify_signatures :: "('key, 'sig, ('a, 'key, 'h) ledger_info) bls \<Rightarrow> ('a, 'key) validator_verifier
    \<Rightarrow> ('a, 'key, 'h, 'sig) ledger_info_with_sigs \<Rightarrow> (verify_error + unit) outcome" where
  "verify_signatures bls v li = verify_multi_signatures bls v (ledger_info li) (signatures li)"

definition li_check_voting_power :: "('a, 'key) validator_verifier \<Rightarrow> ('a, 'key, 'h, 'sig) ledger_info_with_sigs
    \<Rightarrow> (verify_error + unit) outcome" where
  "li_check_voting_power v li = check_voting_power v (get_voters li (ordered_account_addresses v))"

record ('a, 'key, 'h, 'sig) ledger_info_with_partial_sigs =
  partial_ledger_info :: "('a, 'key, 'h) ledger_info"
  partial_sigs :: "('a, 'sig) partial_signatures"

definition li_remove_signature :: "('a::linorder, 'key, 'h, 'sig) ledger_info_with_partial_sigs \<Rightarrow> 'a
    \<Rightarrow> ('a, 'key, 'h, 'sig) ledger_info_with_partial_sigs" where
  "li_remove_signature li validator = li\<lparr>partial_sigs := remove_signature (partial_sigs li) validator\<rparr>"

definition li_add_signature :: "('a::linorder, 'key, 'h, 'sig) ledger_info_with_partial_sigs \<Rightarrow> 'a \<Rightarrow> 'sig
    \<Rightarrow> ('a, 'key, 'h, 'sig) ledger_info_with_partial_sigs" where
  "li_add_signature li validator signature = li\<lparr>partial_sigs := add_signature (partial_sigs li) validator signature\<rparr>"

definition li_aggregate_signatures :: "('key, 'sig, ('a::linorder, 'key, 'h) ledger_info) bls \<Rightarrow> ('a, 'key) validator_verifier
    \<Rightarrow> ('a, 'key, 'h, 'sig) ledger_info_with_partial_sigs \<Rightarrow> verify_error + ('a, 'key, 'h, 'sig) ledger_info_with_sigs" where
  "li_aggregate_signatures bls v li =
     and_then (aggregate_signatures bls v (partial_sigs li)) (\<lambda>s.
       Inr \<lparr>ledger_info = partial_ledger_info li, signatures = s\<rparr>)"

section \<open>Errors\<close>

text \<open>\<^verbatim>\<open>anyhow::Error\<close>: a message, or a wrapped verification error.\<close>

datatype anyhow = Anyhow string | VerifyFailed verify_error

definition es_verify :: "('key, 'sig, ('a, 'key, 'h) ledger_info) bls \<Rightarrow> ('a, 'key) epoch_state
    \<Rightarrow> ('a, 'key, 'h, 'sig) ledger_info_with_sigs \<Rightarrow> (anyhow + unit) outcome" where
  "es_verify bls es li =
     (if es_epoch es = li_epoch (ledger_info li)
      then out_bind (verify_signatures bls (es_verifier es) li) (\<lambda>r. Ret (map_err VerifyFailed r))
      else Ret (Inl (Anyhow ''LedgerInfo has unexpected epoch'')))"

definition es_epoch_change_verification_required :: "('a, 'key) epoch_state \<Rightarrow> u64 \<Rightarrow> bool" where
  "es_epoch_change_verification_required es epoch \<longleftrightarrow> es_epoch es < epoch"

definition es_is_ledger_info_stale :: "('a, 'key) epoch_state \<Rightarrow> ('a, 'key, 'h) ledger_info \<Rightarrow> bool" where
  "es_is_ledger_info_stale es li \<longleftrightarrow> li_epoch li < es_epoch es"

end
