(* ===== verification/MerkleProof.thy ===== *)
theory MerkleProof
  imports Consistency Ledger
begin

text \<open>
  The proofs of \<^verbatim>\<open>types/src/proof/definition.rs\<close> and \<^verbatim>\<open>types/src/proof/mod.rs\<close> that are about
  accumulators: inclusion of a leaf, and consistency of two accumulators. The hash of an
  inner node \<open>nh\<close> and the placeholder \<open>ph\<close> are arguments. The theorems say what an accepted proof shows about the
  leaves of the accumulator with the trusted root hash.
\<close>

section \<open>Inclusion in an accumulator\<close>

record 'h accumulator_proof =
  ap_siblings :: "'h list"

fun ap_step :: "('h \<Rightarrow> 'h \<Rightarrow> 'h) \<Rightarrow> 'h \<times> u64 \<Rightarrow> 'h \<Rightarrow> 'h \<times> u64" where
  "ap_step nh (hash, idx) sibling_hash =
     (if idx mod 2 = 0 then nh hash sibling_hash else nh sibling_hash hash, idx div 2)"

definition ap_verify :: "('h \<Rightarrow> 'h \<Rightarrow> 'h) \<Rightarrow> 'h accumulator_proof \<Rightarrow> 'h \<Rightarrow> 'h \<Rightarrow> u64 \<Rightarrow> string + unit" where
  "ap_verify nh proof expected_root_hash element_hash element_index =
     (if length (ap_siblings proof) \<le> MAX_ACCUMULATOR_PROOF_DEPTH
      then let actual_root_hash = fst (foldl (ap_step nh) (element_hash, element_index) (ap_siblings proof)) in
           if actual_root_hash = expected_root_hash then Inr () else Inl ''Root hashes do not match.''
      else Inl ''Accumulator proof has more than 63 siblings.'')"

text \<open>\<open>hash_info\<close> is the hash of a transaction info.\<close>

definition verify_transaction_info :: "('h \<Rightarrow> 'h \<Rightarrow> 'h) \<Rightarrow> ('i \<Rightarrow> 'h) \<Rightarrow> ('a, 'key, 'h) ledger_info \<Rightarrow> u64 \<Rightarrow> 'i
    \<Rightarrow> 'h accumulator_proof \<Rightarrow> string + unit" where
  "verify_transaction_info nh hash_info li transaction_version transaction_info proof =
     (if transaction_version \<le> li_version li
      then ap_verify nh proof (transaction_accumulator_hash li) (hash_info transaction_info) transaction_version
      else Inl ''Transaction version is newer than LedgerInfo version.'')"

record ('i, 'h) transaction_info_with_proof =
  ledger_info_to_transaction_info_proof :: "'h accumulator_proof"
  transaction_info :: 'i

definition tip_verify :: "('h \<Rightarrow> 'h \<Rightarrow> 'h) \<Rightarrow> ('i \<Rightarrow> 'h) \<Rightarrow> ('i, 'h) transaction_info_with_proof \<Rightarrow> ('a, 'key, 'h) ledger_info
    \<Rightarrow> u64 \<Rightarrow> string + unit" where
  "tip_verify nh hash_info p li transaction_version =
     verify_transaction_info nh hash_info li transaction_version (transaction_info p) (ledger_info_to_transaction_info_proof p)"

section \<open>Consistency of accumulators\<close>

record 'h consistency_proof =
  subtrees :: "'h list"

type_synonym 'h accumulator_summary = "'h accumulator"

definition summary_new :: "'h accumulator \<Rightarrow> string + 'h accumulator_summary" where
  "summary_new acc = (if acc_is_empty acc then Inl ''empty accumulator'' else Inr acc)"

definition verify_consistency :: "'h accumulator_summary \<Rightarrow> ('a, 'key, 'h) ledger_info \<Rightarrow> string + unit" where
  "verify_consistency s li =
     (if li_version li = acc_version s
      then if transaction_accumulator_hash li = root_hash s then Inr ()
           else Inl ''ledger info root hash and accumulator root hash must match''
      else Inl ''ledger info and accumulator must be at the same version'')"

definition u64_saturating_add :: "u64 \<Rightarrow> u64 \<Rightarrow> u64" where
  "u64_saturating_add a b = (if unat a + unat b < 2 ^ 64 then a + b else - 1)"

definition try_from_genesis_proof :: "('h \<Rightarrow> 'h \<Rightarrow> 'h) \<Rightarrow> 'h \<Rightarrow> 'h consistency_proof \<Rightarrow> u64 \<Rightarrow> (string + 'h accumulator_summary) outcome" where
  "try_from_genesis_proof nh ph p target_version = acc_new nh ph (subtrees p) (u64_saturating_add target_version 1)"

definition try_extend_with_proof :: "('h \<Rightarrow> 'h \<Rightarrow> 'h) \<Rightarrow> 'h \<Rightarrow> 'h accumulator_summary \<Rightarrow> 'h consistency_proof
    \<Rightarrow> ('a, 'key, 'h) ledger_info \<Rightarrow> (string + 'h accumulator_summary) outcome" where
  "try_extend_with_proof nh ph s p target_li =
     (if li_version target_li \<ge> acc_version s
      then out_try (append_subtrees nh ph s (subtrees p) (li_version target_li - acc_version s)) (\<lambda>new_accumulator.
             Ret (and_then (verify_consistency new_accumulator target_li) (\<lambda>_. Inr new_accumulator)))
      else Ret (Inl ''target ledger info version must be newer than our current accumulator summary version''))"

record 'h extension_proof =
  ext_frozen_subtree_roots :: "'h list"
  ext_num_leaves :: u64
  ext_leaves :: "'h list"

definition ext_proof_verify :: "('h \<Rightarrow> 'h \<Rightarrow> 'h) \<Rightarrow> 'h \<Rightarrow> 'h extension_proof \<Rightarrow> 'h \<Rightarrow> (string + 'h accumulator) outcome" where
  "ext_proof_verify nh ph p original_root =
     out_try (acc_new nh ph (ext_frozen_subtree_roots p) (ext_num_leaves p)) (\<lambda>original_tree.
       if root_hash original_tree = original_root
       then out_bind (append nh ph original_tree (ext_leaves p)) (\<lambda>acc. Ret (Inr acc))
       else Ret (Inl ''Root hashes do not match.''))"

section \<open>Inclusion proofs show inclusion\<close>

text \<open>
  The hashes of leaves and the placeholder are no hashes of inner nodes: the hashers are salted with the names of the
  types they hash.
\<close>

definition leaves_apart :: "('h \<Rightarrow> 'h \<Rightarrow> 'h) \<Rightarrow> 'h \<Rightarrow> 'h set \<Rightarrow> bool" where
  "leaves_apart nh ph L \<longleftrightarrow> ph \<notin> L \<and> (\<forall>a b. nh a b \<noteq> ph \<and> nh a b \<notin> L)"

lemma le_tree_depth: "n \<le> 2 ^ tree_depth n"
proof -
  have "j < 2 ^ bit_length j" for j
  proof (induction j rule: less_induct)
    case (less j)
    show ?case
    proof (cases "j = 0")
      case False
      then have "j div 2 < 2 ^ bit_length (j div 2)" using less.IH by simp
      then show ?thesis using False by (subst bit_length.simps) auto
    qed simp
  qed
  from this [of "n - 1"] show ?thesis by (simp add: tree_depth_def)
qed

lemma tree_depth_bound: "n \<le> 2 ^ k \<Longrightarrow> tree_depth n \<le> k"
proof -
  have "j < 2 ^ k \<Longrightarrow> bit_length j \<le> k" for j
  proof (induction k arbitrary: j)
    case (Suc k)
    then have "j div 2 < 2 ^ k" by auto
    from Suc.IH [OF this] show ?case by (subst bit_length.simps) simp
  qed (simp add: bit_length.simps)
  from this [of "n - 1"] show "n \<le> 2 ^ k \<Longrightarrow> tree_depth n \<le> k" by (cases n) (simp_all add: tree_depth_def bit_length.simps)
qed

lemma block_all: "block (tree_depth (length xs)) 0 xs = xs"
  using le_tree_depth [of "length xs"] by (simp add: block_def)

lemma block_0: "p < length xs \<Longrightarrow> block 0 p xs = [xs ! p]"
  by (simp add: block_def Cons_nth_drop_Suc [symmetric])

lemma block_0_Nil: "block 0 p xs \<noteq> [] \<Longrightarrow> p < length xs"
  by (simp add: block_def)

lemma block_set: "set (block k p xs) \<subseteq> set xs"
  unfolding block_def by (meson order_trans set_take_subset set_drop_subset)

lemma ap_fold_index: "unat (snd (foldl (ap_step nh) (h, i) sibs)) = unat i div 2 ^ length sibs"
proof (induction sibs rule: rev_induct)
  case (snoc s sibs)
  then show ?case
    by (cases "foldl (ap_step nh) (h, i) sibs") (simp add: unat_div_distrib div_mult2_eq [symmetric] mult.commute)
qed simp

lemma word_mod_2: "(v::u64) mod 2 = 0 \<longleftrightarrow> even (unat v)"
  by (simp add: word_unat_eq_iff unat_mod_distrib even_iff_mod_2_eq_zero)

lemma mod_double: "(n::nat) mod 2 ^ Suc k = n mod 2 ^ k + (n div 2 ^ k mod 2) * 2 ^ k"
  unfolding power_Suc2 mod_mult2_eq by (simp add: mult.commute)

lemma ap_fold_sound:
  "\<lbrakk>fst (foldl (ap_step nh) (h, i) sibs) = mroot nh ph k (block k p Y); no_second_preimage nh ph Y; k \<le> tree_depth (length Y);
    leaves_apart nh ph L; set Y \<subseteq> L; h \<in> L\<rbrakk>
   \<Longrightarrow> length sibs = k \<and> p * 2 ^ k + unat i mod 2 ^ k < length Y \<and> h = Y ! (p * 2 ^ k + unat i mod 2 ^ k)"
proof (induction sibs arbitrary: k p rule: rev_induct)
  case Nil
  have "block k p Y \<noteq> []" using Nil.prems(1,4,6) by (auto simp: leaves_apart_def)
  moreover have "k = 0"
  proof (rule ccontr)
    assume "k \<noteq> 0"
    then obtain j where "k = Suc j" by (cases k) auto
    then show False using Nil.prems(1,4,6) calculation by (auto simp: leaves_apart_def)
  qed
  ultimately show ?case using Nil.prems(1) block_0_Nil [of p Y] block_0 [of p Y] by simp
next
  case (snoc s sibs)
  obtain h' j where f: "foldl (ap_step nh) (h, i) sibs = (h', j)" by (cases "foldl (ap_step nh) (h, i) sibs")
  have j: "unat j = unat i div 2 ^ length sibs" using ap_fold_index [of nh h i sibs] f by simp
  have top: "(if even (unat j) then nh h' s else nh s h') = mroot nh ph k (block k p Y)"
    using snoc.prems(1) by (simp add: f word_mod_2 del: mroot.simps)
  then obtain x y where xy: "nh x y = mroot nh ph k (block k p Y)" by (cases "even (unat j)") auto
  have apart: "nh x y \<noteq> ph" "nh x y \<notin> L" using snoc.prems(4) by (simp_all add: leaves_apart_def)
  have ne: "block k p Y \<noteq> []" using xy apart(1) by auto
  have "k \<noteq> 0"
  proof
    assume k: "k = 0"
    then have "p < length Y" using ne block_0_Nil [of p Y] by simp
    moreover from this have "Y ! p \<in> L" using snoc.prems(5) nth_mem by blast
    ultimately show False using xy apart(2) block_0 [of p Y] k by simp
  qed
  then obtain m where k: "k = Suc m" by (cases k) auto
  have d: "m < tree_depth (length Y)" using snoc.prems(3) k by simp
  note inv = no_second_preimageD [OF snoc.prems(2) d ne [unfolded k]]
  let ?b = "unat j mod 2"
  have "h' = mroot nh ph m (block m (2 * p + ?b) Y)"
  proof (cases "even (unat j)")
    case True
    then have "nh h' s = mroot nh ph (Suc m) (block (Suc m) p Y)" "?b = 0" using top by (simp_all add: k del: mroot.simps)
    then show ?thesis using inv(1) by (simp del: mroot.simps)
  next
    case False
    then have "nh s h' = mroot nh ph (Suc m) (block (Suc m) p Y)" "?b = 1" using top by (simp_all add: k del: mroot.simps) presburger
    then show ?thesis using inv(2) by (simp del: mroot.simps)
  qed
  then have "fst (foldl (ap_step nh) (h, i) sibs) = mroot nh ph m (block m (2 * p + ?b) Y)" by (simp add: f)
  from snoc.IH [OF this snoc.prems(2) less_imp_le [OF d] snoc.prems(4,5,6)]
  have IH: "length sibs = m" "(2 * p + ?b) * 2 ^ m + unat i mod 2 ^ m < length Y"
    "h = Y ! ((2 * p + ?b) * 2 ^ m + unat i mod 2 ^ m)" by blast+
  have "(2 * p + ?b) * 2 ^ m + unat i mod 2 ^ m = p * 2 ^ k + unat i mod 2 ^ k"
    unfolding k mod_double j IH(1) by (simp add: algebra_simps)
  with IH show ?case by (simp add: k)
qed

text \<open>The siblings on the path to a leaf.\<close>

definition sibling_of :: "nat \<Rightarrow> nat" where
  "sibling_of q = (if even q then q + 1 else q - 1)"

definition path_siblings :: "('h \<Rightarrow> 'h \<Rightarrow> 'h) \<Rightarrow> 'h \<Rightarrow> 'h list \<Rightarrow> nat \<Rightarrow> nat \<Rightarrow> 'h list" where
  "path_siblings nh ph Y i k = map (\<lambda>j. mroot nh ph j (block j (sibling_of (i div 2 ^ j)) Y)) [0..<k]"

lemma ap_fold_complete:
  assumes "unat i < length Y"
  shows "fst (foldl (ap_step nh) (Y ! unat i, i) (path_siblings nh ph Y (unat i) k)) = mroot nh ph k (block k (unat i div 2 ^ k) Y)"
proof (induction k)
  case 0
  then show ?case using assms by (simp add: path_siblings_def block_0)
next
  case (Suc k)
  let ?f = "foldl (ap_step nh) (Y ! unat i, i) (path_siblings nh ph Y (unat i) k)" and ?q = "unat i div 2 ^ k"
  obtain h' j where f: "?f = (h', j)" by (cases ?f)
  have j: "unat j = ?q" using ap_fold_index [of nh "Y ! unat i" i "path_siblings nh ph Y (unat i) k"] f
    by (simp add: path_siblings_def)
  have "unat i div 2 ^ Suc k * 2 ^ Suc k \<le> unat i" by (rule div_times_less_eq_dividend)
  then have ne: "block (Suc k) (unat i div 2 ^ Suc k) Y \<noteq> []" using assms by (intro block_not_Nil) linarith
  have q: "unat i div 2 ^ Suc k = ?q div 2" unfolding power_Suc2 div_mult2_eq ..
  have "path_siblings nh ph Y (unat i) (Suc k) = path_siblings nh ph Y (unat i) k @ [mroot nh ph k (block k (sibling_of ?q) Y)]"
    by (simp add: path_siblings_def)
  moreover have "h' = mroot nh ph k (block k ?q Y)" using Suc f by simp
  ultimately show ?case unfolding mroot_block [OF ne] unfolding q
    by (cases "even ?q") (auto simp: f j word_mod_2 sibling_of_def elim!: evenE oddE)
qed

text \<open>
  What a ledger info says about the list of all transaction infos: its version is the number of the last one, and its
  accumulator hash is the root hash of the accumulator over their hashes.
\<close>

definition describes :: "('h \<Rightarrow> 'h \<Rightarrow> 'h) \<Rightarrow> 'h \<Rightarrow> ('a, 'key, 'h) ledger_info \<Rightarrow> 'h list \<Rightarrow> bool" where
  "describes nh ph li hashes \<longleftrightarrow> length hashes = Suc (unat (li_version li)) \<and> length hashes \<le> 2 ^ 63
     \<and> transaction_accumulator_hash li = root_hash (acc_of nh ph hashes)"

text \<open>
  C7. A transaction info has a proof of inclusion at a version exactly if it is the one at that version: for a ledger
  info that describes the list of all transaction infos, if nodes have no second preimages and leaves are hashed apart
  from nodes, then some proof makes the verifier accept a transaction info at a version if and only if the
  list has an info with this hash there; for versions beyond the ledger there is no proof.
\<close>
theorem transaction_info_proof_iff:
  assumes li: "describes nh ph li (map hash_info txns)"
    and nsp: "no_second_preimage nh ph (map hash_info txns)" and apart: "leaves_apart nh ph (range hash_info)"
  shows "(\<exists>p. tip_verify nh hash_info \<lparr>ledger_info_to_transaction_info_proof = p, transaction_info = info\<rparr> li v = Inr ())
    \<longleftrightarrow> unat v < length txns \<and> hash_info (txns ! unat v) = hash_info info"
proof -
  let ?Y = "map hash_info txns" and ?d = "tree_depth (length txns)"
  have len: "length txns = Suc (unat (li_version li))" "length txns \<le> 2 ^ 63" and root: "transaction_accumulator_hash li = mroot nh ph ?d ?Y"
    using li by (simp_all add: describes_def acc_of_def)
  have v: "v \<le> li_version li \<longleftrightarrow> unat v < length txns" using len(1) by (simp add: word_le_nat_alt less_Suc_eq_le)
  have d: "?d \<le> 63" using tree_depth_bound [OF len(2)] .
  have all: "block ?d 0 ?Y = ?Y" using block_all [of ?Y] by simp
  show ?thesis
  proof
    assume "\<exists>p. tip_verify nh hash_info \<lparr>ledger_info_to_transaction_info_proof = p, transaction_info = info\<rparr> li v = Inr ()"
    then obtain p where p: "tip_verify nh hash_info \<lparr>ledger_info_to_transaction_info_proof = p, transaction_info = info\<rparr> li v = Inr ()" by blast
    then have lt: "unat v < length txns" and
      "fst (foldl (ap_step nh) (hash_info info, v) (ap_siblings p)) = mroot nh ph ?d (block ?d 0 ?Y)"
      unfolding root [symmetric] v [symmetric] all
      by (simp_all add: tip_verify_def verify_transaction_info_def ap_verify_def Let_def split: if_splits)
    from ap_fold_sound [OF this(2) nsp _ apart] have "hash_info info = ?Y ! (unat v mod 2 ^ ?d)" by auto
    moreover have "unat v mod 2 ^ ?d = unat v" using lt le_tree_depth [of "length txns"] by simp
    ultimately show "unat v < length txns \<and> hash_info (txns ! unat v) = hash_info info" using lt by simp
  next
    assume a: "unat v < length txns \<and> hash_info (txns ! unat v) = hash_info info"
    let ?p = "\<lparr>ap_siblings = path_siblings nh ph ?Y (unat v) ?d\<rparr>"
    have "unat v div 2 ^ ?d = 0" using a le_tree_depth [of "length txns"] by simp
    then have "fst (foldl (ap_step nh) (hash_info info, v) (ap_siblings ?p)) = transaction_accumulator_hash li"
      using ap_fold_complete [of v ?Y nh ph ?d] a root all by simp
    then have "tip_verify nh hash_info \<lparr>ledger_info_to_transaction_info_proof = ?p, transaction_info = info\<rparr> li v = Inr ()"
      using a v d by (simp add: tip_verify_def verify_transaction_info_def ap_verify_def MAX_ACCUMULATOR_PROOF_DEPTH_def path_siblings_def)
    then show "\<exists>p. tip_verify nh hash_info \<lparr>ledger_info_to_transaction_info_proof = p, transaction_info = info\<rparr> li v = Inr ()" by blast
  qed
qed

section \<open>Consistency proofs show extension\<close>

lemma describes_version:
  assumes "describes nh ph li ys"
  shows "li_version li = word_of_nat (length ys - 1)" and "ys \<noteq> []"
  using assms word_of_unat [of "li_version li"] by (auto simp: describes_def)

lemma acc_version_of:
  assumes "xs \<noteq> []" and "length xs \<le> 2 ^ 63"
  shows "acc_version (acc_of nh ph xs) = word_of_nat (length xs - 1)"
proof -
  have "(word_of_nat (length xs) :: u64) \<noteq> 0" using assms word_of_nat_halves(3) [of "length xs"] by auto
  then show ?thesis using assms(1) by (cases xs) (simp_all add: acc_version_def acc_of_def)
qed

lemma unat_of_length: "n \<le> 2 ^ 63 \<Longrightarrow> unat (word_of_nat (n - 1) :: u64) = n - 1"
  by (simp add: unsigned_of_nat take_bit_nat_eq_self)

lemma verify_consistency_of:
  assumes "describes nh ph li ys"
  shows "verify_consistency (acc_of nh ph ys) li = Inr ()"
  using assms describes_version [OF assms] acc_version_of [of ys nh ph]
  by (simp add: verify_consistency_def describes_def)

text \<open>
  C4. An accumulator summary can be extended to exactly the ledgers that extend it. For the summary of a non-empty
  list of transaction infos and a target ledger info that describes another list, whose nodes have no second
  preimages: some consistency proof is accepted if and only if the summary's list is a prefix of the target's, and
  whatever proof is accepted, the new summary is that of the target's list. So no proof can hide a fork.
\<close>
theorem extend_with_proof_iff:
  assumes s: "summary_new (acc_of nh ph xs) = Inr s" and small: "length xs \<le> 2 ^ 63"
    and li: "describes nh ph li ys" and nsp: "no_second_preimage nh ph ys"
  shows "((\<exists>p s'. try_extend_with_proof nh ph s p li = Ret (Inr s')) \<longleftrightarrow> (\<exists>zs. ys = xs @ zs))
    \<and> (\<forall>p s'. try_extend_with_proof nh ph s p li = Ret (Inr s') \<longrightarrow> s' = acc_of nh ph ys)"
proof -
  have s': "s = acc_of nh ph xs" and ne: "num_leaves (acc_of nh ph xs) \<noteq> 0"
    using s by (auto simp: summary_new_def acc_is_empty_def split: if_splits)
  have xs: "xs \<noteq> []" using ne by (auto simp: acc_of_def)
  note v = acc_version_of [OF xs small, of nh ph] describes_version [OF li]
  have ylen: "length ys \<le> 2 ^ 63" using li by (simp add: describes_def)
  have cmp: "acc_version s \<le> li_version li \<longleftrightarrow> length xs \<le> length ys"
    unfolding s' v word_le_nat_alt unat_of_length [OF small] unat_of_length [OF ylen]
    using xs v(3) by (cases xs; cases ys) simp_all
  have diff: "li_version li - acc_version s = word_of_nat (length ys - length xs)" if "length xs \<le> length ys"
    unfolding s' v using that xs v(3) by (cases xs; cases ys) (simp_all add: of_nat_diff)
  have sound: "xs = take (length xs) ys \<and> r = acc_of nh ph ys" if ok: "try_extend_with_proof nh ph s p li = Ret (Inr r)" for p r
  proof -
    have le: "length xs \<le> length ys" using ok cmp by (simp add: try_extend_with_proof_def split: if_splits)
    obtain a where a: "append_subtrees nh ph (acc_of nh ph xs) (subtrees p) (word_of_nat (length ys - length xs)) = Ret (Inr a)"
      "and_then (verify_consistency a li) (\<lambda>_. Inr a) = Inr r"
      using ok le cmp diff [OF le] unfolding s' by (auto simp: try_extend_with_proof_def out_try_ok)
    then have app: "append_subtrees nh ph (acc_of nh ph xs) (subtrees p) (word_of_nat (length ys - length xs)) = Ret (Inr r)"
      and con: "verify_consistency r li = Inr ()"
      by (cases "verify_consistency a li"; auto simp: and_then_def)+
    have "root_hash r = root_hash (acc_of nh ph ys)"
      using con li by (simp add: verify_consistency_def describes_def split: if_splits)
    from append_subtrees_sound [OF app this _ ylen nsp] le show ?thesis by simp
  qed
  have "(\<exists>p s'. try_extend_with_proof nh ph s p li = Ret (Inr s')) \<longleftrightarrow> (\<exists>zs. ys = xs @ zs)"
  proof
    assume "\<exists>p s'. try_extend_with_proof nh ph s p li = Ret (Inr s')"
    then show "\<exists>zs. ys = xs @ zs" using sound by (metis append_take_drop_id)
  next
    assume "\<exists>zs. ys = xs @ zs"
    then obtain zs where zs: "ys = xs @ zs" by blast
    from append_subtrees_complete [of xs zs nh ph] ylen obtain st where
      "append_subtrees nh ph (acc_of nh ph xs) st (word_of_nat (length zs)) = Ret (Inr (acc_of nh ph ys))" unfolding zs by blast
    then have "try_extend_with_proof nh ph s \<lparr>subtrees = st\<rparr> li = Ret (Inr (acc_of nh ph ys))"
      using cmp diff verify_consistency_of [OF li] unfolding s' by (simp add: try_extend_with_proof_def zs)
    then show "\<exists>p s'. try_extend_with_proof nh ph s p li = Ret (Inr s')" by blast
  qed
  then show ?thesis using sound by blast
qed

section \<open>Examples\<close>

text \<open>Hashes that are just the terms they were computed from, and a ledger of five transactions.\<close>

datatype term_hash = Leaf nat | Node term_hash term_hash | Placeholder

lemma node_no_second_preimage: "no_second_preimage Node Placeholder xs"
  by (simp add: no_second_preimage_def)

lemma leaf_apart: "leaves_apart Node Placeholder (range Leaf)"
  by (auto simp: leaves_apart_def)

definition five_ledger :: "(nat, nat, term_hash) ledger_info" where
  "five_ledger = \<lparr>commit_info = (block_info_empty Placeholder)\<lparr>executed_state_id := root_hash (acc_of Node Placeholder (map Leaf [4, 5, 6, 7, 8])),
     bi_version := 4\<rparr>, consensus_data_hash = Placeholder\<rparr>"

lemma five_describes: "describes Node Placeholder five_ledger (map Leaf [4, 5, 6, 7, 8])"
  by (simp add: describes_def five_ledger_def li_version_def transaction_accumulator_hash_def)

theorem transaction_info_proof_iff_witness:
  "describes Node Placeholder five_ledger (map Leaf [4, 5, 6, 7, 8])
   \<and> (\<exists>p. tip_verify Node Leaf \<lparr>ledger_info_to_transaction_info_proof = p, transaction_info = 7\<rparr> five_ledger 3 = Inr ())
   \<and> \<not> (\<exists>p. tip_verify Node Leaf \<lparr>ledger_info_to_transaction_info_proof = p, transaction_info = 7\<rparr> five_ledger 2 = Inr ())
   \<and> \<not> (\<exists>p. tip_verify Node Leaf \<lparr>ledger_info_to_transaction_info_proof = p, transaction_info = 7\<rparr> five_ledger 11 = Inr ())"
  unfolding transaction_info_proof_iff [OF five_describes node_no_second_preimage leaf_apart]
  using five_describes by simp

theorem extend_with_proof_iff_witness:
  "describes Node Placeholder five_ledger (map Leaf [4, 5, 6, 7, 8])
   \<and> (\<exists>p s'. try_extend_with_proof Node Placeholder (acc_of Node Placeholder (map Leaf [4, 5, 6])) p five_ledger = Ret (Inr s'))
   \<and> \<not> (\<exists>p s'. try_extend_with_proof Node Placeholder (acc_of Node Placeholder (map Leaf [4, 9, 6])) p five_ledger = Ret (Inr s'))"
proof -
  have s: "summary_new (acc_of Node Placeholder (map Leaf [4, a, 6])) = Inr (acc_of Node Placeholder (map Leaf [4, a, 6]))" for a
    by (simp add: summary_new_def acc_is_empty_def acc_of_def)
  have "length (map Leaf [4, a, 6]) \<le> 2 ^ 63" for a by simp
  note iff = extend_with_proof_iff [OF s this five_describes node_no_second_preimage]
  show ?thesis using iff [of 5] iff [of 9] five_describes by auto
qed

end
