(* ===== verification/RangeProof.thy ===== *)
theory RangeProof
  imports MerkleProof
begin

text \<open>
  Proofs that a list of hashes is a range of leaves of an accumulator (\<^verbatim>\<open>types/src/proof/definition.rs\<close>), and lists of
  transaction infos with such proofs.
\<close>

section \<open>The proofs\<close>

record 'h range_proof =
  left_siblings :: "'h list"
  right_siblings :: "'h list"

definition range_new_empty :: "'h range_proof" where
  "range_new_empty = \<lparr>left_siblings = [], right_siblings = []\<rparr>"

fun pair_hashes :: "('h \<Rightarrow> 'h \<Rightarrow> 'h) \<Rightarrow> 'h list \<Rightarrow> 'h list \<times> 'h list" where
  "pair_hashes nh (l # r # hs) = (case pair_hashes nh hs of (ps, rest) \<Rightarrow> (nh l r # ps, rest))"
| "pair_hashes nh hs = ([], hs)"

text \<open>One round of the loop: the hashes of the parents, and the siblings that are left.\<close>

definition range_round :: "('h \<Rightarrow> 'h \<Rightarrow> 'h) \<Rightarrow> bool \<Rightarrow> 'h list \<Rightarrow> 'h list \<Rightarrow> 'h list
    \<Rightarrow> (string + 'h list \<times> 'h list \<times> 'h list) outcome" where
  "range_round nh is_right hashes left right =
     out_try
       (if is_right
        then case left of
               [] \<Rightarrow> Ret (Inl ''First child is a right child, but missing sibling on the left.'')
             | l # ls \<Rightarrow> (case hashes of [] \<Rightarrow> Panic | h # hs \<Rightarrow> Ret (Inr ([nh l h], hs, ls)))
        else Ret (Inr ([], hashes, left))) (\<lambda>(first, children, left).
       case pair_hashes nh children of (parents, remainder) \<Rightarrow>
         (case remainder of
            [] \<Rightarrow> Ret (Inr (first @ parents, left, right))
          | l # _ \<Rightarrow>
             (case right of
                [] \<Rightarrow> Ret (Inl ''Last child is a left child, but missing sibling on the right.'')
              | r # rs \<Rightarrow> Ret (Inr (first @ parents @ [nh l r], left, rs)))))"

text \<open>
  The loop, with a bound on the number of rounds that \<open>range_loop_rounds\<close> below shows to be large enough.
\<close>

fun range_loop :: "('h \<Rightarrow> 'h \<Rightarrow> 'h) \<Rightarrow> nat \<Rightarrow> position \<Rightarrow> 'h list \<Rightarrow> 'h list \<Rightarrow> 'h list \<Rightarrow> (string + 'h list) outcome option" where
  "range_loop nh fuel first_pos hashes left right =
     (if length hashes > 1 \<or> left \<noteq> [] \<or> right \<noteq> []
      then (case fuel of
              0 \<Rightarrow> None
            | Suc n \<Rightarrow>
               (case out_bind (is_right_child first_pos) (\<lambda>rc. range_round nh rc hashes left right) of
                  Panic \<Rightarrow> Some Panic
                | Ret (Inl e) \<Rightarrow> Some (Ret (Inl e))
                | Ret (Inr (parents, left, right)) \<Rightarrow>
                   (case parent first_pos of
                      Panic \<Rightarrow> Some Panic
                    | Ret pos \<Rightarrow> range_loop nh n pos parents left right)))
      else Some (Ret (Inr hashes)))"

definition range_fuel :: "'h range_proof \<Rightarrow> 'h list \<Rightarrow> nat" where
  "range_fuel p hashes = length hashes + length (left_siblings p) + length (right_siblings p)"

definition range_verify :: "('h \<Rightarrow> 'h \<Rightarrow> 'h) \<Rightarrow> 'h range_proof \<Rightarrow> 'h \<Rightarrow> u64 option \<Rightarrow> 'h list \<Rightarrow> (string + unit) outcome" where
  "range_verify nh p expected_root_hash first_leaf_index leaf_hashes =
     (case first_leaf_index of
        None \<Rightarrow>
          if leaf_hashes \<noteq> [] then Ret (Inl ''first_leaf_index indicated empty list while leaf_hashes is not empty.'')
          else if left_siblings p = [] \<and> right_siblings p = [] then Ret (Inr ()) else Ret (Inl ''No siblings are needed.'')
      | Some i \<Rightarrow>
          if length (left_siblings p) > MAX_ACCUMULATOR_PROOF_DEPTH then Ret (Inl ''Proof has more than 63 left siblings.'')
          else if length (right_siblings p) > MAX_ACCUMULATOR_PROOF_DEPTH then Ret (Inl ''Proof has more than 63 right siblings.'')
          else if leaf_hashes = [] then Ret (Inl ''leaf_hashes is empty while first_leaf_index indicated non-empty list.'')
          else out_bind (from_leaf_index i) (\<lambda>first_pos.
                 case range_loop nh (range_fuel p leaf_hashes) first_pos leaf_hashes (left_siblings p) (right_siblings p) of
                   None \<Rightarrow> Panic
                 | Some r \<Rightarrow> out_try r (\<lambda>hashes. out_bind (index hashes 0) (\<lambda>h.
                     if h = expected_root_hash then Ret (Inr ()) else Ret (Inl ''Root hashes do not match.'')))))"

record ('i, 'h) transaction_info_list_with_proof =
  ledger_info_to_transaction_infos_proof :: "'h range_proof"
  transaction_infos :: "'i list"

definition til_new_empty :: "('i, 'h) transaction_info_list_with_proof" where
  "til_new_empty = \<lparr>ledger_info_to_transaction_infos_proof = range_new_empty, transaction_infos = []\<rparr>"

definition til_verify :: "('h \<Rightarrow> 'h \<Rightarrow> 'h) \<Rightarrow> ('i \<Rightarrow> 'h) \<Rightarrow> ('i, 'h) transaction_info_list_with_proof \<Rightarrow> ('a, 'key, 'h) ledger_info
    \<Rightarrow> u64 option \<Rightarrow> (string + unit) outcome" where
  "til_verify nh hash_info p li first_version =
     range_verify nh (ledger_info_to_transaction_infos_proof p) (transaction_accumulator_hash li) first_version
       (map hash_info (transaction_infos p))"

definition verify_extends_ledger :: "('h \<Rightarrow> 'h \<Rightarrow> 'h) \<Rightarrow> 'h \<Rightarrow> ('i \<Rightarrow> 'h) \<Rightarrow> ('i, 'h) transaction_info_list_with_proof \<Rightarrow> u64 \<Rightarrow> 'h
    \<Rightarrow> u64 option \<Rightarrow> (string + nat) outcome" where
  "verify_extends_ledger nh ph hash_info p num_txns_in_ledger expected_root first_version =
     (case first_version of
        Some v \<Rightarrow>
          if v \<le> num_txns_in_ledger
          then let num_overlap_txns = unat (num_txns_in_ledger - v) in
               if num_overlap_txns > length (transaction_infos p) then Ret (Inr (length (transaction_infos p)))
               else out_try (acc_new nh ph (rev (left_siblings (ledger_info_to_transaction_infos_proof p))) v) (\<lambda>acc.
                    out_bind (append nh ph acc (map hash_info (take num_overlap_txns (transaction_infos p)))) (\<lambda>acc.
                      if root_hash acc = expected_root then Ret (Inr num_overlap_txns)
                      else Ret (Inl ''Fork happens because the current synced_trees doesn't match the txn list provided.'')))
          else Ret (Inl ''Transaction list too new.'')
      | None \<Rightarrow> if transaction_infos p = [] then Ret (Inr 0) else Ret (Inl ''condition failed''))"

section \<open>The loop ends\<close>

lemma length_pair_hashes: "pair_hashes nh hs = (ps, rest) \<Longrightarrow> length hs = 2 * length ps + length rest \<and> length rest \<le> 1"
  by (induction nh hs arbitrary: ps rest rule: pair_hashes.induct) (auto split: prod.splits)

text \<open>What a round that returns has done.\<close>

lemma range_roundE:
  assumes "range_round nh rc hashes left right = Ret (Inr (parents, left', right'))"
  obtains first children ps rest where "pair_hashes nh children = (ps, rest)"
    and "rc \<Longrightarrow> \<exists>l h. left = l # left' \<and> hashes = h # children \<and> first = [nh l h]"
    and "\<not> rc \<Longrightarrow> left' = left \<and> children = hashes \<and> first = []"
    and "rest = [] \<and> right' = right \<and> parents = first @ ps
      \<or> (\<exists>l r. rest = [l] \<and> right = r # right' \<and> parents = first @ ps @ [nh l r])"
proof -
  have rest: "rest = [l]" if "pair_hashes nh cs = (ps, l # ls)" "rest = l # ls" for cs ps l ls rest
    using length_pair_hashes [OF that(1)] that(2) by auto
  obtain first children where f: "out_try (Ret (Inr (first, children, left'))) (\<lambda>(first, children, left).
       case pair_hashes nh children of (parents, remainder) \<Rightarrow>
         (case remainder of
            [] \<Rightarrow> Ret (Inr (first @ parents, left, right))
          | l # _ \<Rightarrow>
             (case right of
                [] \<Rightarrow> Ret (Inl ''Last child is a left child, but missing sibling on the right.'')
              | r # rs \<Rightarrow> Ret (Inr (first @ parents @ [nh l r], left, rs))))) = Ret (Inr (parents, left', right'))"
    and "rc \<Longrightarrow> \<exists>l h. left = l # left' \<and> hashes = h # children \<and> first = [nh l h]"
    and "\<not> rc \<Longrightarrow> left' = left \<and> children = hashes \<and> first = []"
    using assms unfolding range_round_def
    by (cases rc; cases left; cases hashes) (auto simp: out_try_ok split: prod.splits list.splits)
  moreover obtain ps rest where p: "pair_hashes nh children = (ps, rest)" by force
  ultimately show thesis
    using that [of children ps rest first] rest [of children ps] by (auto simp: p split: list.splits)
qed

lemma pair_hashes_image: "pair_hashes nh hs = (ps, rest) \<Longrightarrow> \<forall>x\<in>set ps. \<exists>a b. x = nh a b"
  by (induction nh hs arbitrary: ps rest rule: pair_hashes.induct) (auto split: prod.splits, blast)

lemma range_round_image:
  assumes "range_round nh rc hashes left right = Ret (Inr (parents, left', right'))"
  shows "\<forall>x\<in>set parents. \<exists>a b. x = nh a b"
  using assms
proof (rule range_roundE)
  fix first children ps rest
  assume "pair_hashes nh children = (ps, rest)"
    and "rc \<Longrightarrow> \<exists>l h. left = l # left' \<and> hashes = h # children \<and> first = [nh l h]"
      "\<not> rc \<Longrightarrow> left' = left \<and> children = hashes \<and> first = []"
    and "rest = [] \<and> right' = right \<and> parents = first @ ps
      \<or> (\<exists>l r. rest = [l] \<and> right = r # right' \<and> parents = first @ ps @ [nh l r])"
  then show ?thesis using pair_hashes_image [of nh children ps rest] by (cases rc) (auto, blast+)
qed

text \<open>A round takes at least one hash or sibling, so the number of rounds is bounded by their number.\<close>

lemma range_round_smaller:
  assumes "range_round nh rc hashes left right = Ret (Inr (parents, left', right'))"
    and "length hashes > 1 \<or> left \<noteq> [] \<or> right \<noteq> []" and "hashes \<noteq> []"
  shows "length parents + length left' + length right' < length hashes + length left + length right \<and> parents \<noteq> []"
  using assms(1)
proof (rule range_roundE)
  fix first children ps rest
  assume "pair_hashes nh children = (ps, rest)"
    and rc: "rc \<Longrightarrow> \<exists>l h. left = l # left' \<and> hashes = h # children \<and> first = [nh l h]"
      "\<not> rc \<Longrightarrow> left' = left \<and> children = hashes \<and> first = []"
    and p: "rest = [] \<and> right' = right \<and> parents = first @ ps
      \<or> (\<exists>l r. rest = [l] \<and> right = r # right' \<and> parents = first @ ps @ [nh l r])"
  from length_pair_hashes [OF this(1)] p rc assms(2,3) show ?thesis
    by (cases rc) (auto simp: length_greater_0_conv [symmetric] simp del: length_greater_0_conv)
qed

lemma range_loop_rounds:
  "hashes \<noteq> [] \<Longrightarrow> length hashes + length left + length right \<le> fuel \<Longrightarrow>
   \<exists>r. range_loop nh fuel pos hashes left right = Some r"
proof (induction fuel arbitrary: pos hashes left right)
  case (Suc fuel)
  show ?case
  proof (cases "length hashes > 1 \<or> left \<noteq> [] \<or> right \<noteq> []")
    case True
    have "\<exists>r. range_loop nh fuel pos' parents left' right' = Some r"
      if "range_round nh rc hashes left right = Ret (Inr (parents, left', right'))" for rc parents left' right' pos'
      using Suc.IH [of parents left' right' pos'] range_round_smaller [OF that True Suc.prems(1)] Suc.prems(2) by simp
    then show ?thesis
      by (auto simp: True out_bind_def split: outcome.splits sum.splits)
  qed simp
qed simp

lemma range_loop_short: "range_loop nh fuel pos hashes left right = Some (Ret (Inr hs)) \<Longrightarrow> length hs \<le> 1"
  by (induction fuel arbitrary: pos hashes left right)
    (auto simp: out_bind_def split: if_splits outcome.splits sum.splits)

section \<open>An accepted range is a range of the leaves\<close>

lemma from_leaf_index_node: "from_leaf_index i = Ret (Position (node 0 (unat i mod 2 ^ 63)))"
proof -
  have "push_bit 1 i = node 0 (unat i mod 2 ^ 63)"
  proof (rule bit_word_eqI)
    fix n
    show "bit (push_bit 1 i) n = bit (node 0 (unat i mod 2 ^ 63)) n" if "n < LENGTH(64)"
      unfolding bit_push_bit_iff bit_node take_bit_eq_mod [symmetric] bit_take_bit_iff bit_unsigned_iff
      using that by auto
  qed
  then show ?thesis by (simp add: from_leaf_index_def from_level_and_pos_def)
qed

text \<open>Consecutive nodes of a level.\<close>

definition nodes_from :: "('h \<Rightarrow> 'h \<Rightarrow> 'h) \<Rightarrow> 'h \<Rightarrow> 'h list \<Rightarrow> nat \<Rightarrow> nat \<Rightarrow> nat \<Rightarrow> 'h list" where
  "nodes_from nh ph Y k q n = map (\<lambda>j. mroot nh ph k (block k (q + j) Y)) [0..<n]"

lemma nodes_from_0 [simp]: "nodes_from nh ph Y k q 0 = []"
  by (simp add: nodes_from_def)

lemma nodes_from_Suc: "nodes_from nh ph Y k q (Suc n) = mroot nh ph k (block k q Y) # nodes_from nh ph Y k (Suc q) n"
  unfolding nodes_from_def map_upt_Suc by simp

lemma nodes_from_append: "nodes_from nh ph Y k q (m + n) = nodes_from nh ph Y k q m @ nodes_from nh ph Y k (q + m) n"
  by (induction m arbitrary: q) (simp_all add: nodes_from_Suc)

lemma length_nodes_from [simp]: "length (nodes_from nh ph Y k q n) = n"
  by (simp add: nodes_from_def)

lemma nodes_from_eq_append:
  assumes "xs @ ys = nodes_from nh ph Y k q n"
  shows "xs = nodes_from nh ph Y k q (length xs)" and "ys = nodes_from nh ph Y k (q + length xs) (length ys)"
proof -
  have "n = length xs + length ys" using arg_cong [OF assms, of length] by simp
  with assms show "xs = nodes_from nh ph Y k q (length xs)" "ys = nodes_from nh ph Y k (q + length xs) (length ys)"
    by (auto simp: nodes_from_append)
qed

text \<open>The children of an inner node of the tree, and of consecutive ones.\<close>

definition nodes_bind :: "('h \<Rightarrow> 'h \<Rightarrow> 'h) \<Rightarrow> 'h \<Rightarrow> 'h list \<Rightarrow> bool" where
  "nodes_bind nh ph Y \<longleftrightarrow> (\<forall>m p x y. Suc m \<le> tree_depth (length Y) \<longrightarrow> nh x y = mroot nh ph (Suc m) (block (Suc m) p Y)
     \<longrightarrow> x = mroot nh ph m (block m (2 * p) Y) \<and> y = mroot nh ph m (block m (2 * p + 1) Y))"

lemma nodes_bindI:
  assumes "no_second_preimage nh ph Y" and "leaves_apart nh ph L"
  shows "nodes_bind nh ph Y"
  unfolding nodes_bind_def
proof (intro allI impI)
  fix m p x y
  assume m: "Suc m \<le> tree_depth (length Y)" and e: "nh x y = mroot nh ph (Suc m) (block (Suc m) p Y)"
  have "block (Suc m) p Y \<noteq> []" using e assms(2) by (auto simp: leaves_apart_def)
  with no_second_preimageD [OF assms(1) _ this e] m
  show "x = mroot nh ph m (block m (2 * p) Y) \<and> y = mroot nh ph m (block m (2 * p + 1) Y)" by simp
qed

lemma pair_hashes_children:
  "\<lbrakk>pair_hashes nh cs = (ps, rest); ps = nodes_from nh ph Y (Suc m) p (length ps); nodes_bind nh ph Y; Suc m \<le> tree_depth (length Y)\<rbrakk>
   \<Longrightarrow> cs = nodes_from nh ph Y m (2 * p) (2 * length ps) @ rest"
proof (induction nh cs arbitrary: ps p rule: pair_hashes.induct)
  case (1 nh l r hs)
  obtain qs where q: "pair_hashes nh hs = (qs, rest)" "ps = nh l r # qs" using "1.prems"(1) by (auto split: prod.splits)
  have e: "nh l r = mroot nh ph (Suc m) (block (Suc m) p Y)" "qs = nodes_from nh ph Y (Suc m) (Suc p) (length qs)"
    using "1.prems"(2) unfolding q(2) by (simp_all add: nodes_from_Suc del: mroot.simps)
  have "hs = nodes_from nh ph Y m (2 * Suc p) (2 * length qs) @ rest" by (rule "1.IH" [OF q(1) e(2) "1.prems"(3,4)])
  moreover have "l = mroot nh ph m (block m (2 * p) Y) \<and> r = mroot nh ph m (block m (2 * p + 1) Y)"
    using "1.prems"(3,4) e(1) unfolding nodes_bind_def by blast
  ultimately show ?case by (simp add: q(2) nodes_from_Suc)
qed auto

lemma range_round_children:
  assumes r: "range_round nh rc hashes left right = Ret (Inr (parents, left', right'))"
    and p: "parents = nodes_from nh ph Y (Suc m) p (length parents)"
    and bind: "nodes_bind nh ph Y" "Suc m \<le> tree_depth (length Y)"
  shows "hashes = nodes_from nh ph Y m (2 * p + (if rc then 1 else 0)) (length hashes)"
  using r
proof (rule range_roundE)
  fix first children ps rest
  assume pair: "pair_hashes nh children = (ps, rest)"
    and rc: "rc \<Longrightarrow> \<exists>l h. left = l # left' \<and> hashes = h # children \<and> first = [nh l h]"
      "\<not> rc \<Longrightarrow> left' = left \<and> children = hashes \<and> first = []"
    and par: "rest = [] \<and> right' = right \<and> parents = first @ ps
      \<or> (\<exists>l r. rest = [l] \<and> right = r # right' \<and> parents = first @ ps @ [nh l r])"
  let ?f = "length first"
  have child: "x = mroot nh ph m (block m (2 * q) Y)" "y = mroot nh ph m (block m (2 * q + 1) Y)"
    if "nh x y = mroot nh ph (Suc m) (block (Suc m) q Y)" for x y q
    using bind that unfolding nodes_bind_def by blast+
  obtain ends where e: "parents = first @ ps @ ends" "rest = [] \<and> ends = [] \<or> (\<exists>l r. rest = [l] \<and> ends = [nh l r])"
    using par by auto
  note s1 = nodes_from_eq_append [OF p [unfolded e(1), symmetric, THEN sym]]
  note s2 = nodes_from_eq_append [OF s1(2)]
  have cs: "children = nodes_from nh ph Y m (2 * (p + ?f)) (2 * length ps) @ rest"
    by (rule pair_hashes_children [OF pair s2(1) bind])
  have "rest = nodes_from nh ph Y m (2 * (p + ?f + length ps)) (length rest)"
    using e(2)
  proof
    assume "\<exists>l r. rest = [l] \<and> ends = [nh l r]"
    then obtain l r where lr: "rest = [l]" "ends = [nh l r]" by blast
    have "nh l r = mroot nh ph (Suc m) (block (Suc m) (p + ?f + length ps) Y)"
      using s2(2) unfolding lr(2) by (simp add: nodes_from_Suc del: mroot.simps)
    from child(1) [OF this] show ?thesis unfolding lr(1) by (simp add: nodes_from_Suc)
  qed simp
  with cs have c: "children = nodes_from nh ph Y m (2 * (p + ?f)) (length children)"
    using nodes_from_append [of nh ph Y m "2 * (p + ?f)" "2 * length ps" "length rest"] by (simp add: algebra_simps)
  show ?thesis
  proof (cases rc)
    case True
    then obtain l h where h: "hashes = h # children" "first = [nh l h]" using rc(1) by blast
    have "nh l h = mroot nh ph (Suc m) (block (Suc m) p Y)" using s1(1) h(2) by (simp add: nodes_from_Suc del: mroot.simps)
    with child(2) c h True show ?thesis by (simp add: nodes_from_Suc)
  next
    case False
    then show ?thesis using rc(2) c by simp
  qed
qed

lemma is_right_child_of_node:
  assumes t: "in_tree l q" and r: "is_right_child (Position (node l q)) = Ret rc"
  shows "rc \<longleftrightarrow> odd q" and "pos_inv (Position (node l q))"
proof -
  show inv: "pos_inv (Position (node l q))"
    using r by (auto simp: is_right_child_def is_left_child_def out_bind_def assert_that_def Let_def split: if_splits)
  show "rc \<longleftrightarrow> odd q"
  proof (cases "l < 63")
    case True
    then show ?thesis using is_left_child_node [OF True inv] r by (auto simp: is_right_child_def)
  next
    case False
    then have l: "l = 63" "q = 0" using t by (auto simp: in_tree_def)
    have z: "isolate_rightmost_zero_bit (node 63 0) = push_bit 63 1" "push_bit 1 (push_bit 63 1) = (0 :: u64)"
      by (rule isolate_node, simp) simp
    have "is_left_child (Position (node l q)) = Ret True"
      unfolding is_left_child_def Let_def pos_word.simps l z
      using inv l by (simp add: assert_that_def)
    then show ?thesis using r l by (simp add: is_right_child_def)
  qed
qed

lemma parent_of_root: "parent (Position (node 63 0)) = Ret (Position (- 1))"
proof -
  have z: "isolate_rightmost_zero_bit (node 63 0) = push_bit 63 1" "push_bit 1 (push_bit 63 1) = (0 :: u64)"
    by (rule isolate_node, simp) simp
  have inv: "pos_inv (Position (node 63 0))" by (rule pos_inv_node) (simp_all add: in_tree_def)
  have "(node 63 0 OR push_bit 63 1) AND NOT 0 = (- 1 :: u64)"
  proof (rule bit_word_eqI)
    fix n assume "n < LENGTH(64)"
    then show "bit ((node 63 0 OR push_bit 63 1) AND NOT 0) n = bit (- 1 :: u64) n"
      unfolding bit_and_iff bit_or_iff bit_node bit_push_bit_iff bit_not_iff bit_1_iff by auto
  qed
  then show ?thesis unfolding parent_def Let_def pos_word.simps z assert_that_def using inv by simp
qed

lemma no_position: "\<not> pos_inv (Position (- 1))"
  by (simp add: pos_inv_def)

lemma parent_of_node:
  assumes t: "in_tree l q" and "pos_inv (Position (node l q))" and p: "parent (Position (node l q)) = Ret pos"
  shows "\<not> pos_inv pos \<or> (\<exists>l. pos = Position (node l (q div 2)) \<and> in_tree l (q div 2))"
proof (cases "l < 63")
  case True
  have "(2::nat) ^ (63 - l) = 2 * 2 ^ (63 - Suc l)" using True by (simp add: Suc_diff_Suc flip: power_Suc)
  then have "in_tree (Suc l) (q div 2)" using t True by (auto simp: in_tree_def)
  then show ?thesis using parent_node [OF True assms(2)] p by auto
next
  case False
  then have "l = 63" "q = 0" using t by (auto simp: in_tree_def)
  then show ?thesis using p parent_of_root no_position by simp
qed

lemma range_loop_sound:
  "\<lbrakk>range_loop nh fuel pos hashes left right = Some (Ret (Inr [mroot nh ph (tree_depth (length Y)) Y])); hashes \<noteq> [];
    \<not> pos_inv pos \<or> (\<exists>l. pos = Position (node l q) \<and> in_tree l q);
    nodes_bind nh ph Y; leaves_apart nh ph L; set Y \<subseteq> L\<rbrakk>
   \<Longrightarrow> \<exists>k\<le>tree_depth (length Y). hashes = nodes_from nh ph Y (tree_depth (length Y) - k) (q mod 2 ^ k) (length hashes)"
proof (induction fuel arbitrary: pos hashes left right q)
  case 0
  then show ?case by (intro exI [of _ 0]) (auto simp: nodes_from_Suc block_all split: if_splits)
next
  case (Suc fuel)
  let ?K = "tree_depth (length Y)"
  show ?case
  proof (cases "length hashes > 1 \<or> left \<noteq> [] \<or> right \<noteq> []")
    case False
    then show ?thesis using Suc.prems(1) by (intro exI [of _ 0]) (auto simp: nodes_from_Suc block_all)
  next
    case True
    obtain rc parents left' right' pos' where rc: "is_right_child pos = Ret rc"
      and r: "range_round nh rc hashes left right = Ret (Inr (parents, left', right'))"
      and up: "parent pos = Ret pos'"
      and loop: "range_loop nh fuel pos' parents left' right' = Some (Ret (Inr [mroot nh ph ?K Y]))"
      using Suc.prems(1) True by (auto simp: out_bind_def split: outcome.splits sum.splits)
    have "pos_inv pos" using rc by (auto simp: is_right_child_def is_left_child_def out_bind_def assert_that_def Let_def split: if_splits)
    then obtain l where l: "pos = Position (node l q)" "in_tree l q" using Suc.prems(3) by blast
    note odd = is_right_child_of_node [OF l(2) rc [unfolded l(1)]]
    have ne: "parents \<noteq> []" using range_round_smaller [OF r True Suc.prems(2)] by blast
    obtain k where k: "k \<le> ?K" "parents = nodes_from nh ph Y (?K - k) (q div 2 mod 2 ^ k) (length parents)"
      using Suc.IH [OF loop ne parent_of_node [OF l(2) odd(2) up [unfolded l(1)]] Suc.prems(4-6)] by blast
    obtain x y where xy: "hd parents = nh x y" using range_round_image [OF r] ne hd_in_set by blast
    have hd: "hd parents = mroot nh ph (?K - k) (block (?K - k) (q div 2 mod 2 ^ k) Y)"
      using k(2) ne by (cases parents) (simp_all add: nodes_from_Suc del: mroot.simps)
    have "?K - k \<noteq> 0"
    proof
      assume z: "?K - k = 0"
      have "mroot nh ph 0 (block 0 p Y) \<in> insert ph (set Y)" for p
        using block_set [of 0 p Y] by (cases "block 0 p Y") auto
      then show False using hd xy z Suc.prems(5,6) unfolding leaves_apart_def by (metis insertE subsetD)
    qed
    then obtain m where m: "?K - k = Suc m" by (cases "?K - k") auto
    have "hashes = nodes_from nh ph Y m (2 * (q div 2 mod 2 ^ k) + (if rc then 1 else 0)) (length hashes)"
      using range_round_children [OF r k(2) [unfolded m] Suc.prems(4)] m by simp
    also have "2 * (q div 2 mod 2 ^ k) + (if rc then 1 else 0) = q mod 2 ^ Suc k"
      unfolding power_Suc mod_mult2_eq odd(1) by (simp add: odd_iff_mod_2_eq_one)
    finally have eq: "hashes = nodes_from nh ph Y m (q mod 2 ^ Suc k) (length hashes)" .
    have "?K - Suc k = m" "Suc k \<le> ?K" using m by simp_all
    with eq show ?thesis by metis
  qed
qed

lemma range_verify_sound:
  assumes ok: "range_verify nh p (mroot nh ph (tree_depth (length Y)) Y) (Some i) hashes = Ret (Inr ())"
    and nsp: "no_second_preimage nh ph Y" and apart: "leaves_apart nh ph L" "set Y \<subseteq> L" "set hashes \<subseteq> L" and size: "length Y \<le> 2 ^ 63"
  shows "hashes \<noteq> []" and "unat i mod 2 ^ tree_depth (length Y) + length hashes \<le> length Y"
    and "hashes = take (length hashes) (drop (unat i mod 2 ^ tree_depth (length Y)) Y)"
proof -
  let ?K = "tree_depth (length Y)" and ?q = "unat i mod 2 ^ 63"
  show ne: "hashes \<noteq> []" using ok by (auto simp: range_verify_def split: if_splits)
  obtain hs where loop: "range_loop nh (range_fuel p hashes) (Position (node 0 ?q)) hashes (left_siblings p) (right_siblings p) = Some (Ret (Inr hs))"
    and "index hs 0 = Ret (mroot nh ph ?K Y)"
    using ok unfolding range_verify_def from_leaf_index_node
    by (auto simp: out_try_ok out_bind_eq_Ret_iff split: if_splits option.splits)
  moreover have "length hs \<le> 1"
    using loop by (rule range_loop_short)
  ultimately have root: "hs = [mroot nh ph ?K Y]" by (cases hs) (auto simp: index_def split: if_splits)
  have "in_tree 0 ?q" by (simp add: in_tree_def)
  then obtain k where k: "k \<le> ?K" "hashes = nodes_from nh ph Y (?K - k) (?q mod 2 ^ k) (length hashes)"
    using range_loop_sound [OF loop [unfolded root] ne _ nodes_bindI [OF nsp apart(1)] apart(1,2), of ?q] by blast
  have "hd hashes \<in> L" using ne apart(3) by (meson hd_in_set subsetD)
  have "?K - k = 0"
  proof (rule ccontr)
    assume "?K - k \<noteq> 0"
    then obtain m where m: "?K - k = Suc m" by (cases "?K - k") auto
    have "hd hashes = mroot nh ph (Suc m) (block (Suc m) (?q mod 2 ^ k) Y)"
      using k(2) ne unfolding m by (cases hashes) (simp_all add: nodes_from_Suc del: mroot.simps)
    with \<open>hd hashes \<in> L\<close> show False using apart(1) by (auto simp: leaves_apart_def split: if_splits)
  qed
  have "?K \<le> 63" by (rule tree_depth_bound [OF size])
  then have q: "?q mod 2 ^ ?K = unat i mod 2 ^ ?K" by (intro mod_mod_cancel le_imp_power_dvd)
  let ?s = "unat i mod 2 ^ ?K"
  have h: "hashes = nodes_from nh ph Y 0 ?s (length hashes)" using k \<open>?K - k = 0\<close> q by simp
  have at: "?s + j < length Y \<and> hashes ! j = Y ! (?s + j)" if "j < length hashes" for j
  proof -
    have "hashes ! j = mroot nh ph 0 (block 0 (?s + j) Y)"
      by (subst h) (use that in \<open>simp add: nodes_from_def\<close>)
    moreover have "hashes ! j \<in> L" using that apart(3) nth_mem by blast
    then have "hashes ! j \<noteq> ph" using apart(1) by (auto simp: leaves_apart_def)
    ultimately have "block 0 (?s + j) Y \<noteq> []" by auto
    with block_0_Nil [OF this] block_0 [of "?s + j" Y] \<open>hashes ! j = _\<close> show ?thesis by simp
  qed
  from at [of "length hashes - 1"] ne show le: "?s + length hashes \<le> length Y" by (cases hashes) auto
  show "hashes = take (length hashes) (drop ?s Y)"
    by (rule nth_equalityI) (use le at in auto)
qed

text \<open>
  C14. An accepted list of transaction infos is a range of the ledger: for a ledger info that describes the list of all
  transaction infos, if nodes have no second preimages and leaves are hashed apart from nodes, then a list accepted
  at a first version is not empty, lies within the ledger and has the hashes of the ledger's infos from the first
  version on, where only the low bits of the version count, as many as the tree has levels. Without a first version,
  only the empty list is accepted. The version itself is not compared with that of the ledger info.
\<close>
theorem transaction_range_sound:
  assumes li: "describes nh ph li (map hash_info txns)"
    and nsp: "no_second_preimage nh ph (map hash_info txns)" and apart: "leaves_apart nh ph (range hash_info)"
    and ok: "til_verify nh hash_info p li first_version = Ret (Inr ())"
  shows "case first_version of
      None \<Rightarrow> transaction_infos p = []
    | Some v \<Rightarrow>
       let first = unat v mod 2 ^ tree_depth (length txns); n = length (transaction_infos p) in
       0 < n \<and> first + n \<le> length txns
       \<and> map hash_info (transaction_infos p) = map hash_info (take n (drop first txns))
       \<and> (unat v < length txns \<longrightarrow> first = unat v)"
proof (cases first_version)
  case None
  then show ?thesis using ok by (simp add: til_verify_def range_verify_def split: if_splits)
next
  case (Some v)
  let ?Y = "map hash_info txns" and ?h = "map hash_info (transaction_infos p)"
  have size: "length ?Y \<le> 2 ^ 63" and root: "transaction_accumulator_hash li = mroot nh ph (tree_depth (length ?Y)) ?Y"
    using li by (simp_all add: describes_def acc_of_def)
  have "range_verify nh (ledger_info_to_transaction_infos_proof p) (mroot nh ph (tree_depth (length ?Y)) ?Y) (Some v) ?h = Ret (Inr ())"
    using ok Some by (simp add: til_verify_def root)
  from range_verify_sound [OF this nsp apart _ _ size]
  have "?h \<noteq> []" "unat v mod 2 ^ tree_depth (length ?Y) + length ?h \<le> length ?Y"
    "?h = take (length ?h) (drop (unat v mod 2 ^ tree_depth (length ?Y)) ?Y)" by auto
  moreover have "unat v < length txns \<longrightarrow> unat v mod 2 ^ tree_depth (length txns) = unat v"
    using le_tree_depth [of "length txns"] by simp
  ultimately show ?thesis using Some by (simp add: Let_def take_map drop_map)
qed

definition three_of_five :: "(nat, term_hash) transaction_info_list_with_proof" where
  "three_of_five = \<lparr>ledger_info_to_transaction_infos_proof =
       \<lparr>left_siblings = [Leaf 4], right_siblings = [Node (Node (Leaf 8) Placeholder) Placeholder]\<rparr>,
     transaction_infos = [5, 6, 7]\<rparr>"

theorem transaction_range_sound_witness:
  "describes Node Placeholder five_ledger (map Leaf [4, 5, 6, 7, 8])
   \<and> til_verify Node Leaf three_of_five five_ledger (Some 1) = Ret (Inr ())
   \<and> map Leaf (transaction_infos three_of_five) = map Leaf (take 3 (drop 1 [4, 5, 6, 7, 8]))"
proof -
  have ok: "til_verify Node Leaf three_of_five five_ledger (Some 1) = Ret (Inr ())" by code_simp
  have "tree_depth 5 = 3" by code_simp
  then show ?thesis
    using transaction_range_sound [OF five_describes node_no_second_preimage leaf_apart ok] five_describes ok
    by (simp add: three_of_five_def)
qed

section \<open>Proofs with too many siblings\<close>

text \<open>The leftmost position of a level, one level above the root standing for none.\<close>

definition leftmost :: "nat \<Rightarrow> position" where
  "leftmost l = (if l < 64 then Position (node l 0) else Position (- 1))"

lemma leftmost_up:
  assumes "l < 64"
  shows "is_right_child (leftmost l) = Ret False" and "parent (leftmost l) = Ret (leftmost (Suc l))"
proof -
  have t: "in_tree l 0" using assms by (simp add: in_tree_def)
  have inv: "pos_inv (Position (node l 0))" by (rule pos_inv_node [OF t]) simp
  then obtain b where "is_right_child (Position (node l 0)) = Ret b"
    by (auto simp: is_right_child_def is_left_child_def assert_that_def Let_def)
  with is_right_child_of_node(1) [OF t this] show "is_right_child (leftmost l) = Ret False" using assms by (simp add: leftmost_def)
  show "parent (leftmost l) = Ret (leftmost (Suc l))"
  proof (cases "l < 63")
    case True
    then show ?thesis using parent_node [OF True inv] by (simp add: leftmost_def)
  next
    case False
    then have "l = 63" using assms by simp
    then show ?thesis using parent_of_root by (simp add: leftmost_def)
  qed
qed

lemma range_loop_beyond_root:
  "\<lbrakk>left \<noteq> []; l + length right = 64; length right < fuel\<rbrakk> \<Longrightarrow> range_loop nh fuel (leftmost l) [h] left right = Some Panic"
proof (induction right arbitrary: l fuel h)
  case Nil
  then obtain n where "fuel = Suc n" by (cases fuel) auto
  then show ?case using Nil no_position
    by (simp add: leftmost_def is_right_child_def is_left_child_def assert_that_def)
next
  case (Cons r right)
  then obtain n where n: "fuel = Suc n" "length right < n" by (cases fuel) auto
  have l: "l < 64" using Cons.prems(2) by simp
  have "range_loop nh n (leftmost (Suc l)) [nh h r] left right = Some Panic"
    using Cons.IH [OF Cons.prems(1) _ n(2)] Cons.prems(2) by simp
  then show ?case by (simp add: n leftmost_up [OF l] range_round_def)
qed

text \<open>
  C30. The verifier of range proofs panics on some malformed proofs, instead of returning an error: with two left and 63
  right siblings, within the limits that it checks, and a single leaf hash at index 1, the loop climbs past the root
  of the largest tree and the position's invariant fails, whatever the hashes and the expected root are.
\<close>
theorem range_verify_panics:
  assumes "length right = 63"
  shows "range_verify nh \<lparr>left_siblings = [a, b], right_siblings = right\<rparr> root (Some 1) [h] = Panic"
proof -
  have one: "from_leaf_index 1 = Ret (Position (node 0 1))" using from_leaf_index_node [of 1] by simp
  have t: "in_tree 0 1" "in_tree 1 0" by (simp_all add: in_tree_def)
  have inv: "pos_inv (Position (node 0 1))" by (rule pos_inv_node [OF t(1)]) simp
  have rc: "is_right_child (Position (node 0 1)) = Ret True"
    using is_left_child_node [OF _ inv] by (simp add: is_right_child_def)
  have up: "parent (Position (node 0 1)) = Ret (leftmost 1)"
    using parent_node [OF _ inv] by (simp add: leftmost_def)
  have "range_loop nh 66 (Position (node 0 1)) [h] [a, b] right = range_loop nh 65 (leftmost 1) [nh a h] [b] right"
    by (subst range_loop.simps) (simp add: rc up range_round_def del: range_loop.simps One_nat_def)
  moreover have "range_loop nh 65 (leftmost 1) [nh a h] [b] right = Some Panic"
    by (rule range_loop_beyond_root) (simp_all add: assms)
  ultimately show ?thesis
    by (simp add: range_verify_def one range_fuel_def assms MAX_ACCUMULATOR_PROOF_DEPTH_def del: range_loop.simps One_nat_def)
qed

theorem range_verify_panics_witness:
  "length (replicate 63 (Leaf 0)) = 63
   \<and> range_verify Node \<lparr>left_siblings = [Leaf 1, Leaf 2], right_siblings = replicate 63 (Leaf 0)\<rparr> (Leaf 3) (Some 1) [Leaf 4] = Panic"
  using range_verify_panics [of "replicate 63 (Leaf 0)" Node "Leaf 1" "Leaf 2" "Leaf 3" "Leaf 4"] by simp

end
