(* ===== verification/Hash.thy ===== *)
theory Hash
  imports Prelude
begin

text \<open>
  Hash values (\<^verbatim>\<open>crates/ol-crypto/src/hash.rs\<close>): 32 bytes, read as bits and nibbles from the most significant bit of
  the first byte on, and the hashers that salt their input with the name of the hashed type. SHA3-256 is an argument,
  a function of the bytes fed to it.
\<close>

unbundle bit_operations_syntax

type_synonym hash_value = bytes

definition LENGTH_HASH :: nat where
  "LENGTH_HASH = 32"

definition LENGTH_IN_BITS :: nat where
  "LENGTH_IN_BITS = LENGTH_HASH * 8"

definition wf_hash :: "hash_value \<Rightarrow> bool" where
  "wf_hash h \<longleftrightarrow> length h = LENGTH_HASH"

section \<open>Construction\<close>

datatype parse_error = HashValueParseError

definition from_slice :: "bytes \<Rightarrow> parse_error + hash_value" where
  "from_slice bs = (if length bs = LENGTH_HASH then Inr bs else Inl HashValueParseError)"

definition zero_hash :: hash_value where
  "zero_hash = replicate LENGTH_HASH 0"

definition create_literal_hash :: "bytes \<Rightarrow> hash_value outcome" where
  "create_literal_hash word =
     (if length word \<le> LENGTH_HASH
      then expect_ok (from_slice (word @ replicate (LENGTH_HASH - length word) 0))
      else Panic)"

section \<open>Bits and nibbles\<close>

definition hash_bit :: "hash_value \<Rightarrow> nat \<Rightarrow> bool outcome" where
  "hash_bit h i = out_bind (index h (i div 8)) (\<lambda>b. Ret (drop_bit (7 - i mod 8) b AND 1 \<noteq> 0))"

definition nibble :: "hash_value \<Rightarrow> nat \<Rightarrow> u8 outcome" where
  "nibble h i = out_bind (index h (i div 2)) (\<lambda>b. Ret (drop_bit (if i mod 2 = 0 then 4 else 0) b AND 0x0F))"

text \<open>The bit iterator, from either end, yields \<open>get_bit\<close> of the positions \<open>0, ..., 255\<close>.\<close>

definition get_bit :: "bytes \<Rightarrow> nat \<Rightarrow> bool" where
  "get_bit h i = (drop_bit (7 - i mod 8) (h ! (i div 8)) AND 1 \<noteq> 0)"

definition iter_bits :: "hash_value \<Rightarrow> bool list" where
  "iter_bits h = map (get_bit h) [0..<LENGTH_IN_BITS]"

fun set_bits :: "bytes \<Rightarrow> (nat \<times> bool) list \<Rightarrow> bytes" where
  "set_bits buf [] = buf"
| "set_bits buf ((i, b) # bs) =
     set_bits (if b then buf[i div 8 := (buf ! (i div 8)) OR push_bit (7 - i mod 8) 1] else buf) bs"

definition from_bit_iter :: "bool list \<Rightarrow> parse_error + hash_value" where
  "from_bit_iter iter =
     (if length iter \<noteq> LENGTH_IN_BITS then Inl HashValueParseError
      else Inr (set_bits (replicate LENGTH_HASH 0) (enumerate 0 iter)))"

definition common_prefix_bits_len :: "hash_value \<Rightarrow> hash_value \<Rightarrow> nat" where
  "common_prefix_bits_len a b = length (takeWhile (\<lambda>(x, y). x = y) (zip (iter_bits a) (iter_bits b)))"

section \<open>Hexadecimal\<close>

definition hex_digit :: "nat \<Rightarrow> char" where
  "hex_digit n = ''0123456789abcdef'' ! n"

definition hex_byte :: "u8 \<Rightarrow> string" where
  "hex_byte b = [hex_digit (unat b div 16), hex_digit (unat b mod 16)]"

definition to_hex :: "hash_value \<Rightarrow> string" where
  "to_hex h = concat (map hex_byte h)"

definition to_hex_literal :: "hash_value \<Rightarrow> string" where
  "to_hex_literal h = ''0x'' @ to_hex h"

definition display_hash :: "hash_value \<Rightarrow> string" where
  "display_hash h = concat (map hex_byte (take 4 h))"

text \<open>\<open>decode\<close> is the decoder of the \<^verbatim>\<open>hex\<close> package for arrays of 32 bytes.\<close>

definition from_hex :: "(string \<Rightarrow> bytes option) \<Rightarrow> string \<Rightarrow> parse_error + hash_value" where
  "from_hex decode s = (case decode s of None \<Rightarrow> Inl HashValueParseError | Some bs \<Rightarrow> Inr bs)"

section \<open>Hashers\<close>

definition HASH_PREFIX :: bytes where
  "HASH_PREFIX = map (\<lambda>c. word_of_nat (of_char c)) ''OL::''"

definition prefixed_hash :: "(bytes \<Rightarrow> hash_value) \<Rightarrow> bytes \<Rightarrow> hash_value" where
  "prefixed_hash sha3 buffer = sha3 (HASH_PREFIX @ buffer)"

text \<open>The state of a hasher is what has been fed to it.\<close>

definition hasher_new :: "(bytes \<Rightarrow> hash_value) \<Rightarrow> bytes \<Rightarrow> bytes" where
  "hasher_new sha3 typename = (if typename = [] then [] else prefixed_hash sha3 typename)"

definition hasher_update :: "bytes \<Rightarrow> bytes \<Rightarrow> bytes" where
  "hasher_update state bs = state @ bs"

definition hasher_finish :: "(bytes \<Rightarrow> hash_value) \<Rightarrow> bytes \<Rightarrow> hash_value" where
  "hasher_finish sha3 state = sha3 state"

definition hash_all :: "(bytes \<Rightarrow> hash_value) \<Rightarrow> bytes \<Rightarrow> bytes \<Rightarrow> hash_value" where
  "hash_all sha3 salt bs = hasher_finish sha3 (hasher_update (hasher_new sha3 salt) bs)"

text \<open>The hashes of inner nodes and of leaves of Merkle trees (\<^verbatim>\<open>types/src/proof/mod.rs\<close>).\<close>

definition internal_node_hash :: "(bytes \<Rightarrow> hash_value) \<Rightarrow> bytes \<Rightarrow> hash_value \<Rightarrow> hash_value \<Rightarrow> hash_value" where
  "internal_node_hash sha3 salt left_child right_child =
     hasher_finish sha3 (hasher_update (hasher_update (hasher_new sha3 salt) left_child) right_child)"

definition leaf_node_hash :: "(bytes \<Rightarrow> hash_value) \<Rightarrow> bytes \<Rightarrow> hash_value \<Rightarrow> hash_value \<Rightarrow> hash_value" where
  "leaf_node_hash sha3 salt key value_hash =
     hasher_finish sha3 (hasher_update (hasher_update (hasher_new sha3 salt) key) value_hash)"

section \<open>Lemmas\<close>

lemma u8_and_1: "(v::u8) AND 1 \<noteq> 0 \<longleftrightarrow> bit v 0"
  by (simp add: and_one_eq bit_0 odd_iff_mod_2_eq_one)

lemma get_bit_alt: "get_bit h i = bit (h ! (i div 8)) (7 - i mod 8)"
  unfolding get_bit_def u8_and_1 by (simp add: bit_drop_bit_eq)

lemma length_iter_bits [simp]: "length (iter_bits h) = LENGTH_IN_BITS"
  by (simp add: iter_bits_def)

lemma length_set_bits [simp]: "length (set_bits buf bs) = length buf"
  by (induction buf bs rule: set_bits.induct) simp_all

lemma get_bit_set_bits:
  "\<lbrakk>j < 8 * length buf; \<forall>(i, b)\<in>set bs. i < 8 * length buf\<rbrakk>
   \<Longrightarrow> get_bit (set_bits buf bs) j \<longleftrightarrow> get_bit buf j \<or> (j, True) \<in> set bs"
proof (induction buf bs rule: set_bits.induct)
  case (2 buf i b bs)
  have i: "i div 8 < length buf" "j div 8 < length buf" using 2(2,3) by auto
  have eq: "i = j \<longleftrightarrow> i div 8 = j div 8 \<and> 7 - i mod 8 = 7 - j mod 8"
  proof
    assume a: "i div 8 = j div 8 \<and> 7 - i mod 8 = 7 - j mod 8"
    then have "i mod 8 = j mod 8" using mod_less_divisor [of 8 i] mod_less_divisor [of 8 j] by linarith
    with a show "i = j" by (metis div_mod_decomp)
  qed simp
  have "get_bit (buf[i div 8 := buf ! (i div 8) OR push_bit (7 - i mod 8) 1]) j \<longleftrightarrow> get_bit buf j \<or> i = j"
    using i eq by (auto simp: get_bit_alt nth_list_update bit_or_iff bit_push_bit_iff bit_1_iff bit_exp_iff)
  with 2 show ?case by (auto split: if_splits)
qed simp

lemma get_bit_zero [simp]: "i < LENGTH_IN_BITS \<Longrightarrow> \<not> get_bit (replicate LENGTH_HASH 0) i"
  by (simp add: get_bit_alt LENGTH_IN_BITS_def less_mult_imp_div_less)

lemma hash_eqI:
  assumes "length a = length b" and "\<And>i. i < 8 * length a \<Longrightarrow> get_bit a i = get_bit b i"
  shows "a = b"
proof (rule nth_equalityI [OF assms(1)], rule bit_word_eqI)
  fix i n assume i: "i < length a" and n: "n < LENGTH(8)"
  define m where "m = 7 - n"
  then have m: "m < 8" "7 - m = n" using n by auto
  then have "(8 * i + m) div 8 = i" "(8 * i + m) mod 8 = m" "8 * i + m < 8 * length a" using i by auto
  with assms(2) [of "8 * i + m"] m show "bit (a ! i) n = bit (b ! i) n" by (simp add: get_bit_alt)
qed

lemma from_bit_iter_ok:
  assumes "length bs = LENGTH_IN_BITS"
  obtains h where "from_bit_iter bs = Inr h" and "wf_hash h" and "iter_bits h = bs"
proof
  let ?h = "set_bits (replicate LENGTH_HASH 0) (enumerate 0 bs)"
  show "from_bit_iter bs = Inr ?h" using assms by (simp add: from_bit_iter_def)
  show "wf_hash ?h" by (simp add: wf_hash_def)
  show "iter_bits ?h = bs"
  proof (rule nth_equalityI)
    fix i assume "i < length (iter_bits ?h)"
    then have i: "i < LENGTH_IN_BITS" by simp
    have "(i, True) \<in> set (enumerate 0 bs) \<longleftrightarrow> bs ! i" using i assms by (auto simp: in_set_enumerate_eq)
    moreover have "get_bit ?h i \<longleftrightarrow> get_bit (replicate LENGTH_HASH 0) i \<or> (i, True) \<in> set (enumerate 0 bs)"
      using i assms by (intro get_bit_set_bits) (auto simp: LENGTH_IN_BITS_def in_set_enumerate_eq)
    ultimately show "iter_bits ?h ! i = bs ! i" using i by (simp add: iter_bits_def)
  qed (simp add: assms)
qed

lemma iter_bits_inject:
  assumes "wf_hash a" and "wf_hash b" and "iter_bits a = iter_bits b"
  shows "a = b"
proof (rule hash_eqI)
  fix i assume "i < 8 * length a"
  then have "i < LENGTH_IN_BITS" using assms(1) by (simp add: wf_hash_def LENGTH_IN_BITS_def)
  then show "get_bit a i = get_bit b i" using arg_cong [OF assms(3), of "\<lambda>bs. bs ! i"] by (simp add: iter_bits_def)
qed (use assms in \<open>simp add: wf_hash_def\<close>)

lemma takeWhile_zip_eq:
  "length xs = length ys \<Longrightarrow> n \<le> length xs \<Longrightarrow>
   n \<le> length (takeWhile (\<lambda>(x, y). x = y) (zip xs ys)) \<longleftrightarrow> take n xs = take n ys"
proof (induction xs ys arbitrary: n rule: list_induct2)
  case (Cons x xs y ys)
  then show ?case by (cases n) auto
qed simp

lemma common_prefix_iff:
  "n \<le> LENGTH_IN_BITS \<Longrightarrow> n \<le> common_prefix_bits_len a b \<longleftrightarrow> take n (iter_bits a) = take n (iter_bits b)"
  unfolding common_prefix_bits_len_def by (rule takeWhile_zip_eq) simp_all

text \<open>
  Hash values and their bits determine each other: every list of 256 bits is turned into a well-formed hash value
  with exactly these bits, and the bits of a well-formed hash value give it back.
\<close>
theorem hash_bits_roundtrip:
  assumes "wf_hash h" and "length bs = LENGTH_IN_BITS"
  shows "from_bit_iter (iter_bits h) = Inr h
    \<and> (\<exists>g. from_bit_iter bs = Inr g \<and> wf_hash g \<and> iter_bits g = bs)"
proof
  obtain g where "from_bit_iter (iter_bits h) = Inr g" "wf_hash g" "iter_bits g = iter_bits h"
    using from_bit_iter_ok [of "iter_bits h"] by auto
  then show "from_bit_iter (iter_bits h) = Inr h" using iter_bits_inject [OF _ assms(1)] by blast
  show "\<exists>g. from_bit_iter bs = Inr g \<and> wf_hash g \<and> iter_bits g = bs" using from_bit_iter_ok [OF assms(2)] by blast
qed

theorem hash_bits_roundtrip_witness:
  "wf_hash (replicate 32 5) \<and> length (replicate 256 True) = LENGTH_IN_BITS
   \<and> from_bit_iter (iter_bits (replicate 32 5)) = Inr (replicate 32 5)"
proof -
  have h: "wf_hash (replicate 32 5)" "length (replicate 256 True) = LENGTH_IN_BITS"
    by (simp_all add: wf_hash_def LENGTH_HASH_def LENGTH_IN_BITS_def)
  show ?thesis using hash_bits_roundtrip [OF h] h by blast
qed

end
