(* ===== verification/SparseMerkle.thy ===== *)
theory SparseMerkle
  imports Hash
begin

text \<open>
  Proofs of inclusion and non-inclusion in a sparse Merkle tree, and of everything up to a rightmost leaf
  (\<^verbatim>\<open>types/src/proof/definition.rs\<close>). The hash of an inner node \<open>nh\<close>, the hash of a leaf \<open>lh\<close> and the placeholder \<open>ph\<close>
  are arguments. The theorem says which claims about a tree have a proof.
\<close>

section \<open>The proofs\<close>

record 'h sparse_leaf =
  leaf_key :: hash_value
  leaf_value_hash :: 'h

datatype 'h node_in_proof = LeafNode "'h sparse_leaf" | OtherNode 'h

definition node_hash :: "('h sparse_leaf \<Rightarrow> 'h) \<Rightarrow> 'h node_in_proof \<Rightarrow> 'h" where
  "node_hash lh n = (case n of LeafNode leaf \<Rightarrow> lh leaf | OtherNode h \<Rightarrow> h)"

record 'h sparse_proof =
  sp_leaf :: "'h sparse_leaf option"
  sp_siblings :: "'h list"

record 'h sparse_proof_ext =
  ext_leaf :: "'h sparse_leaf option"
  ext_siblings :: "'h node_in_proof list"

definition from_proof_ext :: "('h sparse_leaf \<Rightarrow> 'h) \<Rightarrow> 'h sparse_proof_ext \<Rightarrow> 'h sparse_proof" where
  "from_proof_ext lh p = \<lparr>sp_leaf = ext_leaf p, sp_siblings = map (node_hash lh) (ext_siblings p)\<rparr>"

text \<open>The checks of the keys, and the hash along the path from the leaf to the root.\<close>

definition sp_check_keys :: "'h sparse_proof \<Rightarrow> hash_value \<Rightarrow> 'h option \<Rightarrow> string + unit" where
  "sp_check_keys p element_key element_hash =
     (case (element_hash, sp_leaf p) of
        (Some hash, Some leaf) \<Rightarrow>
          if element_key \<noteq> leaf_key leaf then Inl ''Keys do not match.''
          else if hash \<noteq> leaf_value_hash leaf then Inl ''Value hashes do not match.'' else Inr ()
      | (Some hash, None) \<Rightarrow> Inl ''Expected inclusion proof. Found non-inclusion proof.''
      | (None, Some leaf) \<Rightarrow>
          if element_key = leaf_key leaf then Inl ''Expected non-inclusion proof, but key exists in proof.''
          else if common_prefix_bits_len element_key (leaf_key leaf) < length (sp_siblings p)
               then Inl ''Key would not have ended up in the subtree.'' else Inr ()
      | (None, None) \<Rightarrow> Inr ())"

definition sp_fold :: "('h \<Rightarrow> 'h \<Rightarrow> 'h) \<Rightarrow> 'h \<Rightarrow> ('h \<times> bool) list \<Rightarrow> 'h" where
  "sp_fold nh h path = foldl (\<lambda>hash (sibling_hash, b). if b then nh sibling_hash hash else nh hash sibling_hash) h path"

definition verify_by_hash :: "('h \<Rightarrow> 'h \<Rightarrow> 'h) \<Rightarrow> ('h sparse_leaf \<Rightarrow> 'h) \<Rightarrow> 'h \<Rightarrow> 'h sparse_proof \<Rightarrow> 'h \<Rightarrow> hash_value
    \<Rightarrow> 'h option \<Rightarrow> string + unit" where
  "verify_by_hash nh lh ph p expected_root_hash element_key element_hash =
     (if length (sp_siblings p) \<le> LENGTH_IN_BITS
      then and_then (sp_check_keys p element_key element_hash) (\<lambda>_.
             let current_hash = (case sp_leaf p of None \<Rightarrow> ph | Some leaf \<Rightarrow> lh leaf);
                 actual_root_hash = sp_fold nh current_hash (zip (sp_siblings p)
                   (drop (LENGTH_IN_BITS - length (sp_siblings p)) (rev (iter_bits element_key)))) in
             if actual_root_hash = expected_root_hash then Inr () else Inl ''Root hashes do not match.'')
      else Inl ''Sparse Merkle Tree proof has more than 256 siblings.'')"

text \<open>\<open>hash_value_of\<close> is the hash of an element.\<close>

definition sp_verify :: "('h \<Rightarrow> 'h \<Rightarrow> 'h) \<Rightarrow> ('h sparse_leaf \<Rightarrow> 'h) \<Rightarrow> 'h \<Rightarrow> ('v \<Rightarrow> 'h) \<Rightarrow> 'h sparse_proof \<Rightarrow> 'h \<Rightarrow> hash_value
    \<Rightarrow> 'v option \<Rightarrow> string + unit" where
  "sp_verify nh lh ph hash_value_of p expected_root_hash element_key element_value =
     verify_by_hash nh lh ph p expected_root_hash element_key (map_option hash_value_of element_value)"

definition ext_verify_by_hash :: "('h \<Rightarrow> 'h \<Rightarrow> 'h) \<Rightarrow> ('h sparse_leaf \<Rightarrow> 'h) \<Rightarrow> 'h \<Rightarrow> 'h sparse_proof_ext \<Rightarrow> 'h \<Rightarrow> hash_value
    \<Rightarrow> 'h option \<Rightarrow> string + unit" where
  "ext_verify_by_hash nh lh ph p = verify_by_hash nh lh ph (from_proof_ext lh p)"

definition ext_verify :: "('h \<Rightarrow> 'h \<Rightarrow> 'h) \<Rightarrow> ('h sparse_leaf \<Rightarrow> 'h) \<Rightarrow> 'h \<Rightarrow> ('v \<Rightarrow> 'h) \<Rightarrow> 'h sparse_proof_ext \<Rightarrow> 'h \<Rightarrow> hash_value
    \<Rightarrow> 'v option \<Rightarrow> string + unit" where
  "ext_verify nh lh ph hash_value_of p = sp_verify nh lh ph hash_value_of (from_proof_ext lh p)"

text \<open>Range proofs of sparse Merkle trees: the right siblings of the path to the rightmost known leaf.\<close>

record 'h sparse_range_proof =
  range_right_siblings :: "'h list"

fun sr_loop :: "('h \<Rightarrow> 'h \<Rightarrow> 'h) \<Rightarrow> 'h \<Rightarrow> bool list \<Rightarrow> 'h list \<Rightarrow> 'h list \<Rightarrow> string + 'h" where
  "sr_loop nh current_hash [] left right = Inr current_hash"
| "sr_loop nh current_hash (b # bs) left right =
     (if b then case left of [] \<Rightarrow> Inl ''Missing left sibling.'' | l # ls \<Rightarrow> sr_loop nh (nh l current_hash) bs ls right
      else case right of [] \<Rightarrow> Inl ''Missing right sibling.'' | r # rs \<Rightarrow> sr_loop nh (nh current_hash r) bs left rs)"

text \<open>There is no check of the number of siblings: if there are more than bits, the subtraction panics.\<close>

definition sr_verify :: "('h \<Rightarrow> 'h \<Rightarrow> 'h) \<Rightarrow> ('h sparse_leaf \<Rightarrow> 'h) \<Rightarrow> 'h sparse_range_proof \<Rightarrow> 'h \<Rightarrow> 'h sparse_leaf \<Rightarrow> 'h list
    \<Rightarrow> (string + unit) outcome" where
  "sr_verify nh lh p expected_root_hash rightmost_known_leaf left_siblings =
     (let num_siblings = length left_siblings + length (range_right_siblings p) in
      out_bind (usize_sub LENGTH_IN_BITS num_siblings) (\<lambda>skipped. Ret
        (and_then (sr_loop nh (lh rightmost_known_leaf)
                    (drop skipped (rev (iter_bits (leaf_key rightmost_known_leaf))))
                    left_siblings (range_right_siblings p)) (\<lambda>current_hash.
          if current_hash = expected_root_hash then Inr () else Inl ''Root hashes do not match.''))))"


section \<open>The tree of a list of leaves\<close>

text \<open>
  The tree below a node, over the remaining bits of the keys: no leaf is the placeholder, a single leaf stands at
  the highest place where it is alone, and two or more are split by their next bit.
\<close>

type_synonym 'h entries = "(bool list \<times> 'h sparse_leaf) list"

definition below :: "bool \<Rightarrow> 'h entries \<Rightarrow> 'h entries" where
  "below b E = map (\<lambda>(bs, l). (tl bs, l)) (filter (\<lambda>(bs, l). hd bs = b) E)"

fun smt_node :: "('h \<Rightarrow> 'h \<Rightarrow> 'h) \<Rightarrow> ('h sparse_leaf \<Rightarrow> 'h) \<Rightarrow> 'h \<Rightarrow> nat \<Rightarrow> 'h entries \<Rightarrow> 'h" where
  "smt_node nh lh ph n [] = ph"
| "smt_node nh lh ph n [(bs, l)] = lh l"
| "smt_node nh lh ph 0 E = ph"
| "smt_node nh lh ph (Suc n) E = nh (smt_node nh lh ph n (below False E)) (smt_node nh lh ph n (below True E))"

definition entries_of :: "'h sparse_leaf list \<Rightarrow> 'h entries" where
  "entries_of leaves = map (\<lambda>l. (iter_bits (leaf_key l), l)) leaves"

definition smt_root :: "('h \<Rightarrow> 'h \<Rightarrow> 'h) \<Rightarrow> ('h sparse_leaf \<Rightarrow> 'h) \<Rightarrow> 'h \<Rightarrow> 'h sparse_leaf list \<Rightarrow> 'h" where
  "smt_root nh lh ph leaves = smt_node nh lh ph LENGTH_IN_BITS (entries_of leaves)"

definition smt_lookup :: "'h sparse_leaf list \<Rightarrow> hash_value \<Rightarrow> 'h option" where
  "smt_lookup leaves = map_of (map (\<lambda>l. (leaf_key l, leaf_value_hash l)) leaves)"

text \<open>
  What is required of the hash functions: inner nodes, leaves and the placeholder are hashed apart (their hashers are
  salted with the names of their types), and no node of this tree has a second preimage.
\<close>

fun nodes_bound :: "('h \<Rightarrow> 'h \<Rightarrow> 'h) \<Rightarrow> ('h sparse_leaf \<Rightarrow> 'h) \<Rightarrow> 'h \<Rightarrow> nat \<Rightarrow> 'h entries \<Rightarrow> bool" where
  "nodes_bound nh lh ph 0 E \<longleftrightarrow> True"
| "nodes_bound nh lh ph (Suc n) E \<longleftrightarrow> (2 \<le> length E \<longrightarrow>
     (\<forall>c d. nh c d = smt_node nh lh ph (Suc n) E \<longrightarrow>
        c = smt_node nh lh ph n (below False E) \<and> d = smt_node nh lh ph n (below True E))
     \<and> nodes_bound nh lh ph n (below False E) \<and> nodes_bound nh lh ph n (below True E))"

definition hashes_apart :: "('h \<Rightarrow> 'h \<Rightarrow> 'h) \<Rightarrow> ('h sparse_leaf \<Rightarrow> 'h) \<Rightarrow> 'h \<Rightarrow> bool" where
  "hashes_apart nh lh ph \<longleftrightarrow> (\<forall>a b. nh a b \<noteq> ph) \<and> (\<forall>a b l. nh a b \<noteq> lh l) \<and> (\<forall>l. lh l \<noteq> ph)"

definition smt_binding :: "('h \<Rightarrow> 'h \<Rightarrow> 'h) \<Rightarrow> ('h sparse_leaf \<Rightarrow> 'h) \<Rightarrow> 'h \<Rightarrow> 'h sparse_leaf list \<Rightarrow> bool" where
  "smt_binding nh lh ph leaves \<longleftrightarrow> hashes_apart nh lh ph \<and> (\<forall>l\<in>set leaves. \<forall>l'. lh l' = lh l \<longrightarrow> l' = l)
     \<and> nodes_bound nh lh ph LENGTH_IN_BITS (entries_of leaves)"

section \<open>Paths\<close>

text \<open>The hash along a path, from the top.\<close>

fun path_hash :: "('h \<Rightarrow> 'h \<Rightarrow> 'h) \<Rightarrow> 'h \<Rightarrow> 'h list \<Rightarrow> bool list \<Rightarrow> 'h" where
  "path_hash nh h (s # ss) (b # bs) = (if b then nh s (path_hash nh h ss bs) else nh (path_hash nh h ss bs) s)"
| "path_hash nh h ss bs = h"

lemma sp_fold_path:
  "length ss = length bs \<Longrightarrow> sp_fold nh h (zip (rev ss) (rev bs)) = path_hash nh h ss bs"
  by (induction ss bs rule: list_induct2) (simp_all add: sp_fold_def)

definition wf_entries :: "nat \<Rightarrow> 'h entries \<Rightarrow> bool" where
  "wf_entries n E \<longleftrightarrow> distinct (map fst E) \<and> (\<forall>(bs, l)\<in>set E. length bs = n)"

lemma below_set: "wf_entries (Suc n) E \<Longrightarrow> set (below b E) = {(bs, l). (b # bs, l) \<in> set E}"
  by (fastforce simp: below_def wf_entries_def length_Suc_conv image_iff)

lemma wf_below: "wf_entries (Suc n) E \<Longrightarrow> wf_entries n (below b E)"
proof -
  assume wf: "wf_entries (Suc n) E"
  have "inj_on fst (set (below b E))"
    using wf unfolding below_set [OF wf] wf_entries_def distinct_map by (fastforce simp: inj_on_def)
  moreover have "distinct (below b E)"
  proof -
    have shape: "\<exists>a l. x = (b # a, l)" if "x \<in> set (filter (\<lambda>(bs, l). hd bs = b) E)" for x
      using wf that by (cases x; cases "fst x") (auto simp: wf_entries_def)
    have "inj_on (\<lambda>(bs, l). (tl bs, l)) (set (filter (\<lambda>(bs, l). hd bs = b) E))"
    proof (rule inj_onI)
      fix x y
      assume a: "x \<in> set (filter (\<lambda>(bs, l). hd bs = b) E)" "y \<in> set (filter (\<lambda>(bs, l). hd bs = b) E)"
        "(case x of (bs, l) \<Rightarrow> (tl bs, l)) = (case y of (bs, l) \<Rightarrow> (tl bs, l))"
      obtain us l vs m where "x = (b # us, l)" "y = (b # vs, m)" using shape [OF a(1)] shape [OF a(2)] by blast
      with a(3) show "x = y" by simp
    qed
    moreover have "distinct E" using wf by (simp add: wf_entries_def distinct_map)
    ultimately show ?thesis by (simp add: below_def distinct_map)
  qed
  ultimately show ?thesis using wf by (auto simp: wf_entries_def distinct_map below_set [OF wf])
qed

lemma wf_0: "wf_entries 0 E \<Longrightarrow> length E \<le> 1"
  by (cases E; cases "tl E") (auto simp: wf_entries_def)

fun under :: "bool list \<Rightarrow> 'h entries \<Rightarrow> 'h entries" where
  "under [] E = E"
| "under (b # bs) E = under bs (below b E)"

lemma under_set:
  "wf_entries n E \<Longrightarrow> length bs \<le> n \<Longrightarrow> set (under bs E) = {(cs, l). (bs @ cs, l) \<in> set E}"
proof (induction bs arbitrary: n E)
  case (Cons b bs)
  then obtain m where n: "n = Suc m" by (cases n) auto
  with Cons wf_below [of m E b] below_set [of m E b] show ?case by simp
qed simp

definition leaf_hash :: "('h sparse_leaf \<Rightarrow> 'h) \<Rightarrow> 'h \<Rightarrow> 'h sparse_leaf option \<Rightarrow> 'h" where
  "leaf_hash lh ph leaf = (case leaf of None \<Rightarrow> ph | Some l \<Rightarrow> lh l)"

lemma smt_node_split:
  "2 \<le> length E \<Longrightarrow> smt_node nh lh ph (Suc n) E = nh (smt_node nh lh ph n (below False E)) (smt_node nh lh ph n (below True E))"
  by (cases E; cases "tl E") auto

lemma short_cases: "length E \<le> 1 \<Longrightarrow> (E = [] \<Longrightarrow> P) \<Longrightarrow> (\<And>bs l. E = [(bs, l)] \<Longrightarrow> P) \<Longrightarrow> P"
  by (cases E; cases "tl E") auto

text \<open>What the siblings of a path can be, and what is at its end.\<close>

lemma path_sound:
  "\<lbrakk>path_hash nh (leaf_hash lh ph leaf) ss bs = smt_node nh lh ph n E; length ss = length bs; wf_entries n E;
    hashes_apart nh lh ph; nodes_bound nh lh ph n E; \<forall>(cs, l)\<in>set E. \<forall>l'. lh l' = lh l \<longrightarrow> l' = l\<rbrakk>
   \<Longrightarrow> length bs \<le> n \<and> map snd (under bs E) = (case leaf of None \<Rightarrow> [] | Some l \<Rightarrow> [l])"
proof (induction ss arbitrary: bs n E)
  case Nil
  have h: "leaf_hash lh ph leaf = smt_node nh lh ph n E" using Nil.prems(1,2) by simp
  have "length E \<le> 1"
  proof (rule ccontr)
    assume long: "\<not> length E \<le> 1"
    then obtain m where n: "n = Suc m" using wf_0 [of E] Nil.prems(3) by (cases n) auto
    have "2 \<le> length E" using long by simp
    from h [unfolded n smt_node_split [OF this]] show False
      using Nil.prems(4) unfolding leaf_hash_def hashes_apart_def by (cases leaf) (metis option.simps)+
  qed
  then show ?case using h Nil.prems(2,4,6)
    by (cases E rule: short_cases) (auto simp: leaf_hash_def hashes_apart_def split: option.splits)
next
  case (Cons s ss)
  obtain b bs' where bs: "bs = b # bs'" using Cons.prems(2) by (cases bs) auto
  have long: "2 \<le> length E"
  proof (rule ccontr)
    assume "\<not> 2 \<le> length E"
    then have "length E \<le> 1" by simp
    then show False using Cons.prems(1,4) bs
      by (cases E rule: short_cases) (auto simp: hashes_apart_def split: if_splits)
  qed
  then obtain m where n: "n = Suc m" using wf_0 [of E] Cons.prems(3) by (cases n) auto
  have down: "path_hash nh (leaf_hash lh ph leaf) ss bs' = smt_node nh lh ph m (below b E)"
    using Cons.prems(1,5) long unfolding bs n by (cases b) auto
  have "\<forall>(cs, l)\<in>set (below b E). \<forall>l'. lh l' = lh l \<longrightarrow> l' = l"
    using Cons.prems(3,6) unfolding n by (auto simp: below_set)
  moreover have "nodes_bound nh lh ph m (below b E)" using Cons.prems(5) long unfolding n by (cases b) auto
  ultimately show ?case
    using Cons.IH [OF down _ wf_below Cons.prems(4)] Cons.prems(2,3) unfolding bs n by simp
qed

lemma path_complete:
  "wf_entries n E \<Longrightarrow> length bits = n \<Longrightarrow>
   \<exists>ss. length ss \<le> n \<and> length (under (take (length ss) bits) E) \<le> 1
     \<and> path_hash nh (smt_node nh lh ph 0 (under (take (length ss) bits) E)) ss (take (length ss) bits) = smt_node nh lh ph n E"
proof (induction n arbitrary: E bits)
  case 0
  then show ?case using wf_0 by (intro exI [of _ "[]"]) auto
next
  case (Suc n)
  show ?case
  proof (cases "length E \<le> 1")
    case True
    then show ?thesis by (intro exI [of _ "[]"]) (cases E rule: short_cases; simp)
  next
    case False
    obtain b bs where bits: "bits = b # bs" "length bs = n" using Suc.prems(2) by (cases bits) auto
    from Suc.IH [OF wf_below [OF Suc.prems(1)] bits(2), of b] obtain ss where
      ss: "length ss \<le> n" "length (under (take (length ss) bs) (below b E)) \<le> 1"
      "path_hash nh (smt_node nh lh ph 0 (under (take (length ss) bs) (below b E))) ss (take (length ss) bs)
        = smt_node nh lh ph n (below b E)" by blast
    let ?s = "smt_node nh lh ph n (below (\<not> b) E)"
    have "2 \<le> length E" using False by simp
    with ss bits show ?thesis
      by (intro exI [of _ "?s # ss"]) (cases b; simp add: smt_node_split)
  qed
qed

section \<open>What has a proof\<close>

lemma wf_entries_of:
  assumes "distinct (map leaf_key leaves)" and "\<forall>l\<in>set leaves. wf_hash (leaf_key l)"
  shows "wf_entries LENGTH_IN_BITS (entries_of leaves)"
proof -
  have "inj_on (\<lambda>l. iter_bits (leaf_key l)) (set leaves)"
    using assms iter_bits_inject by (fastforce simp: inj_on_def distinct_map)
  then show ?thesis using assms by (auto simp: wf_entries_def entries_of_def distinct_map comp_def)
qed

lemma under_entries_of:
  assumes "wf_entries LENGTH_IN_BITS (entries_of leaves)" and "t \<le> LENGTH_IN_BITS"
  shows "set (map snd (under (take t (iter_bits key)) (entries_of leaves)))
    = {l \<in> set leaves. take t (iter_bits (leaf_key l)) = take t (iter_bits key)}"
proof -
  have "set (under (take t (iter_bits key)) (entries_of leaves))
      = {(cs, l). (take t (iter_bits key) @ cs, l) \<in> set (entries_of leaves)}"
    using assms by (intro under_set) auto
  also have "\<dots> = {(cs, l). l \<in> set leaves \<and> take t (iter_bits key) @ cs = iter_bits (leaf_key l)}"
    by (auto simp: entries_of_def)
  finally have "set (map snd (under (take t (iter_bits key)) (entries_of leaves)))
    = {l \<in> set leaves. \<exists>cs. take t (iter_bits key) @ cs = iter_bits (leaf_key l)}" by (force simp: image_iff)
  moreover have "(\<exists>cs. take t (iter_bits key) @ cs = iter_bits a) \<longleftrightarrow> take t (iter_bits a) = take t (iter_bits key)" for a
  proof
    assume "\<exists>cs. take t (iter_bits key) @ cs = iter_bits a"
    then obtain cs where "iter_bits a = take t (iter_bits key) @ cs" by metis
    then show "take t (iter_bits a) = take t (iter_bits key)" using assms(2) by simp
  next
    assume "take t (iter_bits a) = take t (iter_bits key)"
    then show "\<exists>cs. take t (iter_bits key) @ cs = iter_bits a" by (metis append_take_drop_id)
  qed
  ultimately show ?thesis by simp
qed

lemma smt_lookup_iff:
  assumes "distinct (map leaf_key leaves)"
  shows "smt_lookup leaves key = Some h \<longleftrightarrow> \<lparr>leaf_key = key, leaf_value_hash = h\<rparr> \<in> set leaves"
    and "smt_lookup leaves key = None \<longleftrightarrow> key \<notin> leaf_key ` set leaves"
proof -
  have "distinct (map fst (map (\<lambda>l. (leaf_key l, leaf_value_hash l)) leaves))" using assms by (simp add: comp_def)
  from map_of_eq_Some_iff [OF this, of key h]
  have "smt_lookup leaves key = Some h \<longleftrightarrow> (key, h) \<in> (\<lambda>l. (leaf_key l, leaf_value_hash l)) ` set leaves"
    by (simp add: smt_lookup_def)
  also have "\<dots> \<longleftrightarrow> (\<exists>l\<in>set leaves. l = \<lparr>leaf_key = key, leaf_value_hash = h\<rparr>)"
    unfolding image_iff Pair_inject by (rule bex_cong [OF refl]) auto
  finally show "smt_lookup leaves key = Some h \<longleftrightarrow> \<lparr>leaf_key = key, leaf_value_hash = h\<rparr> \<in> set leaves" by simp
  show "smt_lookup leaves key = None \<longleftrightarrow> key \<notin> leaf_key ` set leaves"
    by (simp add: smt_lookup_def map_of_eq_None_iff image_image)
qed

lemma verify_by_hash_path:
  assumes "length (sp_siblings p) \<le> LENGTH_IN_BITS"
  shows "verify_by_hash nh lh ph p root key value = Inr () \<longleftrightarrow> sp_check_keys p key value = Inr ()
    \<and> path_hash nh (leaf_hash lh ph (sp_leaf p)) (rev (sp_siblings p)) (take (length (sp_siblings p)) (iter_bits key)) = root"
proof -
  let ?t = "length (sp_siblings p)"
  have "drop (LENGTH_IN_BITS - ?t) (rev (iter_bits key)) = rev (take ?t (iter_bits key))"
    using assms by (simp add: drop_rev)
  moreover have "sp_fold nh (leaf_hash lh ph (sp_leaf p)) (zip (rev (rev (sp_siblings p))) (rev (take ?t (iter_bits key))))
    = path_hash nh (leaf_hash lh ph (sp_leaf p)) (rev (sp_siblings p)) (take ?t (iter_bits key))"
    by (rule sp_fold_path) (use assms in simp)
  ultimately show ?thesis
    using assms by (auto simp: verify_by_hash_def leaf_hash_def and_then_def Let_def split: sum.splits)
qed

text \<open>
  C5. The tree commits to a map from keys to value hashes. For a tree of distinct leaves whose nodes are bound by
  their hashes, the claims that some proof makes the verifier accept, for the root of this tree, are exactly the true
  ones: inclusion of a key with a value hash if the map has that value at the key, and non-inclusion of a key (no
  value) if the map has none. In particular no key has two values, or a value and a proof of absence.
\<close>
theorem sparse_proof_iff:
  assumes keys: "distinct (map leaf_key leaves)" "\<forall>l\<in>set leaves. wf_hash (leaf_key l)" and key: "wf_hash key"
    and bind: "smt_binding nh lh ph leaves"
  shows "(\<exists>p. verify_by_hash nh lh ph p (smt_root nh lh ph leaves) key v = Inr ()) \<longleftrightarrow> smt_lookup leaves key = v"
proof
  note wf = wf_entries_of [OF keys]
  note look = smt_lookup_iff [OF keys(1), of key]
  {
    assume "\<exists>p. verify_by_hash nh lh ph p (smt_root nh lh ph leaves) key v = Inr ()"
    then obtain p where p: "verify_by_hash nh lh ph p (smt_root nh lh ph leaves) key v = Inr ()" by blast
    let ?t = "length (sp_siblings p)" and ?E = "entries_of leaves"
    have t: "?t \<le> LENGTH_IN_BITS" using p by (simp add: verify_by_hash_def split: if_splits)
    note ok = p [unfolded verify_by_hash_path [OF t] smt_root_def]
    have "\<forall>(cs, l)\<in>set ?E. \<forall>l'. lh l' = lh l \<longrightarrow> l' = l" using bind by (auto simp: smt_binding_def entries_of_def)
    with path_sound [OF conjunct2 [OF ok] _ wf] bind t
    have u: "map snd (under (take ?t (iter_bits key)) ?E) = (case sp_leaf p of None \<Rightarrow> [] | Some l \<Rightarrow> [l])"
      by (simp add: smt_binding_def)
    note m = under_entries_of [OF wf t, of key, unfolded u]
    show "smt_lookup leaves key = v"
    proof (cases v)
      case (Some h)
      then obtain l where "sp_leaf p = Some l" "l = \<lparr>leaf_key = key, leaf_value_hash = h\<rparr>"
        using ok by (auto simp: sp_check_keys_def split: option.splits if_splits)
      with m Some show ?thesis using look(1) by auto
    next
      case None
      have "l \<notin> set leaves" if "leaf_key l = key" for l
        using m that ok None by (fastforce simp: sp_check_keys_def split: option.splits if_splits)
      with None show ?thesis using look(2) by auto
    qed
  }
  assume lk: "smt_lookup leaves key = v"
  obtain ss where ss: "length ss \<le> LENGTH_IN_BITS" "length (under (take (length ss) (iter_bits key)) (entries_of leaves)) \<le> 1"
    "path_hash nh (smt_node nh lh ph 0 (under (take (length ss) (iter_bits key)) (entries_of leaves))) ss
      (take (length ss) (iter_bits key)) = smt_root nh lh ph leaves"
    unfolding smt_root_def using path_complete [OF wf, of "iter_bits key" nh lh ph] by auto
  let ?U = "under (take (length ss) (iter_bits key)) (entries_of leaves)"
  define leaf where "leaf = (case ?U of [] \<Rightarrow> None | (_, l) # _ \<Rightarrow> Some l)"
  let ?p = "\<lparr>sp_leaf = leaf, sp_siblings = rev ss\<rparr>"
  have h: "leaf_hash lh ph leaf = smt_node nh lh ph 0 ?U" and u: "set (map snd ?U) = set_option leaf"
    unfolding leaf_def using ss(2) by (cases ?U rule: short_cases; simp add: leaf_hash_def)+
  note m = under_entries_of [OF wf ss(1), of key, unfolded u]
  have "sp_check_keys ?p key v = Inr ()"
  proof (cases v)
    case (Some h)
    then have "leaf = Some \<lparr>leaf_key = key, leaf_value_hash = h\<rparr>" using lk look(1) m by auto
    then show ?thesis using Some by (simp add: sp_check_keys_def)
  next
    case None
    have "leaf_key l \<noteq> key \<and> length ss \<le> common_prefix_bits_len key (leaf_key l)" if "leaf = Some l" for l
    proof -
      have "l \<in> {l \<in> set leaves. take (length ss) (iter_bits (leaf_key l)) = take (length ss) (iter_bits key)}"
        unfolding m [symmetric] using that by simp
      then show ?thesis using None lk look(2) common_prefix_iff [OF ss(1), of key "leaf_key l"] by auto
    qed
    then show ?thesis using None by (auto simp: sp_check_keys_def split: option.splits)
  qed
  then have "verify_by_hash nh lh ph ?p (smt_root nh lh ph leaves) key v = Inr ()"
    using ss(1,3) h by (simp add: verify_by_hash_path)
  then show "\<exists>p. verify_by_hash nh lh ph p (smt_root nh lh ph leaves) key v = Inr ()" by blast
qed

text \<open>Hashes that are just the terms they were computed from.\<close>

datatype tree_term = Empty | Value nat | LeafTerm hash_value tree_term | NodeTerm tree_term tree_term

definition leaf_term :: "tree_term sparse_leaf \<Rightarrow> tree_term" where
  "leaf_term l = LeafTerm (leaf_key l) (leaf_value_hash l)"

lemma term_binding: "smt_binding NodeTerm leaf_term Empty leaves"
proof -
  have "nodes_bound NodeTerm leaf_term Empty n E" for n E
    by (induction n arbitrary: E) (simp_all add: smt_node_split)
  then show ?thesis by (simp add: smt_binding_def hashes_apart_def leaf_term_def)
qed

definition two_leaves :: "tree_term sparse_leaf list" where
  "two_leaves = [\<lparr>leaf_key = replicate 32 0, leaf_value_hash = Value 1\<rparr>, \<lparr>leaf_key = replicate 32 7, leaf_value_hash = Value 2\<rparr>]"

theorem sparse_proof_iff_witness:
  "distinct (map leaf_key two_leaves) \<and> smt_binding NodeTerm leaf_term Empty two_leaves
   \<and> (\<exists>p. verify_by_hash NodeTerm leaf_term Empty p (smt_root NodeTerm leaf_term Empty two_leaves) (replicate 32 7) (Some (Value 2)) = Inr ())
   \<and> (\<exists>p. verify_by_hash NodeTerm leaf_term Empty p (smt_root NodeTerm leaf_term Empty two_leaves) (replicate 32 9) None = Inr ())
   \<and> \<not> (\<exists>p. verify_by_hash NodeTerm leaf_term Empty p (smt_root NodeTerm leaf_term Empty two_leaves) (replicate 32 7) None = Inr ())"
proof -
  have k: "distinct (map leaf_key two_leaves)" by (simp add: two_leaves_def)
  have h: "\<forall>l\<in>set two_leaves. wf_hash (leaf_key l)" "wf_hash (replicate 32 7)" "wf_hash (replicate 32 9)"
    by (auto simp: two_leaves_def wf_hash_def LENGTH_HASH_def)
  note iff = sparse_proof_iff [OF k h(1) h(2) term_binding] sparse_proof_iff [OF k h(1) h(3) term_binding]
  have "smt_lookup two_leaves (replicate 32 7) = Some (Value 2)" "smt_lookup two_leaves (replicate 32 9) = None"
    by (simp_all add: smt_lookup_def two_leaves_def)
  then show ?thesis unfolding iff using k term_binding by simp
qed

end
