(* ===== verification/Text.thy ===== *)
theory Text
  imports Hash
begin

text \<open>
  Text: what the components use of Rust's standard library to print and read unsigned integers and to split strings.
  A string is the list of its bytes.
\<close>

section \<open>Decimal numbers\<close>

definition digit :: "nat \<Rightarrow> char" where
  "digit n = ''0123456789'' ! n"

fun show_nat :: "nat \<Rightarrow> string" where
  "show_nat n = (if n < 10 then [digit n] else show_nat (n div 10) @ [digit (n mod 10)])"

declare show_nat.simps [simp del]

definition show_uint :: "'w::len word \<Rightarrow> string" where
  "show_uint v = show_nat (unat v)"

definition digit_value :: "char \<Rightarrow> nat option" where
  "digit_value c = map_of (zip ''0123456789'' [0..<10]) c"

text \<open>
  \<^verbatim>\<open>from_str\<close> of the unsigned integers: an optional plus sign and at least one digit; a value beyond the range is an
  error.
\<close>

fun parse_digits :: "nat \<Rightarrow> nat \<Rightarrow> string \<Rightarrow> nat option" where
  "parse_digits bound acc [] = Some acc"
| "parse_digits bound acc (c # cs) =
     (case digit_value c of
        None \<Rightarrow> None
      | Some d \<Rightarrow> if acc * 10 + d < bound then parse_digits bound (acc * 10 + d) cs else None)"

definition parse_uint :: "string \<Rightarrow> 'w::len word option" where
  "parse_uint s =
     (let ds = (case s of c # cs \<Rightarrow> if c = CHR ''+'' then cs else s | [] \<Rightarrow> []) in
      if ds = [] then None else map_option word_of_nat (parse_digits (2 ^ LENGTH('w)) 0 ds))"

lemma digit_value_digit: "d < 10 \<Longrightarrow> digit_value (digit d) = Some d"
  using map_of_zip_nth [of "''0123456789''" "[0..<10]" d] by (simp add: digit_value_def digit_def)

lemma digit_in: "d < 10 \<Longrightarrow> digit d \<in> set ''0123456789''"
  unfolding digit_def by (rule nth_mem) simp

lemma parse_digits_snoc:
  "parse_digits b acc (cs @ [c]) = (case parse_digits b acc cs of None \<Rightarrow> None | Some a \<Rightarrow> parse_digits b a [c])"
  by (induction cs arbitrary: acc) (auto split: option.splits)

lemma show_nat_chars: "set (show_nat n) \<subseteq> set ''0123456789''"
proof (induction n rule: show_nat.induct)
  case (1 n)
  then show ?case using digit_in [of n] digit_in [of "n mod 10"] by (cases "n < 10") (auto simp: show_nat.simps [of n])
qed

lemma show_nat_not_Nil [simp]: "show_nat n \<noteq> []"
  by (subst show_nat.simps) simp

lemma parse_show_nat: "n < b \<Longrightarrow> parse_digits b 0 (show_nat n) = Some n"
proof (induction n rule: show_nat.induct)
  case (1 n)
  show ?case
  proof (cases "n < 10")
    case True
    then show ?thesis using 1 by (simp add: show_nat.simps [of n] digit_value_digit)
  next
    case False
    then have "parse_digits b 0 (show_nat (n div 10)) = Some (n div 10)" using 1 by simp
    then show ?thesis using False 1 by (simp add: show_nat.simps [of n] parse_digits_snoc digit_value_digit)
  qed
qed

lemma parse_show_uint [simp]: "parse_uint (show_uint (v::'w::len word)) = Some v"
proof -
  note p = parse_show_nat [OF unsigned_less [of v, where 'a = nat]]
  obtain c cs where s: "show_nat (unat v) = c # cs" using show_nat_not_Nil by (cases "show_nat (unat v)") auto
  then have "c \<noteq> CHR ''+''" using show_nat_chars [of "unat v"] by auto
  then have "parse_uint (show_uint v) = Some (word_of_nat (unat v) :: 'w word)"
    using p s by (simp add: parse_uint_def show_uint_def)
  then show ?thesis by (simp only: of_nat_unat ucast_id)
qed

lemma show_uint_no: "c \<notin> set ''0123456789'' \<Longrightarrow> c \<notin> set (show_uint v)"
  using show_nat_chars [of "unat v"] unfolding show_uint_def by blast

section \<open>Splitting\<close>

text \<open>\<^verbatim>\<open>str::split\<close>.\<close>

fun split_at :: "char \<Rightarrow> string \<Rightarrow> string list" where
  "split_at d [] = [[]]"
| "split_at d (c # cs) =
     (if c = d then [] # split_at d cs else case split_at d cs of [] \<Rightarrow> [[c]] | p # ps \<Rightarrow> (c # p) # ps)"

lemma split_at_none: "d \<notin> set cs \<Longrightarrow> split_at d cs = [cs]"
  by (induction cs) auto

lemma split_at_append: "d \<notin> set cs \<Longrightarrow> split_at d (cs @ d # ds) = cs # split_at d ds"
  by (induction cs) auto

lemma split_at_parts:
  "(\<And>p. p \<in> set parts \<Longrightarrow> d \<notin> set p) \<Longrightarrow> split_at d (concat (map ((#) d) parts)) = [] # parts"
proof (induction parts)
  case (Cons p parts)
  then have d: "d \<notin> set p" and IH: "split_at d (concat (map ((#) d) parts)) = [] # parts" by simp_all
  show ?case
  proof (cases parts)
    case Nil
    then show ?thesis using split_at_none [OF d] by simp
  next
    case (Cons q qs)
    then show ?thesis using split_at_append [OF d, of "q @ concat (map ((#) d) qs)"] IH by simp
  qed
qed simp

text \<open>The parts of a split have no delimiter.\<close>

lemma split_at_not_Nil: "split_at d s \<noteq> []"
  by (cases s) (auto split: list.split)

lemma split_at_no: "p \<in> set (split_at d s) \<Longrightarrow> d \<notin> set p"
proof (induction s arbitrary: p)
  case (Cons c s)
  then show ?case by (cases "split_at d s") (auto split: if_splits)
qed simp

section \<open>Hexadecimal digits\<close>

lemma hex_digit_in: "n < 16 \<Longrightarrow> hex_digit n \<in> set ''0123456789abcdef''"
  unfolding hex_digit_def by (rule nth_mem) simp

lemma to_hex_chars: "set (to_hex h) \<subseteq> set ''0123456789abcdef''"
proof -
  have "set (hex_byte b) \<subseteq> set ''0123456789abcdef''" for b
  proof -
    have "unat b div 16 < 16" using unsigned_less [of b, where 'a = nat] by (simp add: less_mult_imp_div_less)
    note d = hex_digit_in [OF this] hex_digit_in [of "unat b mod 16"]
    show ?thesis unfolding hex_byte_def list.set insert_subset using d(1) d(2) by (intro conjI) simp_all
  qed
  then show ?thesis unfolding to_hex_def by (simp only: set_concat set_map UN_subset_iff image_subset_iff) blast
qed

lemma to_hex_no: "c \<notin> set ''0123456789abcdef'' \<Longrightarrow> c \<notin> set (to_hex h)"
  using to_hex_chars by blast

text \<open>
  The decoder of hexadecimal text is not part of the sources; this instance, for lower-case digits, shows that what the
  components assume of it can hold.
\<close>

definition hex_value :: "char \<Rightarrow> nat option" where
  "hex_value c = map_of (zip ''0123456789abcdef'' [0..<16]) c"

fun unhex :: "string \<Rightarrow> bytes option" where
  "unhex [] = Some []"
| "unhex [c] = None"
| "unhex (c # d # s) =
     (case (hex_value c, hex_value d, unhex s) of
        (Some m, Some n, Some bs) \<Rightarrow> Some (word_of_nat (16 * m + n) # bs)
      | _ \<Rightarrow> None)"

lemma hex_value_digit: "n < 16 \<Longrightarrow> hex_value (hex_digit n) = Some n"
  using map_of_zip_nth [of "''0123456789abcdef''" "[0..<16]" n] by (simp add: hex_value_def hex_digit_def)

lemma unhex_to_hex: "unhex (to_hex bs) = Some bs"
proof (induction bs)
  case (Cons b bs)
  have "unat b div 16 < 16" using unsigned_less [of b, where 'a = nat] by (simp add: less_mult_imp_div_less)
  note v = hex_value_digit [OF this] hex_value_digit [of "unat b mod 16"]
  have "word_of_nat (16 * (unat b div 16) + unat b mod 16) = b" by (simp add: of_nat_unat)
  with Cons v show ?case by (simp add: to_hex_def hex_byte_def)
qed (simp add: to_hex_def)

end
