(* ===== verification/TrustedState.thy ===== *)
theory TrustedState
  imports MerkleProof Text
begin

text \<open>
  Waypoints, proofs of epoch changes and the trusted state of a light client (\<^verbatim>\<open>types/src/waypoint.rs\<close>,
  \<^verbatim>\<open>types/src/epoch_change.rs\<close>, \<^verbatim>\<open>types/src/trusted_state.rs\<close>, \<^verbatim>\<open>types/src/state_proof.rs\<close>). The hash of the part of a
  ledger info that a waypoint commits to, \<open>wh\<close>, and the BLS functions are arguments. The main results are that a client
  only ratchets along signed epoch changes, and that clients with a common past agree on every later epoch.
\<close>

section \<open>Waypoints\<close>

record waypoint =
  wp_version :: u64
  wp_value :: hash_value

record ('a, 'key, 'h) waypoint_converter =
  wc_epoch :: u64
  wc_root_hash :: 'h
  wc_version :: u64
  wc_timestamp_usecs :: u64
  wc_next_epoch_state :: "('a, 'key) epoch_state option"

definition converter_new :: "('a, 'key, 'h) ledger_info \<Rightarrow> ('a, 'key, 'h) waypoint_converter" where
  "converter_new li = \<lparr>wc_epoch = li_epoch li, wc_root_hash = transaction_accumulator_hash li, wc_version = li_version li,
     wc_timestamp_usecs = timestamp_usecs li, wc_next_epoch_state = next_epoch_state li\<rparr>"

definition wp_new_any :: "(('a, 'key, 'h) waypoint_converter \<Rightarrow> hash_value) \<Rightarrow> ('a, 'key, 'h) ledger_info \<Rightarrow> waypoint" where
  "wp_new_any wh li = \<lparr>wp_version = li_version li, wp_value = wh (converter_new li)\<rparr>"

definition wp_new_epoch_boundary :: "(('a, 'key, 'h) waypoint_converter \<Rightarrow> hash_value) \<Rightarrow> ('a, 'key, 'h) ledger_info
    \<Rightarrow> anyhow + waypoint" where
  "wp_new_epoch_boundary wh li = (if ends_epoch li then Inr (wp_new_any wh li) else Inl (Anyhow ''No validator set''))"

definition wp_verify :: "(('a, 'key, 'h) waypoint_converter \<Rightarrow> hash_value) \<Rightarrow> waypoint \<Rightarrow> ('a, 'key, 'h) ledger_info
    \<Rightarrow> anyhow + unit" where
  "wp_verify wh w li =
     (if li_version li = wp_version w
      then if wh (converter_new li) = wp_value w then Inr () else Inl (Anyhow ''Waypoint value mismatch'')
      else Inl (Anyhow ''Waypoint version mismatch''))"

definition wp_verify_sigs :: "(('a, 'key, 'h) waypoint_converter \<Rightarrow> hash_value) \<Rightarrow> waypoint
    \<Rightarrow> ('a, 'key, 'h, 'sig) ledger_info_with_sigs \<Rightarrow> anyhow + unit" where
  "wp_verify_sigs wh w li = wp_verify wh w (ledger_info li)"

definition wp_epoch_change_verification_required :: "waypoint \<Rightarrow> u64 \<Rightarrow> bool" where
  "wp_epoch_change_verification_required w epoch \<longleftrightarrow> True"

definition wp_is_ledger_info_stale :: "waypoint \<Rightarrow> ('a, 'key, 'h) ledger_info \<Rightarrow> bool" where
  "wp_is_ledger_info_stale w li \<longleftrightarrow> li_version li < wp_version w"

text \<open>Text form: the decimal version, a colon, and the value in hexadecimal.\<close>

definition WAYPOINT_DELIMITER :: char where
  "WAYPOINT_DELIMITER = CHR '':''"

definition display_waypoint :: "waypoint \<Rightarrow> string" where
  "display_waypoint w = show_uint (wp_version w) @ [WAYPOINT_DELIMITER] @ to_hex (wp_value w)"

definition waypoint_from_str :: "(string \<Rightarrow> bytes option) \<Rightarrow> string \<Rightarrow> anyhow + waypoint" where
  "waypoint_from_str decode s =
     (case split_at WAYPOINT_DELIMITER s of
        [] \<Rightarrow> Inl (Anyhow ''Failed to parse waypoint string'')
      | first # rest \<Rightarrow>
         (case parse_uint first of
            None \<Rightarrow> Inl (Anyhow ''invalid digit found in string'')
          | Some version \<Rightarrow>
             (case rest of
                [] \<Rightarrow> Inl (Anyhow ''Failed to parse waypoint string'')
              | second # _ \<Rightarrow>
                 (case from_hex decode second of
                    Inl _ \<Rightarrow> Inl (Anyhow ''unable to parse HashValue'')
                  | Inr h \<Rightarrow> Inr \<lparr>wp_version = version, wp_value = h\<rparr>))))"

section \<open>Proofs of epoch changes\<close>

record ('a, 'key, 'h, 'sig) epoch_change_proof =
  ledger_info_with_sigs :: "('a, 'key, 'h, 'sig) ledger_info_with_sigs list"
  more_epochs :: bool

definition ecp_epoch :: "('a, 'key, 'h, 'sig) epoch_change_proof \<Rightarrow> anyhow + u64" where
  "ecp_epoch p =
     (case ledger_info_with_sigs p of
        [] \<Rightarrow> Inl (Anyhow ''Empty EpochChangeProof'')
      | li # _ \<Rightarrow> Inr (li_epoch (ledger_info li)))"

text \<open>
  The verifier is given by its functions \<open>verify\<close> and \<open>stale\<close>. The loop replaces it by the epoch state that each ledger
  info carries.
\<close>

fun ecp_loop :: "('key, 'sig, ('a, 'key, 'h) ledger_info) bls \<Rightarrow> (('a, 'key, 'h, 'sig) ledger_info_with_sigs \<Rightarrow> (anyhow + unit) outcome)
    \<Rightarrow> ('a, 'key, 'h, 'sig) ledger_info_with_sigs list \<Rightarrow> (anyhow + unit) outcome" where
  "ecp_loop bls verify [] = Ret (Inr ())"
| "ecp_loop bls verify (li # lis) =
     out_try (verify li) (\<lambda>_.
       case next_epoch_state (ledger_info li) of
         None \<Rightarrow> Ret (Inl (Anyhow ''LedgerInfo doesn't carry a ValidatorSet''))
       | Some es \<Rightarrow> ecp_loop bls (es_verify bls es) lis)"

definition ecp_verify :: "('key, 'sig, ('a, 'key, 'h) ledger_info) bls \<Rightarrow> (('a, 'key, 'h, 'sig) ledger_info_with_sigs \<Rightarrow> (anyhow + unit) outcome)
    \<Rightarrow> (('a, 'key, 'h) ledger_info \<Rightarrow> bool) \<Rightarrow> ('a, 'key, 'h, 'sig) epoch_change_proof
    \<Rightarrow> (anyhow + ('a, 'key, 'h, 'sig) ledger_info_with_sigs) outcome" where
  "ecp_verify bls verify stale p =
     (let lis = ledger_info_with_sigs p in
      if lis = [] then Ret (Inl (Anyhow ''The EpochChangeProof is empty''))
      else if stale (ledger_info (last lis)) then Ret (Inl (Anyhow ''The EpochChangeProof is stale''))
      else out_try (ecp_loop bls verify (dropWhile (\<lambda>li. stale (ledger_info li)) lis)) (\<lambda>_. Ret (Inr (last lis))))"

section \<open>The trusted state\<close>

record ('a, 'key, 'h, 'sig) state_proof =
  latest_li_w_sigs :: "('a, 'key, 'h, 'sig) ledger_info_with_sigs"
  epoch_changes :: "('a, 'key, 'h, 'sig) epoch_change_proof"

datatype ('a, 'key) trusted_state =
    EpochWaypoint waypoint
  | EpochState waypoint "('a, 'key) epoch_state"

datatype ('a, 'key, 'h, 'sig) trusted_state_change =
    VersionChange "('a, 'key) trusted_state"
  | EpochChange "('a, 'key) trusted_state" "('a, 'key, 'h, 'sig) ledger_info_with_sigs"
  | NoChange

definition from_epoch_waypoint :: "waypoint \<Rightarrow> ('a, 'key) trusted_state" where
  "from_epoch_waypoint w = EpochWaypoint w"

definition try_from_epoch_change_li :: "(('a, 'key, 'h) waypoint_converter \<Rightarrow> hash_value) \<Rightarrow> ('a, 'key, 'h) ledger_info
    \<Rightarrow> 'h accumulator_summary \<Rightarrow> anyhow + ('a, 'key) trusted_state" where
  "try_from_epoch_change_li wh li acc =
     and_then (map_err Anyhow (verify_consistency acc li)) (\<lambda>_.
       case next_epoch_state li of
         None \<Rightarrow> Inl (Anyhow ''No EpochState in LedgerInfo; it must not be on an epoch boundary'')
       | Some es \<Rightarrow> and_then (wp_new_epoch_boundary wh li) (\<lambda>w. Inr (EpochState w es)))"

definition is_epoch_waypoint :: "('a, 'key) trusted_state \<Rightarrow> bool" where
  "is_epoch_waypoint ts = (case ts of EpochWaypoint _ \<Rightarrow> True | EpochState _ _ \<Rightarrow> False)"

definition ts_waypoint :: "('a, 'key) trusted_state \<Rightarrow> waypoint" where
  "ts_waypoint ts = (case ts of EpochWaypoint w \<Rightarrow> w | EpochState w _ \<Rightarrow> w)"

definition ts_version :: "('a, 'key) trusted_state \<Rightarrow> u64" where
  "ts_version ts = wp_version (ts_waypoint ts)"

definition ts_verify :: "('key, 'sig, ('a, 'key, 'h) ledger_info) bls \<Rightarrow> (('a, 'key, 'h) waypoint_converter \<Rightarrow> hash_value)
    \<Rightarrow> ('a, 'key) trusted_state \<Rightarrow> ('a, 'key, 'h, 'sig) ledger_info_with_sigs \<Rightarrow> (anyhow + unit) outcome" where
  "ts_verify bls wh ts li =
     (case ts of EpochWaypoint w \<Rightarrow> Ret (wp_verify_sigs wh w li) | EpochState _ es \<Rightarrow> es_verify bls es li)"

definition ts_epoch_change_verification_required :: "('a, 'key) trusted_state \<Rightarrow> u64 \<Rightarrow> bool" where
  "ts_epoch_change_verification_required ts epoch =
     (case ts of
        EpochWaypoint w \<Rightarrow> wp_epoch_change_verification_required w epoch
      | EpochState _ es \<Rightarrow> es_epoch_change_verification_required es epoch)"

definition ts_is_ledger_info_stale :: "('a, 'key) trusted_state \<Rightarrow> ('a, 'key, 'h) ledger_info \<Rightarrow> bool" where
  "ts_is_ledger_info_stale ts li =
     (case ts of EpochWaypoint w \<Rightarrow> wp_is_ledger_info_stale w li | EpochState _ es \<Rightarrow> es_is_ledger_info_stale es li)"

text \<open>The two halves of \<open>verify_and_ratchet_inner\<close>.\<close>

definition ratchet_epoch :: "('key, 'sig, ('a, 'key, 'h) ledger_info) bls \<Rightarrow> (('a, 'key, 'h) waypoint_converter \<Rightarrow> hash_value)
    \<Rightarrow> ('a, 'key) trusted_state \<Rightarrow> ('a, 'key, 'h, 'sig) ledger_info_with_sigs \<Rightarrow> ('a, 'key, 'h, 'sig) epoch_change_proof
    \<Rightarrow> (anyhow + ('a, 'key, 'h, 'sig) trusted_state_change) outcome" where
  "ratchet_epoch bls wh ts latest_li proof =
     out_try (ecp_verify bls (ts_verify bls wh ts) (ts_is_ledger_info_stale ts) proof) (\<lambda>epoch_change_li.
       case next_epoch_state (ledger_info epoch_change_li) of
         None \<Rightarrow> Ret (Inl (Anyhow ''A valid EpochChangeProof will never return a non-epoch change ledger info''))
       | Some new_epoch_state \<Rightarrow>
          out_try
            (if epoch_change_li = latest_li then Ret (Inr latest_li)
             else if li_epoch (ledger_info latest_li) = es_epoch new_epoch_state
                  then out_try (es_verify bls new_epoch_state latest_li) (\<lambda>_. Ret (Inr latest_li))
             else if li_epoch (ledger_info latest_li) > es_epoch new_epoch_state \<and> more_epochs proof
                  then Ret (Inr epoch_change_li)
             else Ret (Inl (Anyhow ''Inconsistent epoch change proof and latest ledger info'')))
            (\<lambda>verified_li. Ret (Inr
               (EpochChange (EpochState (wp_new_any wh (ledger_info verified_li)) new_epoch_state) epoch_change_li))))"

definition ratchet_version :: "('key, 'sig, ('a, 'key, 'h) ledger_info) bls \<Rightarrow> (('a, 'key, 'h) waypoint_converter \<Rightarrow> hash_value)
    \<Rightarrow> ('a, 'key) trusted_state \<Rightarrow> ('a, 'key, 'h, 'sig) ledger_info_with_sigs
    \<Rightarrow> (anyhow + ('a, 'key, 'h, 'sig) trusted_state_change) outcome" where
  "ratchet_version bls wh ts latest_li =
     (case ts of
        EpochWaypoint _ \<Rightarrow> Ret (Inl (Anyhow ''EpochWaypoint can only verify an epoch change ledger info''))
      | EpochState curr_waypoint curr_epoch_state \<Rightarrow>
         let new_waypoint = wp_new_any wh (ledger_info latest_li) in
         if wp_version new_waypoint = wp_version curr_waypoint
         then if new_waypoint = curr_waypoint then Ret (Inr NoChange)
              else Ret (Inl (Anyhow ''LedgerInfo doesn't match verified state''))
         else out_try (es_verify bls curr_epoch_state latest_li) (\<lambda>_.
                Ret (Inr (VersionChange (EpochState new_waypoint curr_epoch_state)))))"

definition verify_and_ratchet_inner :: "('key, 'sig, ('a, 'key, 'h) ledger_info) bls \<Rightarrow> (('a, 'key, 'h) waypoint_converter \<Rightarrow> hash_value)
    \<Rightarrow> ('a, 'key) trusted_state \<Rightarrow> ('a, 'key, 'h, 'sig) ledger_info_with_sigs \<Rightarrow> ('a, 'key, 'h, 'sig) epoch_change_proof
    \<Rightarrow> (anyhow + ('a, 'key, 'h, 'sig) trusted_state_change) outcome" where
  "verify_and_ratchet_inner bls wh ts latest_li proof =
     (if li_version (ledger_info latest_li) \<ge> ts_version ts
      then if ts_epoch_change_verification_required ts (next_block_epoch (ledger_info latest_li))
           then ratchet_epoch bls wh ts latest_li proof
           else ratchet_version bls wh ts latest_li
      else Ret (Inl (Anyhow ''The target latest ledger info version is stale and behind our current trusted version'')))"

definition verify_and_ratchet :: "('key, 'sig, ('a, 'key, 'h) ledger_info) bls \<Rightarrow> (('a, 'key, 'h) waypoint_converter \<Rightarrow> hash_value)
    \<Rightarrow> ('a, 'key) trusted_state \<Rightarrow> ('a, 'key, 'h, 'sig) state_proof
    \<Rightarrow> (anyhow + ('a, 'key, 'h, 'sig) trusted_state_change) outcome" where
  "verify_and_ratchet bls wh ts sp = verify_and_ratchet_inner bls wh ts (latest_li_w_sigs sp) (epoch_changes sp)"

definition new_state :: "('a, 'key, 'h, 'sig) trusted_state_change \<Rightarrow> ('a, 'key) trusted_state option" where
  "new_state c = (case c of VersionChange s \<Rightarrow> Some s | EpochChange s _ \<Rightarrow> Some s | NoChange \<Rightarrow> None)"

definition is_epoch_change :: "('a, 'key, 'h, 'sig) trusted_state_change \<Rightarrow> bool" where
  "is_epoch_change c = (case c of EpochChange _ _ \<Rightarrow> True | _ \<Rightarrow> False)"

definition is_no_change :: "('a, 'key, 'h, 'sig) trusted_state_change \<Rightarrow> bool" where
  "is_no_change c = (case c of NoChange \<Rightarrow> True | _ \<Rightarrow> False)"

section \<open>Text form of waypoints\<close>

text \<open>
  The text form of a waypoint is read back to the waypoint, for every version and every value that the
  hexadecimal decoder reads back, and text after a second delimiter is ignored.
\<close>
theorem waypoint_roundtrip:
  assumes "decode (to_hex (wp_value w)) = Some (wp_value w)"
  shows "waypoint_from_str decode (display_waypoint w) = Inr w
    \<and> waypoint_from_str decode (display_waypoint w @ WAYPOINT_DELIMITER # junk) = Inr w"
proof -
  have v: "WAYPOINT_DELIMITER \<notin> set (show_uint (wp_version w))"
    by (rule show_uint_no) (simp add: WAYPOINT_DELIMITER_def)
  have h: "WAYPOINT_DELIMITER \<notin> set (to_hex (wp_value w))" by (rule to_hex_no) (simp add: WAYPOINT_DELIMITER_def)
  have "split_at WAYPOINT_DELIMITER (display_waypoint w) = [show_uint (wp_version w), to_hex (wp_value w)]"
    using split_at_append [OF v, of "to_hex (wp_value w)"] split_at_none [OF h] by (simp add: display_waypoint_def)
  moreover have "split_at WAYPOINT_DELIMITER (display_waypoint w @ WAYPOINT_DELIMITER # junk)
    = show_uint (wp_version w) # to_hex (wp_value w) # split_at WAYPOINT_DELIMITER junk"
    using split_at_append [OF v, of "to_hex (wp_value w) @ WAYPOINT_DELIMITER # junk"] split_at_append [OF h, of junk]
    by (simp add: display_waypoint_def)
  ultimately show ?thesis using assms by (simp add: waypoint_from_str_def parse_show_uint from_hex_def)
qed

section \<open>Chains of epoch changes\<close>

text \<open>
  The interface of verifiers: what is stale is not accepted. So skipping stale ledger infos loses nothing, and an
  accepted proof has a part, up to its end, that the verifier accepts link by link.
\<close>

locale epoch_verifier =
  fixes verify :: "'v \<Rightarrow> ('a, 'key, 'h, 'sig) ledger_info_with_sigs \<Rightarrow> (anyhow + unit) outcome"
    and stale :: "'v \<Rightarrow> ('a, 'key, 'h) ledger_info \<Rightarrow> bool"
  assumes stale_rejected: "stale v (ledger_info li) \<Longrightarrow> verify v li \<noteq> Ret (Inr ())"
begin

lemma accepted_part:
  assumes "ecp_verify bls (verify v) (stale v) p = Ret (Inr li)"
  shows "\<exists>us vs. ledger_info_with_sigs p = us @ vs \<and> vs \<noteq> [] \<and> li = last vs \<and> ecp_loop bls (verify v) vs = Ret (Inr ())"
proof -
  let ?lis = "ledger_info_with_sigs p" and ?st = "\<lambda>li. stale v (ledger_info li)"
  have a: "?lis \<noteq> []" "\<not> ?st (last ?lis)" "ecp_loop bls (verify v) (dropWhile ?st ?lis) = Ret (Inr ())" "li = last ?lis"
    using assms by (auto simp: ecp_verify_def Let_def out_try_ok split: if_splits)
  have ne: "dropWhile ?st ?lis \<noteq> []" using a(1,2) by (auto simp: dropWhile_eq_Nil_conv)
  moreover have "?lis = takeWhile ?st ?lis @ dropWhile ?st ?lis" by simp
  moreover have "li = last (dropWhile ?st ?lis)" using a(4) ne by (metis last_appendR takeWhile_dropWhile_id)
  ultimately show ?thesis using a(3) by blast
qed

lemma complete:
  assumes "ecp_loop bls (verify v) lis = Ret (Inr ())" and "ledger_info_with_sigs p = lis" and "lis \<noteq> []"
    and "\<not> stale v (ledger_info (last lis))"
  shows "ecp_verify bls (verify v) (stale v) p = Ret (Inr (last lis))"
proof -
  obtain li rest where l: "lis = li # rest" using assms(3) by (cases lis) auto
  then have "verify v li = Ret (Inr ())" using assms(1) by (auto simp: out_try_ok)
  then have "dropWhile (\<lambda>li. stale v (ledger_info li)) lis = lis" using stale_rejected [of v li] l by auto
  then show ?thesis using assms by (simp add: ecp_verify_def)
qed

end

interpretation wpv: epoch_verifier "\<lambda>w li. Ret (wp_verify_sigs wh w li)" wp_is_ledger_info_stale for wh
  by unfold_locales (auto simp: wp_is_ledger_info_stale_def wp_verify_sigs_def wp_verify_def)

interpretation esv: epoch_verifier "es_verify bls" es_is_ledger_info_stale for bls
  by unfold_locales (auto simp: es_is_ledger_info_stale_def es_verify_def)

lemma ts_stale_rejected: "ts_is_ledger_info_stale v (ledger_info li) \<Longrightarrow> ts_verify bls wh v li \<noteq> Ret (Inr ())"
  by (cases v) (auto simp: ts_is_ledger_info_stale_def ts_verify_def dest: wpv.stale_rejected esv.stale_rejected)

interpretation tsv: epoch_verifier "ts_verify bls wh" ts_is_ledger_info_stale for bls wh
  by unfold_locales (rule ts_stale_rejected)

text \<open>One epoch change: a ledger info signed in an epoch that carries the next one.\<close>

inductive next_epoch :: "('key, 'sig, ('a, 'key, 'h) ledger_info) bls \<Rightarrow> ('a, 'key) epoch_state \<Rightarrow> ('a, 'key) epoch_state \<Rightarrow> bool"
  for bls where
  "es_verify bls es li = Ret (Inr ()) \<Longrightarrow> next_epoch_state (ledger_info li) = Some es' \<Longrightarrow> next_epoch bls es es'"

lemma ecp_loop_chain:
  "ecp_loop bls (es_verify bls es) lis = Ret (Inr ()) \<Longrightarrow> lis \<noteq> [] \<Longrightarrow>
   \<exists>es'. next_epoch_state (ledger_info (last lis)) = Some es' \<and> (next_epoch bls)\<^sup>+\<^sup>+ es es'"
proof (induction lis arbitrary: es)
  case (Cons li lis)
  then obtain es1 where v: "es_verify bls es li = Ret (Inr ())" "next_epoch_state (ledger_info li) = Some es1"
    "ecp_loop bls (es_verify bls es1) lis = Ret (Inr ())" by (auto simp: out_try_ok split: option.splits)
  have step: "next_epoch bls es es1" by (rule next_epoch.intros [OF v(1,2)])
  show ?case
  proof (cases "lis = []")
    case True
    then show ?thesis using v(2) step by auto
  next
    case False
    from Cons.IH [OF v(3) False] step False show ?thesis by (auto intro: tranclp_into_tranclp2)
  qed
qed simp

text \<open>The epoch states that a trusted state leads to first, and then in any number of changes.\<close>

definition first_epoch :: "('key, 'sig, ('a, 'key, 'h) ledger_info) bls \<Rightarrow> (('a, 'key, 'h) waypoint_converter \<Rightarrow> hash_value)
    \<Rightarrow> ('a, 'key) trusted_state \<Rightarrow> ('a, 'key) epoch_state \<Rightarrow> bool" where
  "first_epoch bls wh ts es \<longleftrightarrow> (\<exists>li. ts_verify bls wh ts li = Ret (Inr ()) \<and> next_epoch_state (ledger_info li) = Some es)"

lemma epoch_proof_chain:
  assumes "ecp_verify bls (ts_verify bls wh ts) (ts_is_ledger_info_stale ts) p = Ret (Inr li)"
  shows "\<exists>es es'. first_epoch bls wh ts es \<and> (next_epoch bls)\<^sup>*\<^sup>* es es' \<and> next_epoch_state (ledger_info li) = Some es'"
proof -
  obtain vs where vs: "vs \<noteq> []" "li = last vs" "ecp_loop bls (ts_verify bls wh ts) vs = Ret (Inr ())"
    using tsv.accepted_part [OF assms] by blast
  then obtain l ls es where l: "vs = l # ls" "ts_verify bls wh ts l = Ret (Inr ())" "next_epoch_state (ledger_info l) = Some es"
    "ecp_loop bls (es_verify bls es) ls = Ret (Inr ())" by (cases vs) (auto simp: out_try_ok split: option.splits)
  have f: "first_epoch bls wh ts es" using l(2,3) unfolding first_epoch_def by blast
  show ?thesis
  proof (cases "ls = []")
    case True
    then show ?thesis using f l vs(2) by auto
  next
    case False
    from ecp_loop_chain [OF l(4) False] f l(1) vs(2) False show ?thesis by (auto dest: tranclp_into_rtranclp)
  qed
qed

text \<open>
  C10. What a ratchet step has established, whatever the state proof was. No change: the latest ledger info has the
  trusted waypoint. A new version: the latest ledger info is signed by the validators of the trusted epoch, which
  stays, and its version is later. A new epoch: there is a chain of ledger infos, the first accepted by the trusted
  state and each next one signed in the epoch that the previous one carries, that leads to the new trusted epoch, and
  the new waypoint is that of the last epoch change or of the latest ledger info, signed in the new epoch.
\<close>
theorem ratchet_is_chained:
  assumes "verify_and_ratchet bls wh ts sp = Ret (Inr c)"
  shows "case c of
      NoChange \<Rightarrow> ts_waypoint ts = wp_new_any wh (ledger_info (latest_li_w_sigs sp))
    | VersionChange ts' \<Rightarrow>
       (\<exists>w es. ts = EpochState w es \<and> es_verify bls es (latest_li_w_sigs sp) = Ret (Inr ())
          \<and> ts' = EpochState (wp_new_any wh (ledger_info (latest_li_w_sigs sp))) es \<and> ts_version ts < ts_version ts')
    | EpochChange ts' li \<Rightarrow>
       (\<exists>es es' v. first_epoch bls wh ts es \<and> (next_epoch bls)\<^sup>*\<^sup>* es es' \<and> next_epoch_state (ledger_info li) = Some es'
          \<and> ts' = EpochState (wp_new_any wh (ledger_info v)) es'
          \<and> (v = li \<or> v = latest_li_w_sigs sp \<and> es_verify bls es' v = Ret (Inr ())))"
proof -
  let ?l = "latest_li_w_sigs sp"
  have stale: "ts_version ts \<le> li_version (ledger_info ?l)"
    using assms by (auto simp: verify_and_ratchet_def verify_and_ratchet_inner_def split: if_splits)
  consider "ratchet_epoch bls wh ts ?l (epoch_changes sp) = Ret (Inr c)" | "ratchet_version bls wh ts ?l = Ret (Inr c)"
    using assms by (auto simp: verify_and_ratchet_def verify_and_ratchet_inner_def split: if_splits)
  then show ?thesis
  proof cases
    case 1
    then obtain li es' v where li: "ecp_verify bls (ts_verify bls wh ts) (ts_is_ledger_info_stale ts) (epoch_changes sp) = Ret (Inr li)"
      "next_epoch_state (ledger_info li) = Some es'" "c = EpochChange (EpochState (wp_new_any wh (ledger_info v)) es') li"
      "v = li \<or> v = ?l \<and> es_verify bls es' v = Ret (Inr ())"
      unfolding ratchet_epoch_def by (auto simp: out_try_ok split: option.splits if_splits)
    from epoch_proof_chain [OF li(1)] li(2-) show ?thesis by auto
  next
    case 2
    then obtain w es where ts: "ts = EpochState w es" by (cases ts) (auto simp: ratchet_version_def)
    with 2 stale show ?thesis
      by (auto simp: ratchet_version_def Let_def out_try_ok ts_version_def ts_waypoint_def wp_new_any_def split: if_splits)
  qed
qed

section \<open>Light clients agree\<close>

text \<open>
  What is assumed of an epoch: its verifier is that of a list of validators with different addresses; the validators
  that are not honest hold at most a third of the power; and an accepted multi-signature was made by everyone it
  names, so what it covers was signed by the honest ones among them (the BLS scheme is unforgeable). \<open>has_signed a m\<close>
  says that \<open>a\<close> has signed \<open>m\<close>.
\<close>

definition honest_epoch :: "('key, 'sig, ('a, 'key, 'h) ledger_info) bls \<Rightarrow> 'a set \<Rightarrow> ('a \<Rightarrow> ('a, 'key, 'h) ledger_info \<Rightarrow> bool)
    \<Rightarrow> ('a, 'key) epoch_state \<Rightarrow> bool" where
  "honest_epoch bls honest has_signed es \<longleftrightarrow> (\<exists>infos. verifier_new infos = Ret (es_verifier es) \<and> infos \<noteq> [] \<and> length infos \<le> 65535
     \<and> distinct (map address infos)
     \<and> 3 * sum (power_at infos) {i. i < length infos \<and> address (infos ! i) \<notin> honest} \<le> power_sum infos
     \<and> (\<forall>m s i. verify_multi_signatures bls (es_verifier es) m s = Ret (Inr ()) \<longrightarrow> i < length infos
          \<longrightarrow> i \<in> bv_positions (validator_bitmask s) \<longrightarrow> address (infos ! i) \<in> honest \<longrightarrow> has_signed (address (infos ! i)) m))"

text \<open>Honest validators sign at most one change of each epoch, and it leads to the next epoch.\<close>

definition honest_signatures :: "'a set \<Rightarrow> ('a \<Rightarrow> ('a, 'key, 'h) ledger_info \<Rightarrow> bool) \<Rightarrow> bool" where
  "honest_signatures honest has_signed \<longleftrightarrow>
     (\<forall>a m m' es es'. a \<in> honest \<longrightarrow> has_signed a m \<longrightarrow> has_signed a m' \<longrightarrow> next_epoch_state m = Some es \<longrightarrow> next_epoch_state m' = Some es'
        \<longrightarrow> li_epoch m = li_epoch m' \<longrightarrow> es = es' \<and> unat (es_epoch es) = Suc (unat (li_epoch m)))"

lemma next_epoch_unique:
  assumes es: "honest_epoch bls honest has_signed es" and sig: "honest_signatures honest has_signed"
    and n: "next_epoch bls es e1" "next_epoch bls es e2"
  shows "e1 = e2" and "unat (es_epoch e1) = Suc (unat (es_epoch es))"
proof -
  obtain infos where i: "verifier_new infos = Ret (es_verifier es)" "infos \<noteq> []" "length infos \<le> 65535" "distinct (map address infos)"
    and f: "3 * sum (power_at infos) {i. i < length infos \<and> address (infos ! i) \<notin> honest} \<le> power_sum infos"
    and u: "\<And>m s i. verify_multi_signatures bls (es_verifier es) m s = Ret (Inr ()) \<Longrightarrow> i < length infos
      \<Longrightarrow> i \<in> bv_positions (validator_bitmask s) \<Longrightarrow> address (infos ! i) \<in> honest \<Longrightarrow> has_signed (address (infos ! i)) m"
    using es unfolding honest_epoch_def by blast
  have ok: "li_epoch (ledger_info li) = es_epoch es
      \<and> verify_multi_signatures bls (es_verifier es) (ledger_info li) (signatures li) = Ret (Inr ())"
    if "es_verify bls es li = Ret (Inr ())" for li
    using that by (auto simp: es_verify_def verify_signatures_def out_bind_eq_Ret_iff split: if_splits)
  obtain l1 l2 where l: "es_verify bls es l1 = Ret (Inr ())" "next_epoch_state (ledger_info l1) = Some e1"
    "es_verify bls es l2 = Ret (Inr ())" "next_epoch_state (ledger_info l2) = Some e2"
    using n by (auto elim!: next_epoch.cases)
  let ?F = "{i. i < length infos \<and> address (infos ! i) \<notin> honest}"
  obtain j where j: "j < length infos" "j \<in> bv_positions (validator_bitmask (signatures l1))"
    "j \<in> bv_positions (validator_bitmask (signatures l2))" "j \<notin> ?F"
    using quorum_overlap(2) [OF i conjunct2 [OF ok [OF l(1)]] conjunct2 [OF ok [OF l(3)]], of ?F] f by auto
  have "address (infos ! j) \<in> honest" "has_signed (address (infos ! j)) (ledger_info l1)" "has_signed (address (infos ! j)) (ledger_info l2)"
    using j u ok [OF l(1)] ok [OF l(3)] by blast+
  with sig l(2,4) ok [OF l(1)] ok [OF l(3)] have "e1 = e2 \<and> unat (es_epoch e1) = Suc (unat (es_epoch es))"
    unfolding honest_signatures_def by metis
  then show "e1 = e2" "unat (es_epoch e1) = Suc (unat (es_epoch es))" by blast+
qed

text \<open>All epochs from one on form a single line.\<close>

lemma epochs_linear:
  assumes honest: "\<And>e. (next_epoch bls)\<^sup>*\<^sup>* es e \<Longrightarrow> honest_epoch bls honest has_signed e" and sig: "honest_signatures honest has_signed"
    and "(next_epoch bls)\<^sup>*\<^sup>* es e1" and "(next_epoch bls)\<^sup>*\<^sup>* es e2"
  shows "(next_epoch bls)\<^sup>*\<^sup>* e1 e2 \<or> (next_epoch bls)\<^sup>*\<^sup>* e2 e1"
  using assms(3)
proof (induction rule: rtranclp_induct)
  case base
  then show ?case using assms(4) by blast
next
  case (step e e')
  from step.IH show ?case
  proof
    assume "(next_epoch bls)\<^sup>*\<^sup>* e e2"
    then show ?thesis
    proof (cases rule: converse_rtranclpE)
      case base
      then show ?thesis using step.hyps(2) by blast
    next
      case (step f)
      then show ?thesis using next_epoch_unique(1) [OF honest sig] \<open>next_epoch bls e e'\<close> \<open>(next_epoch bls)\<^sup>*\<^sup>* es e\<close> by blast
    qed
  next
    assume "(next_epoch bls)\<^sup>*\<^sup>* e2 e"
    then show ?thesis using step.hyps(2) by (meson rtranclp.rtrancl_into_rtrancl)
  qed
qed

lemma epochs_increase:
  assumes honest: "\<And>e. (next_epoch bls)\<^sup>*\<^sup>* es e \<Longrightarrow> honest_epoch bls honest has_signed e" and sig: "honest_signatures honest has_signed"
    and "(next_epoch bls)\<^sup>*\<^sup>* es e"
  shows "e = es \<or> unat (es_epoch es) < unat (es_epoch e)"
  using assms(3)
proof (induction rule: rtranclp_induct)
  case (step e e')
  then show ?case using next_epoch_unique(2) [OF honest sig step.hyps(2) step.hyps(2)] step.hyps(1) by auto
qed simp

lemma same_epoch_same_state:
  assumes honest: "\<And>e. (next_epoch bls)\<^sup>*\<^sup>* es e \<Longrightarrow> honest_epoch bls honest has_signed e" and sig: "honest_signatures honest has_signed"
    and e: "(next_epoch bls)\<^sup>*\<^sup>* es e1" "(next_epoch bls)\<^sup>*\<^sup>* es e2" and "es_epoch e1 = es_epoch e2"
  shows "e1 = e2"
proof -
  have later: "f = e \<or> unat (es_epoch e) < unat (es_epoch f)" if "(next_epoch bls)\<^sup>*\<^sup>* es e" "(next_epoch bls)\<^sup>*\<^sup>* e f" for e f
    by (rule epochs_increase [OF _ sig that(2)]) (use honest that(1) in \<open>meson rtranclp_trans\<close>)
  from epochs_linear [OF honest sig e] show ?thesis using later e assms(5) by fastforce
qed

text \<open>A client that starts from a trusted state and ratchets any number of times, with whatever state proofs.\<close>

inductive ratchets :: "('key, 'sig, ('a, 'key, 'h) ledger_info) bls \<Rightarrow> (('a, 'key, 'h) waypoint_converter \<Rightarrow> hash_value)
    \<Rightarrow> ('a, 'key) trusted_state \<Rightarrow> ('a, 'key) trusted_state \<Rightarrow> bool" for bls wh ts where
  start: "ratchets bls wh ts ts"
| ratchet: "ratchets bls wh ts ts' \<Longrightarrow> verify_and_ratchet bls wh ts' sp = Ret (Inr c) \<Longrightarrow> new_state c = Some ts''
    \<Longrightarrow> ratchets bls wh ts ts''"

text \<open>The epochs that a client can come to trust first: that of its state, or one that its waypoint commits to.\<close>

definition start_epoch :: "('key, 'sig, ('a, 'key, 'h) ledger_info) bls \<Rightarrow> (('a, 'key, 'h) waypoint_converter \<Rightarrow> hash_value)
    \<Rightarrow> ('a, 'key) trusted_state \<Rightarrow> ('a, 'key) epoch_state \<Rightarrow> bool" where
  "start_epoch bls wh ts es = (case ts of EpochWaypoint _ \<Rightarrow> first_epoch bls wh ts es | EpochState _ es0 \<Rightarrow> es = es0)"

lemma ratchet_step_epoch:
  assumes "verify_and_ratchet bls wh ts sp = Ret (Inr c)" and "new_state c = Some ts'"
  shows "\<exists>w es es'. ts' = EpochState w es' \<and> start_epoch bls wh ts es \<and> (next_epoch bls)\<^sup>*\<^sup>* es es'"
proof -
  let ?l = "latest_li_w_sigs sp"
  consider "ratchet_epoch bls wh ts ?l (epoch_changes sp) = Ret (Inr c)" | "ratchet_version bls wh ts ?l = Ret (Inr c)"
    using assms(1) by (auto simp: verify_and_ratchet_def verify_and_ratchet_inner_def split: if_splits)
  then show ?thesis
  proof cases
    case 1
    then obtain li es' w where li: "ecp_verify bls (ts_verify bls wh ts) (ts_is_ledger_info_stale ts) (epoch_changes sp) = Ret (Inr li)"
      "next_epoch_state (ledger_info li) = Some es'" "c = EpochChange (EpochState w es') li"
      unfolding ratchet_epoch_def by (auto simp: out_try_ok split: option.splits)
    from epoch_proof_chain [OF li(1)] li(2) obtain es where es: "first_epoch bls wh ts es" "(next_epoch bls)\<^sup>*\<^sup>* es es'" by auto
    have "\<exists>e. start_epoch bls wh ts e \<and> (next_epoch bls)\<^sup>*\<^sup>* e es'"
    proof (cases ts)
      case (EpochState w0 es0)
      then have "next_epoch bls es0 es" using es(1) by (auto simp: first_epoch_def ts_verify_def intro: next_epoch.intros)
      with es(2) EpochState show ?thesis by (auto simp: start_epoch_def intro: converse_rtranclp_into_rtranclp)
    qed (use es in \<open>auto simp: start_epoch_def\<close>)
    then show ?thesis using assms(2) li(3) by (auto simp: new_state_def)
  next
    case 2
    with assms(2) show ?thesis
      by (cases ts) (auto simp: ratchet_version_def Let_def out_try_ok new_state_def start_epoch_def split: if_splits)
  qed
qed

lemma ratchets_epoch:
  "ratchets bls wh ts ts' \<Longrightarrow> ts' = EpochState w es' \<Longrightarrow> \<exists>es. start_epoch bls wh ts es \<and> (next_epoch bls)\<^sup>*\<^sup>* es es'"
proof (induction arbitrary: w es' rule: ratchets.induct)
  case start
  then show ?case by (auto simp: start_epoch_def)
next
  case (ratchet ts' sp c ts'')
  from ratchet_step_epoch [OF ratchet.hyps(2,3)] ratchet.prems obtain e where
    e: "start_epoch bls wh ts' e" "(next_epoch bls)\<^sup>*\<^sup>* e es'" by auto
  show ?case
  proof (cases ts')
    case (EpochState w0 es0)
    then show ?thesis using ratchet.IH [OF EpochState] e by (auto simp: start_epoch_def intro: rtranclp_trans)
  next
    case (EpochWaypoint w0)
    have "ts' = ts" using ratchet.hyps(1) EpochWaypoint
      by (cases rule: ratchets.cases) (auto dest: ratchet_step_epoch)
    then show ?thesis using e by blast
  qed
qed

lemma start_epoch_unique:
  assumes "start_epoch bls wh ts e1" and "start_epoch bls wh ts e2"
    and "\<forall>x y. wh x = wp_value (ts_waypoint ts) \<longrightarrow> wh y = wp_value (ts_waypoint ts) \<longrightarrow> x = y"
  shows "e1 = e2"
proof (cases ts)
  case (EpochWaypoint w)
  then obtain m1 m2 where "wh (converter_new m1) = wp_value w" "wh (converter_new m2) = wp_value w"
    and n: "next_epoch_state m1 = Some e1" "next_epoch_state m2 = Some e2"
    using assms(1,2) by (auto simp: start_epoch_def first_epoch_def ts_verify_def wp_verify_sigs_def wp_verify_def split: if_splits)
  then have "converter_new m1 = converter_new m2"
    using assms(3) EpochWaypoint by (simp add: ts_waypoint_def)
  then show ?thesis using n by (simp add: converter_new_def)
qed (use assms in \<open>simp add: start_epoch_def\<close>)

text \<open>
  C3. Light clients never disagree on the validators of an epoch. Two clients start from the same trusted state, a
  waypoint whose value has a single preimage or a trusted epoch, and ratchet any number of times with arbitrary,
  possibly different and malicious state proofs. If in every epoch that can be reached the faulty validators hold
  at most a third of the voting power, signatures are unforgeable, and honest validators sign at most one change of
  an epoch, leading to the next epoch, then clients that have come to trust the same epoch number trust the same
  validator set.
\<close>
theorem light_clients_agree:
  assumes honest: "\<forall>es e. start_epoch bls wh ts es \<longrightarrow> (next_epoch bls)\<^sup>*\<^sup>* es e \<longrightarrow> honest_epoch bls honest has_signed e"
    and sig: "honest_signatures honest has_signed"
    and wp: "\<forall>x y. wh x = wp_value (ts_waypoint ts) \<longrightarrow> wh y = wp_value (ts_waypoint ts) \<longrightarrow> x = y"
    and run: "ratchets bls wh ts (EpochState w1 es1)" "ratchets bls wh ts (EpochState w2 es2)" and same: "es_epoch es1 = es_epoch es2"
  shows "es1 = es2"
proof -
  obtain e f where e: "start_epoch bls wh ts e" "(next_epoch bls)\<^sup>*\<^sup>* e es1" and f: "start_epoch bls wh ts f" "(next_epoch bls)\<^sup>*\<^sup>* f es2"
    using ratchets_epoch [OF run(1) refl] ratchets_epoch [OF run(2) refl] by blast
  have "f = e" by (rule start_epoch_unique [OF f(1) e(1) wp])
  with same_epoch_same_state [OF _ sig e(2) _ same] f(2) honest e(1) show ?thesis by blast
qed

section \<open>Examples\<close>

text \<open>One validator, whose signatures cover a single ledger info, the change from epoch 1 to epoch 2.\<close>

definition one_info :: "(nat, nat) consensus_info list" where
  "one_info = [\<lparr>address = 0, public_key = 7, voting_power = 1\<rparr>]"

definition one_verifier :: "(nat, nat) validator_verifier" where
  "one_verifier = build_index one_info 1 1"

definition epoch_no :: "u64 \<Rightarrow> (nat, nat) epoch_state" where
  "epoch_no n = \<lparr>es_epoch = n, es_verifier = one_verifier\<rparr>"

definition change_li :: "(nat, nat, nat) ledger_info" where
  "change_li = \<lparr>commit_info = (block_info_empty 0)\<lparr>bi_epoch := 1, bi_version := 5, bi_next_epoch_state := Some (epoch_no 2)\<rparr>,
     consensus_data_hash = 0\<rparr>"

definition one_bls :: "(nat, unit, (nat, nat, nat) ledger_info) bls" where
  "one_bls = \<lparr>verify_struct = (\<lambda>k m s. m = change_li), aggregate_sigs = (\<lambda>sigs. Some ()), aggregate_keys = (\<lambda>keys. Some 0),
     verify_aggregate = (\<lambda>ms ks s. False)\<rparr>"

definition change :: "(nat, nat, nat, unit) ledger_info_with_sigs" where
  "change = \<lparr>ledger_info = change_li, signatures = \<lparr>validator_bitmask = [0b10000000], sig = Some ()\<rparr>\<rparr>"

definition const_wh :: "(nat, nat, nat) waypoint_converter \<Rightarrow> hash_value" where
  "const_wh c = [1]"

definition start_state :: "(nat, nat) trusted_state" where
  "start_state = EpochState \<lparr>wp_version = 3, wp_value = []\<rparr> (epoch_no 1)"

definition change_proof :: "(nat, nat, nat, unit) state_proof" where
  "change_proof = \<lparr>latest_li_w_sigs = change, epoch_changes = \<lparr>ledger_info_with_sigs = [change], more_epochs = False\<rparr>\<rparr>"

lemma change_fields [simp]:
  "li_epoch change_li = 1" "li_version change_li = 5" "next_epoch_state change_li = Some (epoch_no 2)" "next_block_epoch change_li = 2"
  "es_epoch (epoch_no n) = n" "es_verifier (epoch_no n) = one_verifier" "ledger_info change = change_li"
  by (simp_all add: change_li_def li_epoch_def li_version_def next_epoch_state_def next_block_epoch_def bi_next_block_epoch_def
      epoch_no_def change_def)

lemma one_verifier_new: "verifier_new one_info = Ret one_verifier"
proof -
  have "length one_info \<le> 65535" "one_info \<noteq> []" by (simp_all add: one_info_def)
  moreover have "power_sum one_info = 1" by (simp add: power_sum_list one_info_def)
  ultimately show ?thesis using verifier_new_ok(1) [of one_info] by (simp add: quorum_of_def one_verifier_def)
qed

lemma one_multi_signature:
  "verify_multi_signatures one_bls one_verifier m s = Ret (Inr ()) \<Longrightarrow> m = change_li"
  "verify_multi_signatures one_bls one_verifier change_li (signatures change) = Ret (Inr ())"
proof -
  show "verify_multi_signatures one_bls one_verifier m s = Ret (Inr ()) \<Longrightarrow> m = change_li"
    by (auto simp: verify_multi_signatures_def one_bls_def out_try_ok split: option.splits if_splits)
  have "check_num_of_voters (word_of_nat (verifier_len one_verifier)) [0b10000000] = Inr ()"
    "collect_voters (validator_infos one_verifier) (iter_ones [0b10000000]) = Inr [(0, 7)]"
    "check_voting_power one_verifier [0] = Ret (Inr ())" by code_simp+
  then show "verify_multi_signatures one_bls one_verifier change_li (signatures change) = Ret (Inr ())"
    by (simp add: verify_multi_signatures_def change_def one_bls_def)
qed

lemma change_accepted: "es_verify one_bls (epoch_no 1) change = Ret (Inr ())"
  using one_multi_signature(2) by (simp add: es_verify_def verify_signatures_def)

lemma change_ratchet:
  "verify_and_ratchet one_bls const_wh start_state change_proof
     = Ret (Inr (EpochChange (EpochState (wp_new_any const_wh change_li) (epoch_no 2)) change))"
  using change_accepted
  by (simp add: verify_and_ratchet_def verify_and_ratchet_inner_def change_proof_def start_state_def ts_version_def ts_waypoint_def
      ts_epoch_change_verification_required_def es_epoch_change_verification_required_def ratchet_epoch_def ecp_verify_def
      ts_is_ledger_info_stale_def es_is_ledger_info_stale_def ts_verify_def)

theorem ratchet_is_chained_witness:
  "verify_and_ratchet one_bls const_wh start_state change_proof
     = Ret (Inr (EpochChange (EpochState (wp_new_any const_wh change_li) (epoch_no 2)) change))
   \<and> (\<exists>es. first_epoch one_bls const_wh start_state es \<and> (next_epoch one_bls)\<^sup>*\<^sup>* es (epoch_no 2))"
  using ratchet_is_chained [OF change_ratchet] change_ratchet by auto

lemma one_honest_epoch: "honest_epoch one_bls UNIV (\<lambda>a m. m = change_li) (epoch_no n)"
  unfolding honest_epoch_def
proof (intro exI conjI allI impI)
  show "verifier_new one_info = Ret (es_verifier (epoch_no n))" using one_verifier_new by simp
  show "m = change_li" if "verify_multi_signatures one_bls (es_verifier (epoch_no n)) m s = Ret (Inr ())" for m s
    using one_multi_signature(1) that by simp
qed (simp_all add: one_info_def)

lemma one_next_epoch: "next_epoch one_bls (epoch_no n) e \<Longrightarrow> e = epoch_no 2"
  by (auto elim!: next_epoch.cases dest!: one_multi_signature(1)
      simp: es_verify_def verify_signatures_def out_bind_eq_Ret_iff split: if_splits)

lemma one_epochs: "(next_epoch one_bls)\<^sup>*\<^sup>* (epoch_no 1) e \<Longrightarrow> \<exists>n. e = epoch_no n"
  by (induction rule: rtranclp_induct) (auto dest: one_next_epoch)

theorem light_clients_agree_witness:
  "honest_signatures UNIV (\<lambda>a m. m = change_li)
   \<and> (\<exists>w. ratchets one_bls const_wh start_state (EpochState w (epoch_no 2)))
   \<and> \<not> (\<exists>w es. ratchets one_bls const_wh start_state (EpochState w es) \<and> es_epoch es = 2 \<and> es \<noteq> epoch_no 2)"
proof -
  have sig: "honest_signatures (UNIV :: nat set) (\<lambda>a m. m = change_li)" by (simp add: honest_signatures_def)
  have honest: "\<forall>es e. start_epoch one_bls const_wh start_state es \<longrightarrow> (next_epoch one_bls)\<^sup>*\<^sup>* es e
      \<longrightarrow> honest_epoch one_bls UNIV (\<lambda>a m. m = change_li) e"
    using one_epochs one_honest_epoch by (fastforce simp: start_epoch_def start_state_def)
  have wp: "\<forall>x y. const_wh x = wp_value (ts_waypoint start_state) \<longrightarrow> const_wh y = wp_value (ts_waypoint start_state) \<longrightarrow> x = y"
    by (simp add: const_wh_def start_state_def ts_waypoint_def)
  have run: "ratchets one_bls const_wh start_state (EpochState (wp_new_any const_wh change_li) (epoch_no 2))"
    by (rule ratchets.ratchet [OF ratchets.start change_ratchet]) (simp add: new_state_def)
  have "es = epoch_no 2" if "ratchets one_bls const_wh start_state (EpochState w es)" "es_epoch es = 2" for w es
    using light_clients_agree [OF honest sig wp that(1) run] that(2) by simp
  then show ?thesis using sig run by blast
qed

theorem waypoint_roundtrip_witness:
  "waypoint_from_str (\<lambda>s. if s = to_hex (replicate 32 0xAB) then Some (replicate 32 0xAB) else None)
     (display_waypoint \<lparr>wp_version = 42, wp_value = replicate 32 0xAB\<rparr>) = Inr \<lparr>wp_version = 42, wp_value = replicate 32 0xAB\<rparr>"
  using waypoint_roundtrip [of "\<lambda>s. if s = to_hex (replicate 32 0xAB) then Some (replicate 32 0xAB) else None"
      "\<lparr>wp_version = 42, wp_value = replicate 32 0xAB\<rparr>" "[]"] by simp

end
