(* ===== verification/NibblePath.thy ===== *)
theory NibblePath
  imports Hash "HOL-Library.Sublist"
begin

text \<open>
  Paths in the state tree (\<^verbatim>\<open>types/src/nibble/mod.rs\<close>, \<^verbatim>\<open>types/src/nibble/nibble_path/mod.rs\<close>): sequences of at most 64
  nibbles packed two to a byte, the iterators over their nibbles and bits, and the search for a common prefix. A path
  implements the list of its nibbles.
\<close>

section \<open>Nibbles\<close>

definition ROOT_NIBBLE_HEIGHT :: nat where
  "ROOT_NIBBLE_HEIGHT = LENGTH_HASH * 2"

datatype nib = Nibble (nib_u8: u8)

definition nibble_from_u8 :: "u8 \<Rightarrow> nib outcome" where
  "nibble_from_u8 n = assert_that (n < 16) (Nibble n)"

definition show_nibble :: "nib \<Rightarrow> char" where
  "show_nibble n = hex_digit (unat (nib_u8 n))"

section \<open>Paths\<close>

record nibble_path =
  num_nibbles :: nat
  path_bytes :: bytes

definition new_even :: "bytes \<Rightarrow> nibble_path outcome" where
  "new_even bs = assert_that (length bs \<le> ROOT_NIBBLE_HEIGHT div 2) \<lparr>num_nibbles = length bs * 2, path_bytes = bs\<rparr>"

definition new_odd :: "bytes \<Rightarrow> nibble_path outcome" where
  "new_odd bs =
     (if \<not> length bs \<le> ROOT_NIBBLE_HEIGHT div 2 \<or> bs = [] \<or> last bs AND 0x0F \<noteq> 0 then Panic
      else out_bind (usize_sub (length bs * 2) 1) (\<lambda>n. Ret \<lparr>num_nibbles = n, path_bytes = bs\<rparr>))"

definition new_from_byte_array :: "bytes \<Rightarrow> nat \<Rightarrow> nibble_path outcome" where
  "new_from_byte_array bs n =
     (if \<not> n \<le> ROOT_NIBBLE_HEIGHT then Panic
      else if n mod 2 = 1 then
        (let num_bytes = (n + 1) div 2 in
         if length bs \<ge> num_bytes
         then new_odd ((take num_bytes bs)[num_bytes - 1 := bs ! (num_bytes - 1) AND 0xF0])
         else Panic)
      else if length bs \<ge> n div 2 then new_even (take (n div 2) bs) else Panic)"

definition new_from_state_key :: "('k \<Rightarrow> hash_value) \<Rightarrow> 'k \<Rightarrow> nat \<Rightarrow> nibble_path outcome" where
  "new_from_state_key hash_key state_key n = new_from_byte_array (hash_key state_key) n"

definition np_push :: "nibble_path \<Rightarrow> nib \<Rightarrow> nibble_path outcome" where
  "np_push p n =
     (if \<not> ROOT_NIBBLE_HEIGHT > num_nibbles p then Panic
      else out_bind
        (if num_nibbles p mod 2 = 0 then Ret (path_bytes p @ [push_bit 4 (nib_u8 n)])
         else out_bind (index (path_bytes p) (num_nibbles p div 2)) (\<lambda>b.
           Ret ((path_bytes p)[num_nibbles p div 2 := b OR nib_u8 n])))
        (\<lambda>bs. Ret \<lparr>num_nibbles = num_nibbles p + 1, path_bytes = bs\<rparr>))"

definition np_pop :: "nibble_path \<Rightarrow> (nib option \<times> nibble_path) outcome" where
  "np_pop p =
     (if path_bytes p = [] then Ret (None, p)
      else
        let b = last (path_bytes p) in
        out_bind
          (if num_nibbles p mod 2 = 0
           then out_bind (nibble_from_u8 (b AND 0x0F)) (\<lambda>n. Ret (n, (path_bytes p)[length (path_bytes p) - 1 := b AND 0xF0]))
           else out_bind (nibble_from_u8 (drop_bit 4 b)) (\<lambda>n. Ret (n, butlast (path_bytes p))))
          (\<lambda>(n, bs). out_bind (usize_sub (num_nibbles p) 1) (\<lambda>k. Ret (Some n, \<lparr>num_nibbles = k, path_bytes = bs\<rparr>))))"

definition np_last :: "nibble_path \<Rightarrow> nib option outcome" where
  "np_last p =
     (if num_nibbles p mod 2 = 0
      then if path_bytes p = [] then Ret None
           else out_bind (nibble_from_u8 (last (path_bytes p) AND 0x0F)) (\<lambda>n. Ret (Some n))
      else if path_bytes p = [] then Panic
           else out_bind (nibble_from_u8 (drop_bit 4 (last (path_bytes p)))) (\<lambda>n. Ret (Some n)))"

definition np_get_bit :: "nibble_path \<Rightarrow> nat \<Rightarrow> bool outcome" where
  "np_get_bit p i =
     (if i < num_nibbles p * 4
      then out_bind (index (path_bytes p) (i div 8)) (\<lambda>b. Ret (drop_bit (7 - i mod 8) b AND 1 \<noteq> 0))
      else Panic)"

definition get_nibble :: "nibble_path \<Rightarrow> nat \<Rightarrow> nib outcome" where
  "get_nibble p i =
     (if i < num_nibbles p
      then out_bind (index (path_bytes p) (i div 2)) (\<lambda>b. nibble_from_u8 (drop_bit (if i mod 2 = 1 then 0 else 4) b AND 0xF))
      else Panic)"

definition np_is_empty :: "nibble_path \<Rightarrow> bool" where
  "np_is_empty p = (num_nibbles p = 0)"

definition np_truncate :: "nibble_path \<Rightarrow> nat \<Rightarrow> nibble_path outcome" where
  "np_truncate p len =
     (if \<not> len \<le> num_nibbles p then Panic
      else let bs = take ((len + 1) div 2) (path_bytes p) in
        out_bind
          (if len mod 2 \<noteq> 0 then if bs = [] then Panic else Ret (bs[length bs - 1 := last bs AND 0xF0]) else Ret bs)
          (\<lambda>bs. Ret \<lparr>num_nibbles = len, path_bytes = bs\<rparr>))"

text \<open>\<^verbatim>\<open>FromIterator\<close>: push one nibble after the other.\<close>

fun push_all :: "nibble_path \<Rightarrow> nib list \<Rightarrow> nibble_path outcome" where
  "push_all p [] = Ret p"
| "push_all p (n # ns) = out_bind (np_push p n) (\<lambda>p. push_all p ns)"

definition np_from_iter :: "nib list \<Rightarrow> nibble_path outcome" where
  "np_from_iter ns = out_bind (new_even []) (\<lambda>p. push_all p ns)"

section \<open>Iterators\<close>

text \<open>A range of positions that is consumed from either end.\<close>

record bit_iterator =
  bi_path :: nibble_path
  bi_start :: nat
  bi_end :: nat

definition np_bits :: "nibble_path \<Rightarrow> bit_iterator" where
  "np_bits p = \<lparr>bi_path = p, bi_start = 0, bi_end = num_nibbles p * 4\<rparr>"

definition bi_peek :: "bit_iterator \<Rightarrow> bool option outcome" where
  "bi_peek it = (if bi_start it < bi_end it then out_bind (np_get_bit (bi_path it) (bi_start it)) (\<lambda>b. Ret (Some b)) else Ret None)"

definition bi_next :: "bit_iterator \<Rightarrow> (bool option \<times> bit_iterator) outcome" where
  "bi_next it =
     (if bi_start it < bi_end it
      then out_bind (np_get_bit (bi_path it) (bi_start it)) (\<lambda>b. Ret (Some b, it\<lparr>bi_start := bi_start it + 1\<rparr>))
      else Ret (None, it))"

definition bi_next_back :: "bit_iterator \<Rightarrow> (bool option \<times> bit_iterator) outcome" where
  "bi_next_back it =
     (if bi_start it < bi_end it
      then out_bind (np_get_bit (bi_path it) (bi_end it - 1)) (\<lambda>b. Ret (Some b, it\<lparr>bi_end := bi_end it - 1\<rparr>))
      else Ret (None, it))"

record nibble_iterator =
  ni_path :: nibble_path
  ni_pos :: nat
  ni_end :: nat
  ni_start :: nat

definition ni_new :: "nibble_path \<Rightarrow> nat \<Rightarrow> nat \<Rightarrow> nibble_iterator outcome" where
  "ni_new p start end_pos =
     assert_that (start \<le> end_pos \<and> start \<le> ROOT_NIBBLE_HEIGHT \<and> end_pos \<le> ROOT_NIBBLE_HEIGHT)
       \<lparr>ni_path = p, ni_pos = start, ni_end = end_pos, ni_start = start\<rparr>"

definition np_nibbles :: "nibble_path \<Rightarrow> nibble_iterator outcome" where
  "np_nibbles p = ni_new p 0 (num_nibbles p)"

definition ni_peek :: "nibble_iterator \<Rightarrow> nib option outcome" where
  "ni_peek it = (if ni_pos it < ni_end it then out_bind (get_nibble (ni_path it) (ni_pos it)) (\<lambda>n. Ret (Some n)) else Ret None)"

definition ni_next :: "nibble_iterator \<Rightarrow> (nib option \<times> nibble_iterator) outcome" where
  "ni_next it =
     (if ni_pos it < ni_end it
      then out_bind (get_nibble (ni_path it) (ni_pos it)) (\<lambda>n. Ret (Some n, it\<lparr>ni_pos := ni_pos it + 1\<rparr>))
      else Ret (None, it))"

definition visited_nibbles :: "nibble_iterator \<Rightarrow> nibble_iterator outcome" where
  "visited_nibbles it = ni_new (ni_path it) (ni_start it) (ni_pos it)"

definition remaining_nibbles :: "nibble_iterator \<Rightarrow> nibble_iterator outcome" where
  "remaining_nibbles it = ni_new (ni_path it) (ni_pos it) (ni_end it)"

definition ni_bits :: "nibble_iterator \<Rightarrow> bit_iterator" where
  "ni_bits it = \<lparr>bi_path = ni_path it, bi_start = ni_pos it * 4, bi_end = ni_end it * 4\<rparr>"

text \<open>Collecting an iterator.\<close>

function ni_collect :: "nibble_iterator \<Rightarrow> nib list outcome" where
  "ni_collect it =
     (if ni_pos it < ni_end it
      then out_bind (get_nibble (ni_path it) (ni_pos it)) (\<lambda>n.
             out_bind (ni_collect (it\<lparr>ni_pos := ni_pos it + 1\<rparr>)) (\<lambda>ns. Ret (n # ns)))
      else Ret [])"
  by pat_completeness auto
termination by (relation "measure (\<lambda>it. ni_end it - ni_pos it)") auto

declare ni_collect.simps [simp del]

definition get_nibble_path :: "nibble_iterator \<Rightarrow> nibble_path outcome" where
  "get_nibble_path it =
     out_bind (visited_nibbles it) (\<lambda>v. out_bind (remaining_nibbles it) (\<lambda>r.
       out_bind (ni_collect v) (\<lambda>xs. out_bind (ni_collect r) (\<lambda>ys. np_from_iter (xs @ ys)))))"

definition ni_num_nibbles :: "nibble_iterator \<Rightarrow> nat outcome" where
  "ni_num_nibbles it = assert_that (ni_start it \<le> ni_end it) (ni_end it - ni_start it)"

definition ni_is_finished :: "nibble_iterator \<Rightarrow> bool outcome" where
  "ni_is_finished it = out_bind (ni_peek it) (\<lambda>n. Ret (n = None))"

text \<open>\<^verbatim>\<open>Debug\<close> prints the nibbles as hexadecimal digits.\<close>

definition debug_nibble_path :: "nibble_path \<Rightarrow> string outcome" where
  "debug_nibble_path p = out_bind (np_nibbles p) (\<lambda>it. out_bind (ni_collect it) (\<lambda>ns. Ret (map show_nibble ns)))"

section \<open>Common prefixes\<close>

text \<open>
  The loop of \<^verbatim>\<open>skip_common_prefix\<close>, over any two iterators that can be peeked. For iterators that never end it does not
  return, which is the value \<open>None\<close>.
\<close>

partial_function (option) skip_loop ::
  "('x \<Rightarrow> 'i option outcome) \<Rightarrow> ('x \<Rightarrow> ('i option \<times> 'x) outcome) \<Rightarrow> ('y \<Rightarrow> 'i option outcome) \<Rightarrow> ('y \<Rightarrow> ('i option \<times> 'y) outcome)
     \<Rightarrow> nat \<Rightarrow> 'x \<Rightarrow> 'y \<Rightarrow> (nat \<times> 'x \<times> 'y) outcome option" where
  "skip_loop peek_x next_x peek_y next_y count x y =
     (case peek_x x of Panic \<Rightarrow> Some Panic | Ret x_peek \<Rightarrow>
      (case peek_y y of Panic \<Rightarrow> Some Panic | Ret y_peek \<Rightarrow>
       (if x_peek = None \<or> y_peek = None \<or> x_peek \<noteq> y_peek then Some (Ret (count, x, y))
        else (case next_x x of Panic \<Rightarrow> Some Panic | Ret rx \<Rightarrow>
              (case next_y y of Panic \<Rightarrow> Some Panic | Ret ry \<Rightarrow>
                skip_loop peek_x next_x peek_y next_y (count + 1) (snd rx) (snd ry))))))"

definition skip_common_prefix ::
  "('x \<Rightarrow> 'i option outcome) \<Rightarrow> ('x \<Rightarrow> ('i option \<times> 'x) outcome) \<Rightarrow> ('y \<Rightarrow> 'i option outcome) \<Rightarrow> ('y \<Rightarrow> ('i option \<times> 'y) outcome)
     \<Rightarrow> 'x \<Rightarrow> 'y \<Rightarrow> (nat \<times> 'x \<times> 'y) outcome option" where
  "skip_common_prefix peek_x next_x peek_y next_y x y = skip_loop peek_x next_x peek_y next_y 0 x y"

section \<open>Paths are lists of nibbles\<close>

text \<open>The two halves of a byte.\<close>

definition hi :: "u8 \<Rightarrow> nib" where
  "hi b = Nibble (drop_bit 4 b)"

definition lo :: "u8 \<Rightarrow> nib" where
  "lo b = Nibble (take_bit 4 b)"

definition nib_ok :: "nib \<Rightarrow> bool" where
  "nib_ok n \<longleftrightarrow> nib_u8 n < 16"

lemma and_0F: "(b::u8) AND 0x0F = take_bit 4 b"
  by (simp add: take_bit_eq_mask mask_numeral)

lemma and_F0: "(b::u8) AND 0xF0 = push_bit 4 (drop_bit 4 b)"
proof (rule bit_word_eqI)
  fix n assume "n < LENGTH(8)"
  then have "n \<in> {0, 1, 2, 3, 4, 5, 6, 7}" by auto
  then show "bit (b AND 0xF0) n = bit (push_bit 4 (drop_bit 4 b)) n"
    by (auto simp: bit_and_iff bit_push_bit_iff bit_drop_bit_eq)
qed

lemma nibble_small: "(n::u8) < 16 \<Longrightarrow> take_bit 4 n = n"
  by (simp add: word_unat_eq_iff unsigned_take_bit_eq take_bit_nat_eq_self word_less_nat_alt)

lemma take_bit_4_less: "take_bit 4 (b::u8) < 16"
  using take_bit_nat_less_exp [of 4 "unat b"] by (simp add: word_less_nat_alt unsigned_take_bit_eq)

lemma drop_bit_4_less: "drop_bit 4 (b::u8) < 16"
  using unsigned_less [of b, where 'a = nat] by (simp add: word_less_nat_alt drop_bit_eq_div unat_div)

lemma nib_ok_halves [simp]: "nib_ok (hi b)" "nib_ok (lo b)"
  by (simp_all add: nib_ok_def hi_def lo_def take_bit_4_less drop_bit_4_less)

lemma bit_small: "(n::u8) < 16 \<Longrightarrow> bit n i \<Longrightarrow> i < 4"
  using nibble_small [of n] by (metis bit_take_bit_iff)

lemma halves_push:
  assumes "nib_ok n"
  shows "hi (push_bit 4 (nib_u8 n)) = n" and "take_bit 4 (push_bit 4 (nib_u8 n)) = 0"
proof -
  have "drop_bit 4 (push_bit 4 (nib_u8 n)) = nib_u8 n"
    using bit_small assms [unfolded nib_ok_def]
    by (intro bit_word_eqI) (auto simp: bit_drop_bit_eq bit_push_bit_iff)
  then show "hi (push_bit 4 (nib_u8 n)) = n" by (simp add: hi_def)
  show "take_bit 4 (push_bit 4 (nib_u8 n)) = 0"
    by (intro bit_word_eqI) (auto simp: bit_take_bit_iff bit_push_bit_iff)
qed

lemma halves_or:
  assumes "nib_ok n" and "take_bit 4 b = 0"
  shows "hi (b OR nib_u8 n) = hi b" and "lo (b OR nib_u8 n) = n"
proof -
  have low: "\<not> bit b i" if "i < 4" for i using assms(2) that by (metis bit_0_eq bit_take_bit_iff bot_apply bot_bool_def)
  note small = bit_small [OF assms(1) [unfolded nib_ok_def]]
  have "drop_bit 4 (b OR nib_u8 n) = drop_bit 4 b"
    using small by (intro bit_word_eqI) (fastforce simp: bit_drop_bit_eq bit_or_iff)
  then show "hi (b OR nib_u8 n) = hi b" by (simp add: hi_def)
  have "take_bit 4 (b OR nib_u8 n) = nib_u8 n"
    using small low by (intro bit_word_eqI) (auto simp: bit_take_bit_iff bit_or_iff)
  then show "lo (b OR nib_u8 n) = n" by (simp add: lo_def)
qed

lemma halves_clear: "hi (push_bit 4 (drop_bit 4 b)) = hi b" "take_bit 4 (push_bit 4 (drop_bit 4 b)) = 0"
  using halves_push [of "hi b"] by (simp_all add: hi_def nib_ok_def drop_bit_4_less)

lemma halves_inject: "hi a = hi b \<Longrightarrow> lo a = lo b \<Longrightarrow> a = b"
proof -
  assume "hi a = hi b" "lo a = lo b"
  then have "push_bit 4 (drop_bit 4 a) + take_bit 4 a = push_bit 4 (drop_bit 4 b) + take_bit 4 b"
    by (simp add: hi_def lo_def)
  then show ?thesis by (simp add: bits_ident)
qed

text \<open>The nibbles of bytes, and the nibbles of a path.\<close>

definition unpack :: "bytes \<Rightarrow> nib list" where
  "unpack bs = concat (map (\<lambda>b. [hi b, lo b]) bs)"

definition nibbles_of :: "nibble_path \<Rightarrow> nib list" where
  "nibbles_of p = take (num_nibbles p) (unpack (path_bytes p))"

definition wf_path :: "nibble_path \<Rightarrow> bool" where
  "wf_path p \<longleftrightarrow> num_nibbles p \<le> ROOT_NIBBLE_HEIGHT \<and> length (path_bytes p) = (num_nibbles p + 1) div 2
     \<and> (odd (num_nibbles p) \<longrightarrow> take_bit 4 (last (path_bytes p)) = 0)"

lemma unpack_simps [simp]:
  "unpack [] = []" "unpack (b # bs) = hi b # lo b # unpack bs" "unpack (bs @ cs) = unpack bs @ unpack cs"
  by (simp_all add: unpack_def)

lemma length_unpack [simp]: "length (unpack bs) = 2 * length bs"
  by (induction bs) auto

lemma unpack_inject: "unpack bs = unpack cs \<longleftrightarrow> bs = cs"
proof (induction bs arbitrary: cs)
  case Nil
  show ?case by (cases cs) auto
next
  case (Cons b bs)
  then show ?case by (cases cs) (auto intro: halves_inject)
qed

lemma nth_unpack: "i < 2 * length bs \<Longrightarrow> unpack bs ! i = (if even i then hi else lo) (bs ! (i div 2))"
proof (induction bs arbitrary: i)
  case (Cons b bs)
  consider "i = 0" | "i = 1" | k where "i = Suc (Suc k)" by (metis One_nat_def not0_implies_Suc)
  then show ?case using Cons by cases auto
qed simp

lemma unpack_ok: "n \<in> set (unpack bs) \<Longrightarrow> nib_ok n"
  by (induction bs) auto

text \<open>A well-formed path either fills its bytes or has a last byte whose lower half is free.\<close>

abbreviation full_path :: "bytes \<Rightarrow> nibble_path" where
  "full_path bs \<equiv> \<lparr>num_nibbles = 2 * length bs, path_bytes = bs\<rparr>"

abbreviation half_path :: "bytes \<Rightarrow> u8 \<Rightarrow> nibble_path" where
  "half_path bs b \<equiv> \<lparr>num_nibbles = Suc (2 * length bs), path_bytes = bs @ [b]\<rparr>"

lemma wf_full [simp]: "wf_path (full_path bs) \<longleftrightarrow> length bs \<le> 32"
  by (auto simp: wf_path_def ROOT_NIBBLE_HEIGHT_def LENGTH_HASH_def)

lemma wf_half [simp]: "wf_path (half_path bs b) \<longleftrightarrow> length bs < 32 \<and> take_bit 4 b = 0"
  by (auto simp: wf_path_def ROOT_NIBBLE_HEIGHT_def LENGTH_HASH_def)

lemma nibbles_full [simp]: "nibbles_of (full_path bs) = unpack bs"
  by (simp add: nibbles_of_def)

lemma nibbles_half [simp]: "nibbles_of (half_path bs b) = unpack bs @ [hi b]"
  by (simp add: nibbles_of_def)

lemma wf_path_cases:
  assumes "wf_path p"
  obtains (full) bs where "p = full_path bs" "length bs \<le> 32"
  | (half) bs b where "p = half_path bs b" "length bs < 32" "take_bit 4 b = 0"
proof (cases "even (num_nibbles p)")
  case True
  then obtain k where k: "num_nibbles p = 2 * k" by blast
  with assms have "length (path_bytes p) = k" "k \<le> 32"
    by (simp_all add: wf_path_def ROOT_NIBBLE_HEIGHT_def LENGTH_HASH_def)
  with k full [of "path_bytes p"] show ?thesis by (cases p) simp
next
  case False
  then obtain k where k: "num_nibbles p = Suc (2 * k)" by (metis oddE Suc_eq_plus1)
  with assms have l: "length (path_bytes p) = Suc k" "k < 32" "take_bit 4 (last (path_bytes p)) = 0"
    by (simp_all add: wf_path_def ROOT_NIBBLE_HEIGHT_def LENGTH_HASH_def)
  then have b: "path_bytes p = butlast (path_bytes p) @ [last (path_bytes p)]" by (metis append_butlast_last_id length_0_conv nat.distinct(1))
  then have "p = half_path (butlast (path_bytes p)) (last (path_bytes p))" using k l(1) by (cases p) simp
  then show ?thesis by (rule half) (use l in simp_all)
qed

lemma length_nibbles_of: "wf_path p \<Longrightarrow> length (nibbles_of p) = num_nibbles p"
  by (cases rule: wf_path_cases) auto

lemma nibbles_of_inject:
  assumes "wf_path p" "wf_path q" "nibbles_of p = nibbles_of q"
  shows "p = q"
proof -
  have n: "num_nibbles p = num_nibbles q" using assms by (metis length_nibbles_of)
  have clear: "b = c" if "hi b = hi c" "take_bit 4 b = 0" "take_bit 4 c = 0" for b c
    using halves_inject [OF that(1)] that(2,3) by (simp add: lo_def)
  from assms(1) show ?thesis
  proof (cases rule: wf_path_cases)
    case p: (full bs)
    from assms(2) show ?thesis
    proof (cases rule: wf_path_cases)
      case (full cs)
      then show ?thesis using p assms(3) by (simp add: unpack_inject)
    next
      case (half cs c)
      then have "2 * length bs = Suc (2 * length cs)" using p n by simp
      then have False by presburger
      then show ?thesis ..
    qed
  next
    case p: (half bs b)
    from assms(2) show ?thesis
    proof (cases rule: wf_path_cases)
      case (full cs)
      then have "2 * length cs = Suc (2 * length bs)" using p n by simp
      then have False by presburger
      then show ?thesis ..
    next
      case (half cs c)
      then show ?thesis using p assms(3) clear by (simp add: unpack_inject)
    qed
  qed
qed

section \<open>Operations on paths\<close>

lemma nibble_from_u8_halves [simp]:
  "nibble_from_u8 (take_bit 4 b) = Ret (lo b)" "nibble_from_u8 (drop_bit 4 b) = Ret (hi b)"
  by (simp_all add: nibble_from_u8_def lo_def hi_def assert_that_def take_bit_4_less drop_bit_4_less)

lemma push_effect:
  assumes "wf_path p" and "nib_ok n"
  shows "if num_nibbles p < ROOT_NIBBLE_HEIGHT
         then \<exists>p'. np_push p n = Ret p' \<and> wf_path p' \<and> nibbles_of p' = nibbles_of p @ [n]
         else np_push p n = Panic"
  using assms(1)
proof (cases rule: wf_path_cases)
  case (full bs)
  then have "np_push p n = (if length bs < 32 then Ret (half_path bs (push_bit 4 (nib_u8 n))) else Panic)"
    by (auto simp: np_push_def ROOT_NIBBLE_HEIGHT_def LENGTH_HASH_def)
  with full halves_push [OF assms(2)] show ?thesis
    by (auto simp: ROOT_NIBBLE_HEIGHT_def LENGTH_HASH_def)
next
  case (half bs b)
  have "np_push p n = Ret (full_path (bs @ [b OR nib_u8 n]))"
    using half by (auto simp: np_push_def ROOT_NIBBLE_HEIGHT_def LENGTH_HASH_def nth_append list_update_append)
  moreover have "wf_path (full_path (bs @ [b OR nib_u8 n]))" using half wf_full [of "bs @ [b OR nib_u8 n]"] by simp
  moreover have "nibbles_of (full_path (bs @ [b OR nib_u8 n])) = nibbles_of p @ [n]"
    using half halves_or [OF assms(2) half(3)] nibbles_full [of "bs @ [b OR nib_u8 n]"] by simp
  ultimately show ?thesis using half by (auto simp: ROOT_NIBBLE_HEIGHT_def LENGTH_HASH_def)
qed

lemma pop_effect:
  assumes "wf_path p"
  shows "if nibbles_of p = [] then np_pop p = Ret (None, p)
         else \<exists>p'. np_pop p = Ret (Some (last (nibbles_of p)), p') \<and> wf_path p' \<and> nibbles_of p' = butlast (nibbles_of p)"
  using assms
proof (cases rule: wf_path_cases)
  case (full bs)
  show ?thesis
  proof (cases bs rule: rev_cases)
    case Nil
    then show ?thesis using full by (simp add: np_pop_def nibbles_of_def)
  next
    case (snoc cs b)
    then have "np_pop p = Ret (Some (lo b), half_path cs (push_bit 4 (drop_bit 4 b)))"
      using full by (simp add: np_pop_def and_0F and_F0 usize_sub_def)
    moreover have "nibbles_of p = unpack cs @ [hi b, lo b]" using full snoc nibbles_full [of bs] by simp
    ultimately show ?thesis using full snoc by (simp add: halves_clear butlast_append)
  qed
next
  case (half bs b)
  then have "np_pop p = Ret (Some (hi b), full_path bs)" by (simp add: np_pop_def usize_sub_def)
  with half show ?thesis by simp
qed

lemma last_effect:
  assumes "wf_path p"
  shows "np_last p = Ret (if nibbles_of p = [] then None else Some (last (nibbles_of p)))"
  using assms
proof (cases rule: wf_path_cases)
  case (full bs)
  then show ?thesis by (cases bs rule: rev_cases) (simp_all add: np_last_def and_0F nibbles_of_def)
next
  case (half bs b)
  then show ?thesis by (simp add: np_last_def)
qed

lemma get_nibble_effect:
  assumes "wf_path p"
  shows "get_nibble p i = (if i < num_nibbles p then Ret (nibbles_of p ! i) else Panic)"
proof (cases "i < num_nibbles p")
  case True
  with assms have l: "i div 2 < length (path_bytes p)" by (auto simp: wf_path_def)
  have "nibbles_of p ! i = (if even i then hi else lo) (path_bytes p ! (i div 2))"
    using True l nth_unpack [of i "path_bytes p"] by (simp add: nibbles_of_def)
  moreover have "lo (drop_bit 4 b) = hi b" for b
    using nibble_small [OF drop_bit_4_less] by (simp add: lo_def hi_def)
  ultimately show ?thesis using True l by (simp add: get_nibble_def and_0F odd_iff_mod_2_eq_one)
qed (simp add: get_nibble_def)

lemma truncate_effect:
  assumes "wf_path p"
  shows "if len \<le> num_nibbles p then \<exists>p'. np_truncate p len = Ret p' \<and> wf_path p' \<and> nibbles_of p' = take len (nibbles_of p)
         else np_truncate p len = Panic"
proof (cases "len \<le> num_nibbles p")
  case True
  let ?k = "len div 2"
  have l: "(len + 1) div 2 \<le> length (path_bytes p)" "len \<le> 64"
    using True assms by (auto simp: wf_path_def ROOT_NIBBLE_HEIGHT_def LENGTH_HASH_def intro: div_le_mono)
  have take: "take len (nibbles_of p) = take len (unpack (path_bytes p))" using True by (simp add: nibbles_of_def min_def)
  show ?thesis
  proof (cases "even len")
    case even: True
    define cs where "cs = take ?k (path_bytes p)"
    have len: "len = 2 * length cs" "(len + 1) div 2 = ?k" using even l by (auto simp: cs_def)
    have "path_bytes p = cs @ drop ?k (path_bytes p)" by (simp add: cs_def)
    then have "take len (unpack (path_bytes p)) = unpack cs" using len(1) by (metis append_eq_conv_conj length_unpack unpack_simps(3))
    moreover have "np_truncate p len = Ret (full_path cs)"
      using True even len(1) unfolding np_truncate_def Let_def len(2) cs_def [symmetric] by simp
    ultimately show ?thesis using True take l(2) len by simp
  next
    case odd: False
    then have k: "?k < length (path_bytes p)" "(len + 1) div 2 = Suc ?k" "len = Suc (2 * ?k)" using l(1) by presburger+
    define cs b where "cs = take ?k (path_bytes p)" and "b = path_bytes p ! ?k"
    have cs: "path_bytes p = cs @ b # drop (Suc ?k) (path_bytes p)" "length cs = ?k" "take (Suc ?k) (path_bytes p) = cs @ [b]"
      using id_take_nth_drop [OF k(1)] k(1) by (simp_all add: cs_def b_def take_Suc_conv_app_nth)
    have len: "len = Suc (2 * length cs)" using k(3) cs(2) by simp
    have "np_truncate p len = Ret (half_path cs (push_bit 4 (drop_bit 4 b)))"
      using True odd unfolding np_truncate_def Let_def k(2) cs(3) by (simp add: and_F0 list_update_append len)
    moreover have "take len (unpack (path_bytes p)) = unpack cs @ [hi b]"
      by (subst cs(1)) (simp add: len)
    ultimately show ?thesis using True take l(2) len by (simp add: halves_clear)
  qed
qed (simp add: np_truncate_def)

lemma push_all_effect:
  "\<lbrakk>wf_path p; \<forall>n\<in>set ns. nib_ok n; num_nibbles p + length ns \<le> ROOT_NIBBLE_HEIGHT\<rbrakk>
   \<Longrightarrow> \<exists>p'. push_all p ns = Ret p' \<and> wf_path p' \<and> nibbles_of p' = nibbles_of p @ ns"
proof (induction ns arbitrary: p)
  case (Cons n ns)
  then obtain p' where p': "np_push p n = Ret p'" "wf_path p'" "nibbles_of p' = nibbles_of p @ [n]"
    using push_effect [of p n] by auto
  then have "num_nibbles p' = Suc (num_nibbles p)" using Cons.prems(1) by (metis length_append_singleton length_nibbles_of)
  with Cons.IH [of p'] Cons.prems p' show ?case by simp
qed simp

lemma from_iter_effect:
  assumes "\<forall>n\<in>set ns. nib_ok n" and "length ns \<le> ROOT_NIBBLE_HEIGHT"
  shows "\<exists>p. np_from_iter ns = Ret p \<and> wf_path p \<and> nibbles_of p = ns"
proof -
  have "new_even [] = Ret (full_path [])" by (simp add: new_even_def assert_that_def)
  with push_all_effect [of "full_path []" ns] assms wf_full [of "[]"] show ?thesis
    by (simp add: np_from_iter_def nibbles_of_def)
qed

lemma nibbles_ok: "n \<in> set (nibbles_of p) \<Longrightarrow> nib_ok n"
  unfolding nibbles_of_def by (blast dest: in_set_takeD intro: unpack_ok)

lemma get_bit_effect:
  assumes "wf_path p" and "i < num_nibbles p * 4"
  shows "np_get_bit p i = Ret (bit (nib_u8 (nibbles_of p ! (i div 4))) (3 - i mod 4))"
proof -
  let ?b = "path_bytes p ! (i div 8)"
  have i: "i div 4 < num_nibbles p" "i div 8 = i div 4 div 2" using assms(2) by (auto simp: div_mult2_eq [symmetric])
  have l: "i div 8 < length (path_bytes p)" using i assms(1) by (auto simp: wf_path_def)
  have nib: "nibbles_of p ! (i div 4) = (if even (i div 4) then hi else lo) ?b"
    using i l nth_unpack [of "i div 4" "path_bytes p"] by (simp add: nibbles_of_def)
  have m: "i mod 8 = i mod 4 + (if even (i div 4) then 0 else 4)"
    using mod_mult2_eq [of i 4 2] by (simp add: even_iff_mod_2_eq_zero)
  have "i mod 4 < 4" by simp
  then have "bit ?b (7 - i mod 8) = bit (nib_u8 (nibbles_of p ! (i div 4))) (3 - i mod 4)"
    unfolding nib m by (auto simp: hi_def lo_def bit_drop_bit_eq bit_take_bit_iff)
  with l assms(2) show ?thesis by (simp add: np_get_bit_def u8_and_1 bit_drop_bit_eq)
qed

section \<open>Iterators are lists\<close>

text \<open>What \<^verbatim>\<open>skip_common_prefix\<close> needs of an iterator: peeking shows the head of what is left, advancing removes it.\<close>

locale peekable =
  fixes peek :: "'x \<Rightarrow> 'i option outcome" and advance :: "'x \<Rightarrow> ('i option \<times> 'x) outcome"
    and it_inv :: "'x \<Rightarrow> bool" and items :: "'x \<Rightarrow> 'i list"
  assumes peek_items: "it_inv x \<Longrightarrow> peek x = Ret (case items x of [] \<Rightarrow> None | i # _ \<Rightarrow> Some i)"
    and advance_items: "it_inv x \<Longrightarrow> items x = i # rest \<Longrightarrow> \<exists>x'. advance x = Ret (Some i, x') \<and> it_inv x' \<and> items x' = rest"

locale peekable_pair =
  X: peekable peek_x next_x inv_x items_x + Y: peekable peek_y next_y inv_y items_y
  for peek_x :: "'x \<Rightarrow> 'i option outcome" and next_x inv_x items_x
    and peek_y :: "'y \<Rightarrow> 'i option outcome" and next_y inv_y items_y
begin

lemma skip_loop_prefix:
  assumes "inv_x x" and "inv_y y"
  shows "\<exists>x' y'. skip_loop peek_x next_x peek_y next_y c x y
           = Some (Ret (c + length (longest_common_prefix (items_x x) (items_y y)), x', y'))
         \<and> inv_x x' \<and> inv_y y' \<and> items_x x = longest_common_prefix (items_x x) (items_y y) @ items_x x'
         \<and> items_y y = longest_common_prefix (items_x x) (items_y y) @ items_y y'"
  using assms
proof (induction "items_x x" arbitrary: c x y)
  case Nil
  then show ?case
    by (subst skip_loop.simps) (simp add: X.peek_items Y.peek_items flip: Nil.hyps split: list.split)
next
  case (Cons i rest)
  show ?case
  proof (cases "items_y y")
    case Nil
    then show ?thesis using Cons.prems Cons.hyps(2) [symmetric]
      by (subst skip_loop.simps) (simp add: X.peek_items Y.peek_items)
  next
    case y: (Cons j js)
    show ?thesis
    proof (cases "i = j")
      case False
      then show ?thesis using Cons.prems Cons.hyps(2) [symmetric] y
        by (subst skip_loop.simps) (simp add: X.peek_items Y.peek_items)
    next
      case True
      obtain x' where x': "next_x x = Ret (Some i, x')" "inv_x x'" "items_x x' = rest"
        using X.advance_items [OF Cons.prems(1) Cons.hyps(2) [symmetric]] by blast
      obtain y' where y': "next_y y = Ret (Some j, y')" "inv_y y'" "items_y y' = js"
        using Y.advance_items [OF Cons.prems(2) y] by blast
      from Cons.hyps(1) [OF x'(3) [symmetric] x'(2) y'(2), of "c + 1"] show ?thesis
        using Cons.prems Cons.hyps(2) [symmetric] y x' y' True
        by (subst skip_loop.simps) (simp add: X.peek_items Y.peek_items)
    qed
  qed
qed

end

definition ni_inv :: "nibble_iterator \<Rightarrow> bool" where
  "ni_inv it \<longleftrightarrow> wf_path (ni_path it) \<and> ni_start it \<le> ni_pos it \<and> ni_pos it \<le> ni_end it \<and> ni_end it \<le> num_nibbles (ni_path it)"

definition ni_items :: "nibble_iterator \<Rightarrow> nib list" where
  "ni_items it = map ((!) (nibbles_of (ni_path it))) [ni_pos it..<ni_end it]"

definition bi_inv :: "bit_iterator \<Rightarrow> bool" where
  "bi_inv it \<longleftrightarrow> wf_path (bi_path it) \<and> bi_start it \<le> bi_end it \<and> bi_end it \<le> num_nibbles (bi_path it) * 4"

definition bi_items :: "bit_iterator \<Rightarrow> bool list" where
  "bi_items it = map (\<lambda>i. bit (nib_u8 (nibbles_of (bi_path it) ! (i div 4))) (3 - i mod 4)) [bi_start it..<bi_end it]"

lemma map_upt_Cons: "map f [a..<b] = y # ys \<Longrightarrow> a < b \<and> y = f a \<and> map f [Suc a..<b] = ys"
  by (cases "a < b") (auto simp: upt_conv_Cons)

interpretation ni: peekable ni_peek ni_next ni_inv ni_items
proof
  show "ni_peek it = Ret (case ni_items it of [] \<Rightarrow> None | i # _ \<Rightarrow> Some i)" if "ni_inv it" for it
    using that by (auto simp: ni_peek_def ni_inv_def ni_items_def get_nibble_effect upt_conv_Cons)
  show "\<exists>it'. ni_next it = Ret (Some i, it') \<and> ni_inv it' \<and> ni_items it' = rest" if "ni_inv it" "ni_items it = i # rest" for it i rest
    using that map_upt_Cons [OF that(2) [unfolded ni_items_def]]
    by (auto simp: ni_next_def ni_inv_def ni_items_def get_nibble_effect)
qed

interpretation bi: peekable bi_peek bi_next bi_inv bi_items
proof
  show "bi_peek it = Ret (case bi_items it of [] \<Rightarrow> None | i # _ \<Rightarrow> Some i)" if "bi_inv it" for it
    using that by (auto simp: bi_peek_def bi_inv_def bi_items_def get_bit_effect upt_conv_Cons)
  show "\<exists>it'. bi_next it = Ret (Some i, it') \<and> bi_inv it' \<and> bi_items it' = rest" if "bi_inv it" "bi_items it = i # rest" for it i rest
    using that map_upt_Cons [OF that(2) [unfolded bi_items_def]]
    by (auto simp: bi_next_def bi_inv_def bi_items_def get_bit_effect)
qed

interpretation nn: peekable_pair ni_peek ni_next ni_inv ni_items ni_peek ni_next ni_inv ni_items ..

interpretation bb: peekable_pair bi_peek bi_next bi_inv bi_items bi_peek bi_next bi_inv bi_items ..

lemma ni_new_inv:
  assumes "wf_path p" and "a \<le> b" and "b \<le> num_nibbles p"
  shows "\<exists>it. ni_new p a b = Ret it \<and> ni_inv it \<and> ni_path it = p \<and> ni_start it = a \<and> ni_pos it = a \<and> ni_end it = b"
  using assms by (auto simp: ni_new_def ni_inv_def assert_that_def wf_path_def)

lemma ni_collect_items: "ni_inv it \<Longrightarrow> ni_collect it = Ret (ni_items it)"
proof (induction it rule: ni_collect.induct)
  case (1 it)
  show ?case
  proof (cases "ni_pos it < ni_end it")
    case True
    with 1 show ?thesis
      by (subst ni_collect.simps) (auto simp: ni_inv_def get_nibble_effect ni_items_def upt_conv_Cons)
  next
    case False
    then show ?thesis by (subst ni_collect.simps) (simp add: ni_items_def)
  qed
qed

lemma map_nth_upt: "b \<le> length xs \<Longrightarrow> map ((!) xs) [a..<b] = drop a (take b xs)"
  by (rule nth_equalityI) (auto simp: nth_append min_def)

lemma nibbles_iterator:
  assumes "wf_path p"
  obtains it where "np_nibbles p = Ret it" "ni_inv it" "ni_path it = p" "ni_items it = nibbles_of p" "ni_start it = 0" "ni_pos it = 0"
    "ni_end it = num_nibbles p"
  using ni_new_inv [OF assms, of 0 "num_nibbles p"] length_nibbles_of [OF assms]
  by (auto simp: np_nibbles_def ni_items_def map_nth_upt)

lemma get_nibble_path_effect:
  assumes "ni_inv it" and "ni_start it = 0" and "ni_end it = num_nibbles (ni_path it)"
  shows "get_nibble_path it = Ret (ni_path it)"
proof -
  note inv = assms(1) [unfolded ni_inv_def]
  let ?ns = "nibbles_of (ni_path it)"
  note len = length_nibbles_of [of "ni_path it"]
  obtain v where v: "visited_nibbles it = Ret v" "ni_collect v = Ret (take (ni_pos it) ?ns)"
    using ni_new_inv [of "ni_path it" 0 "ni_pos it"] inv assms(2) len
    by (auto simp: visited_nibbles_def ni_collect_items ni_items_def map_nth_upt)
  obtain r where r: "remaining_nibbles it = Ret r" "ni_collect r = Ret (drop (ni_pos it) ?ns)"
    using ni_new_inv [of "ni_path it" "ni_pos it" "ni_end it"] inv assms(3) len
    by (auto simp: remaining_nibbles_def ni_collect_items ni_items_def map_nth_upt)
  have "length ?ns \<le> ROOT_NIBBLE_HEIGHT" using inv len by (simp add: wf_path_def)
  with from_iter_effect [of ?ns] obtain p where p: "np_from_iter ?ns = Ret p" "wf_path p" "nibbles_of p = ?ns"
    using nibbles_ok by blast
  then have "p = ni_path it" using nibbles_of_inject inv by blast
  with v r p(1) show ?thesis by (simp add: get_nibble_path_def)
qed

section \<open>Properties\<close>

text \<open>
  C36. A nibble path implements the list of its nibbles, at most 64 of them: pushing appends and panics exactly on a full
  path, popping and truncating remove from the end, the last nibble, the nibble and the bit at a position are those of
  the list, collecting the nibbles of a path gives the path back, and every operation keeps the representation
  well-formed.
\<close>
theorem nibble_path_refines_list:
  assumes "wf_path p" and "nib_ok n"
  shows "(if length (nibbles_of p) < ROOT_NIBBLE_HEIGHT
          then \<exists>p'. np_push p n = Ret p' \<and> wf_path p' \<and> nibbles_of p' = nibbles_of p @ [n] else np_push p n = Panic)
    \<and> (if nibbles_of p = [] then np_pop p = Ret (None, p)
       else \<exists>p'. np_pop p = Ret (Some (last (nibbles_of p)), p') \<and> wf_path p' \<and> nibbles_of p' = butlast (nibbles_of p))
    \<and> np_last p = Ret (if nibbles_of p = [] then None else Some (last (nibbles_of p)))
    \<and> get_nibble p i = (if i < length (nibbles_of p) then Ret (nibbles_of p ! i) else Panic)
    \<and> np_get_bit p i
        = (if i < length (nibbles_of p) * 4 then Ret (bit (nib_u8 (nibbles_of p ! (i div 4))) (3 - i mod 4)) else Panic)
    \<and> (if i \<le> length (nibbles_of p)
       then \<exists>p'. np_truncate p i = Ret p' \<and> wf_path p' \<and> nibbles_of p' = take i (nibbles_of p) else np_truncate p i = Panic)
    \<and> np_from_iter (nibbles_of p) = Ret p"
proof -
  have "length (nibbles_of p) \<le> ROOT_NIBBLE_HEIGHT" using assms(1) by (simp add: length_nibbles_of wf_path_def)
  with from_iter_effect [of "nibbles_of p"] nibbles_ok nibbles_of_inject [OF _ assms(1)]
  have "np_from_iter (nibbles_of p) = Ret p" by blast
  moreover have "np_get_bit p i
    = (if i < num_nibbles p * 4 then Ret (bit (nib_u8 (nibbles_of p ! (i div 4))) (3 - i mod 4)) else Panic)"
    using get_bit_effect [OF assms(1), of i] by (simp add: np_get_bit_def)
  ultimately show ?thesis
    using push_effect [OF assms] pop_effect [OF assms(1)] last_effect [OF assms(1)] get_nibble_effect [OF assms(1), of i]
      truncate_effect [OF assms(1), of i]
    by (simp only: length_nibbles_of [OF assms(1)] simp_thms)
qed

theorem nibble_path_refines_list_witness:
  "wf_path \<lparr>num_nibbles = 3, path_bytes = [0x12, 0xA0]\<rparr> \<and> nib_ok (Nibble 5)
   \<and> (\<exists>p'. np_push \<lparr>num_nibbles = 3, path_bytes = [0x12, 0xA0]\<rparr> (Nibble 5) = Ret p'
        \<and> nibbles_of p' = [Nibble 1, Nibble 2, Nibble 10, Nibble 5])"
proof -
  let ?p = "\<lparr>num_nibbles = 3, path_bytes = [0x12, 0xA0]\<rparr> :: nibble_path"
  have h: "wf_path ?p" "nib_ok (Nibble 5)" by code_simp+
  have n: "nibbles_of ?p = [Nibble 1, Nibble 2, Nibble 10]" by code_simp
  show ?thesis using nibble_path_refines_list [OF h, of 0] h unfolding n
    by (simp add: ROOT_NIBBLE_HEIGHT_def LENGTH_HASH_def) blast
qed

text \<open>
  C37. Skipping the common prefix of two paths returns: it counts the longest common prefix of their nibbles, leaves each
  iterator at the rest of its path, and the whole path can still be cut from either of them.
\<close>
theorem skip_common_prefix_longest:
  assumes "wf_path p" and "wf_path q"
  shows "\<exists>x y x' y'. np_nibbles p = Ret x \<and> np_nibbles q = Ret y
    \<and> skip_common_prefix ni_peek ni_next ni_peek ni_next x y
        = Some (Ret (length (longest_common_prefix (nibbles_of p) (nibbles_of q)), x', y'))
    \<and> nibbles_of p = longest_common_prefix (nibbles_of p) (nibbles_of q) @ ni_items x'
    \<and> nibbles_of q = longest_common_prefix (nibbles_of p) (nibbles_of q) @ ni_items y'
    \<and> ni_collect x' = Ret (ni_items x') \<and> ni_collect y' = Ret (ni_items y')"
proof -
  obtain x where x: "np_nibbles p = Ret x" "ni_inv x" "ni_items x = nibbles_of p" by (rule nibbles_iterator [OF assms(1)])
  obtain y where y: "np_nibbles q = Ret y" "ni_inv y" "ni_items y = nibbles_of q" by (rule nibbles_iterator [OF assms(2)])
  from nn.skip_loop_prefix [OF x(2) y(2), of 0] x y ni_collect_items show ?thesis
    unfolding skip_common_prefix_def by auto
qed

theorem skip_common_prefix_longest_witness:
  "wf_path \<lparr>num_nibbles = 3, path_bytes = [0x12, 0xA0]\<rparr> \<and> wf_path \<lparr>num_nibbles = 4, path_bytes = [0x12, 0xB3]\<rparr>
   \<and> (\<exists>x y x' y'. np_nibbles \<lparr>num_nibbles = 3, path_bytes = [0x12, 0xA0]\<rparr> = Ret x
        \<and> np_nibbles \<lparr>num_nibbles = 4, path_bytes = [0x12, 0xB3]\<rparr> = Ret y
        \<and> skip_common_prefix ni_peek ni_next ni_peek ni_next x y = Some (Ret (2, x', y')) \<and> ni_items y' = [Nibble 11, Nibble 3])"
proof -
  let ?p = "\<lparr>num_nibbles = 3, path_bytes = [0x12, 0xA0]\<rparr> :: nibble_path"
  let ?q = "\<lparr>num_nibbles = 4, path_bytes = [0x12, 0xB3]\<rparr> :: nibble_path"
  have h: "wf_path ?p" "wf_path ?q" by code_simp+
  have n: "nibbles_of ?p = [Nibble 1, Nibble 2, Nibble 10]" "nibbles_of ?q = [Nibble 1, Nibble 2, Nibble 11, Nibble 3]"
    by code_simp+
  show ?thesis using skip_common_prefix_longest [OF h] h unfolding n by (simp add: numeral_2_eq_2) metis
qed

end
