(* ===== verification/CryptoKeys.thy ===== *)
theory CryptoKeys
  imports Text
begin

text \<open>
  Key material (\<^verbatim>\<open>crates/ol-crypto/src/traits.rs\<close>, \<^verbatim>\<open>crates/ol-crypto/src/x25519.rs\<close>, \<^verbatim>\<open>crates/ol-crypto/src/hkdf.rs\<close>): the
  errors of reading it, its hexadecimal text form, and the checks around X25519 keys and around the key derivation
  function. The curve and HMAC are arguments.
\<close>

section \<open>Errors and text form\<close>

datatype crypto_material_error =
  SerializationError | DeserializationError | ValidationError | WrongLengthError
| CanonicalRepresentationError | SmallSubgroupError | PointNotOnCurveError | BitVecError string

text \<open>\<open>hex_decode\<close> is the decoder of the \<^verbatim>\<open>hex\<close> package, \<open>try_from\<close> the conversion of the type of the key.\<close>

definition strip_prefix :: "string \<Rightarrow> string \<Rightarrow> string option" where
  "strip_prefix p s = (if take (length p) s = p then Some (drop (length p) s) else None)"

definition from_encoded_string ::
  "(string \<Rightarrow> bytes option) \<Rightarrow> (bytes \<Rightarrow> crypto_material_error + 'k) \<Rightarrow> string \<Rightarrow> crypto_material_error + 'k" where
  "from_encoded_string hex_decode try_from s =
     (let encoded = (case strip_prefix ''0x'' s of None \<Rightarrow> s | Some rest \<Rightarrow> rest) in
      case hex_decode encoded of None \<Rightarrow> Inl DeserializationError | Some bs \<Rightarrow> try_from bs)"

definition to_encoded_string :: "('k \<Rightarrow> bytes) \<Rightarrow> 'k \<Rightarrow> string" where
  "to_encoded_string to_bytes k = ''0x'' @ to_hex (to_bytes k)"

lemma from_to_encoded_string:
  assumes "hex_decode (to_hex (to_bytes k)) = Some (to_bytes k)" and "try_from (to_bytes k) = Inr k"
  shows "from_encoded_string hex_decode try_from (to_encoded_string to_bytes k) = Inr k"
  using assms by (simp add: from_encoded_string_def to_encoded_string_def strip_prefix_def)

section \<open>X25519 keys\<close>

definition PRIVATE_KEY_SIZE :: nat where
  "PRIVATE_KEY_SIZE = 32"

definition PUBLIC_KEY_SIZE :: nat where
  "PUBLIC_KEY_SIZE = 32"

definition SHARED_SECRET_SIZE :: nat where
  "SHARED_SECRET_SIZE = 32"

text \<open>A public key is its 32 bytes.\<close>

type_synonym x25519_public = bytes

definition x25519_public_try_from :: "bytes \<Rightarrow> crypto_material_error + x25519_public" where
  "x25519_public_try_from bs = (if length bs = PUBLIC_KEY_SIZE then Inr bs else Inl WrongLengthError)"

text \<open>\<open>from_bytes\<close> clamps 32 bytes to a secret of the \<^verbatim>\<open>x25519_dalek\<close> package.\<close>

definition x25519_private_try_from :: "(bytes \<Rightarrow> 'sk) \<Rightarrow> bytes \<Rightarrow> crypto_material_error + 'sk" where
  "x25519_private_try_from from_bytes bs =
     (if length bs = PRIVATE_KEY_SIZE then Inr (from_bytes bs) else Inl DeserializationError)"

text \<open>
  Conversion of Ed25519 keys: \<open>expand\<close> gives the first half of the expanded secret, \<open>montgomery\<close> the u-coordinate of a
  compressed point. Clamping must leave the expanded secret as it is.
\<close>

definition from_ed25519_private_bytes ::
  "(bytes \<Rightarrow> bytes option) \<Rightarrow> (bytes \<Rightarrow> 'sk) \<Rightarrow> ('sk \<Rightarrow> bytes) \<Rightarrow> bytes \<Rightarrow> crypto_material_error + 'sk" where
  "from_ed25519_private_bytes expand from_bytes to_bytes private_slice =
     (case expand private_slice of
        None \<Rightarrow> Inl DeserializationError
      | Some expanded_keypart \<Rightarrow>
          let potential_x25519 = from_bytes expanded_keypart in
          if to_bytes potential_x25519 \<noteq> expanded_keypart then Inl DeserializationError else Inr potential_x25519)"

definition from_ed25519_public_bytes ::
  "(bytes \<Rightarrow> bytes option) \<Rightarrow> bytes \<Rightarrow> crypto_material_error + x25519_public" where
  "from_ed25519_public_bytes montgomery ed25519_bytes =
     (if length ed25519_bytes \<noteq> 32 then Inl DeserializationError
      else case montgomery ed25519_bytes of None \<Rightarrow> Inl DeserializationError | Some u \<Rightarrow> Inr u)"

section \<open>Key derivation\<close>

datatype hkdf_error = InvalidOutputLengthError | WrongPseudorandomKeyError | MACKeyError | InvalidSeedLengthError

definition MINIMUM_SEED_LENGTH :: nat where
  "MINIMUM_SEED_LENGTH = 16"

text \<open>
  The \<^verbatim>\<open>hkdf\<close> package: extraction of a pseudorandom key from a salt and key material, and the expansion of a key, which
  refuses keys shorter than the hash and outputs longer than 255 hashes.
\<close>

record hkdf_package =
  hk_extract :: "bytes option \<Rightarrow> bytes \<Rightarrow> bytes"
  hk_prk_ok :: "bytes \<Rightarrow> bool"
  hk_expand :: "bytes \<Rightarrow> bytes \<Rightarrow> nat \<Rightarrow> bytes option"

definition extract_no_ikm_check :: "hkdf_package \<Rightarrow> bytes option \<Rightarrow> bytes \<Rightarrow> bytes" where
  "extract_no_ikm_check hk salt ikm = hk_extract hk salt ikm"

definition hkdf_extract :: "hkdf_package \<Rightarrow> bytes option \<Rightarrow> bytes \<Rightarrow> hkdf_error + bytes" where
  "hkdf_extract hk salt ikm =
     (if length ikm < MINIMUM_SEED_LENGTH then Inl InvalidSeedLengthError else Inr (extract_no_ikm_check hk salt ikm))"

definition hkdf_expand :: "hkdf_package \<Rightarrow> bytes \<Rightarrow> bytes option \<Rightarrow> nat \<Rightarrow> hkdf_error + bytes" where
  "hkdf_expand hk prk info len =
     (if len = 0 then Inl InvalidOutputLengthError
      else if \<not> hk_prk_ok hk prk then Inl WrongPseudorandomKeyError
      else ok_or InvalidOutputLengthError (hk_expand hk prk (case info of None \<Rightarrow> [] | Some i \<Rightarrow> i) len))"

definition extract_then_expand :: "hkdf_package \<Rightarrow> bytes option \<Rightarrow> bytes \<Rightarrow> bytes option \<Rightarrow> nat \<Rightarrow> hkdf_error + bytes" where
  "extract_then_expand hk salt ikm info len = and_then (hkdf_extract hk salt ikm) (\<lambda>prk. hkdf_expand hk prk info len)"

definition extract_then_expand_no_ikm :: "hkdf_package \<Rightarrow> bytes option \<Rightarrow> bytes option \<Rightarrow> nat \<Rightarrow> hkdf_error + bytes" where
  "extract_then_expand_no_ikm hk salt info len = hkdf_expand hk (extract_no_ikm_check hk salt []) info len"

end
