(* ===== verification/NetworkAddress.thy ===== *)
theory NetworkAddress
  imports CryptoKeys
begin

text \<open>
  Network addresses (\<^verbatim>\<open>types/src/network_address/mod.rs\<close>): stacks of protocols, their text form and its parser, the order
  of the layers, and the partial parsers of the transports. The text forms of IP addresses belong to \<^verbatim>\<open>std::net\<close> and the
  decoder of hexadecimal text to the \<^verbatim>\<open>hex\<close> package; they are arguments.
\<close>

section \<open>Protocols\<close>

definition MAX_DNS_NAME_SIZE :: nat where
  "MAX_DNS_NAME_SIZE = 255"

type_synonym ipv4 = u32
type_synonym ipv6 = u128

datatype protocol =
  Ip4 ipv4 | Ip6 ipv6 | Dns string | Dns4 string | Dns6 string | Tcp u16 | Memory u16 | NoiseIK x25519_public | Handshake u8

type_synonym network_address = "protocol list"

datatype address_error =
  UnknownProtocolType string | UnexpectedEnd | ParseAddrError | ParseIntError | ParseX25519PubkeyError crypto_material_error
| EmptyProtocolString | InvalidProtocolString | EmptyDnsNameString | InvalidDnsNameCharacter | DnsNameNonASCII string
| DnsNameTooLong nat | DecryptError | BCSError | NetworkLayerMissing | TransportLayerMissing | SessionLayerMissing
| HandshakeLayerMissing | RedundantLayer

datatype ip_addr = V4 ipv4 | V6 ipv6

text \<open>What the parser and the printer use of other packages.\<close>

record net_text =
  show_ip4 :: "ipv4 \<Rightarrow> string"
  parse_ip4 :: "string \<Rightarrow> ipv4 option"
  show_ip6 :: "ipv6 \<Rightarrow> string"
  parse_ip6 :: "string \<Rightarrow> ipv6 option"
  hex_decode :: "string \<Rightarrow> bytes option"

definition is_network_layer :: "protocol option \<Rightarrow> bool" where
  "is_network_layer p =
     (case p of Some (Ip4 _) \<Rightarrow> True | Some (Ip6 _) \<Rightarrow> True | Some (Dns _) \<Rightarrow> True | Some (Dns4 _) \<Rightarrow> True | Some (Dns6 _) \<Rightarrow> True
      | Some (Memory _) \<Rightarrow> True | _ \<Rightarrow> False)"

definition is_transport_layer :: "protocol option \<Rightarrow> bool" where
  "is_transport_layer p = (case p of Some (Tcp _) \<Rightarrow> True | _ \<Rightarrow> False)"

definition is_session_layer :: "protocol option \<Rightarrow> bool \<Rightarrow> bool" where
  "is_session_layer p allow_empty = (case p of None \<Rightarrow> allow_empty | Some (NoiseIK _) \<Rightarrow> True | _ \<Rightarrow> False)"

definition is_handshake_layer :: "protocol option \<Rightarrow> bool \<Rightarrow> bool" where
  "is_handshake_layer p allow_empty = (case p of None \<Rightarrow> allow_empty | Some (Handshake _) \<Rightarrow> True | _ \<Rightarrow> False)"

definition is_memory :: "protocol option \<Rightarrow> bool" where
  "is_memory p = (case p of Some (Memory _) \<Rightarrow> True | _ \<Rightarrow> False)"

text \<open>\<^verbatim>\<open>Iterator::next\<close> on the slice of protocols.\<close>

fun next_item :: "'a list \<Rightarrow> 'a option \<times> 'a list" where
  "next_item [] = (None, [])"
| "next_item (x # xs) = (Some x, xs)"

text \<open>The checks after the network and transport layers.\<close>

definition session_and_handshake :: "protocol list \<Rightarrow> protocol list \<Rightarrow> address_error + network_address" where
  "session_and_handshake protocols iter =
     (case next_item iter of (p, iter) \<Rightarrow>
        if p = None then Inr protocols
        else if \<not> is_session_layer p True then Inl SessionLayerMissing
        else case next_item iter of (p, iter) \<Rightarrow>
          if p = None then Inr protocols
          else if \<not> is_handshake_layer p True then Inl HandshakeLayerMissing
          else case next_item iter of (p, iter) \<Rightarrow> if p = None then Inr protocols else Inl RedundantLayer)"

definition from_protocols :: "protocol list \<Rightarrow> address_error + network_address" where
  "from_protocols protocols =
     (case next_item protocols of (p, iter) \<Rightarrow>
        if p = None then Inr protocols
        else if \<not> is_network_layer p then Inl NetworkLayerMissing
        else if \<not> is_memory p then
          (case next_item iter of (p, iter) \<Rightarrow>
             if p = None then Inr protocols
             else if \<not> is_transport_layer p then Inl TransportLayerMissing
             else session_and_handshake protocols iter)
        else session_and_handshake protocols iter)"

definition append_prod_protos :: "network_address \<Rightarrow> x25519_public \<Rightarrow> u8 \<Rightarrow> network_address" where
  "append_prod_protos a network_pubkey handshake_version = a @ [NoiseIK network_pubkey] @ [Handshake handshake_version]"

fun find_map :: "('a \<Rightarrow> 'b option) \<Rightarrow> 'a list \<Rightarrow> 'b option" where
  "find_map f [] = None"
| "find_map f (x # xs) = (case f x of Some y \<Rightarrow> Some y | None \<Rightarrow> find_map f xs)"

definition find_ip_addr :: "network_address \<Rightarrow> ip_addr option" where
  "find_ip_addr a = find_map (\<lambda>p. case p of Ip4 ip \<Rightarrow> Some (V4 ip) | Ip6 ip \<Rightarrow> Some (V6 ip) | _ \<Rightarrow> None) a"

definition find_port :: "network_address \<Rightarrow> u16 option" where
  "find_port a = find_map (\<lambda>p. case p of Tcp port \<Rightarrow> Some port | _ \<Rightarrow> None) a"

definition find_noise_proto :: "network_address \<Rightarrow> x25519_public option" where
  "find_noise_proto a = find_map (\<lambda>p. case p of NoiseIK k \<Rightarrow> Some k | _ \<Rightarrow> None) a"

definition rotate_noise_public_key :: "network_address \<Rightarrow> x25519_public \<Rightarrow> x25519_public \<Rightarrow> network_address" where
  "rotate_noise_public_key a to_replace new_public_key =
     map (\<lambda>p. case p of NoiseIK k \<Rightarrow> if k = to_replace then NoiseIK new_public_key else p | _ \<Rightarrow> p) a"

section \<open>Text form\<close>

definition dns_validate :: "string \<Rightarrow> address_error + unit" where
  "dns_validate s =
     (if s = [] then Inl EmptyDnsNameString
      else if length s > MAX_DNS_NAME_SIZE then Inl (DnsNameTooLong (length s))
      else if CHR ''/'' \<in> set s then Inl InvalidDnsNameCharacter
      else if \<not> list_all (\<lambda>c. (of_char c :: nat) < 128) s then Inl (DnsNameNonASCII s)
      else Inr ())"

definition dns_from_str :: "string \<Rightarrow> address_error + string" where
  "dns_from_str s = and_then (dns_validate s) (\<lambda>_. Inr s)"

definition show_protocol :: "net_text \<Rightarrow> protocol \<Rightarrow> string" where
  "show_protocol nt p =
     (case p of
        Ip4 a \<Rightarrow> ''/ip4/'' @ show_ip4 nt a
      | Ip6 a \<Rightarrow> ''/ip6/'' @ show_ip6 nt a
      | Dns domain \<Rightarrow> ''/dns/'' @ domain
      | Dns4 domain \<Rightarrow> ''/dns4/'' @ domain
      | Dns6 domain \<Rightarrow> ''/dns6/'' @ domain
      | Tcp port \<Rightarrow> ''/tcp/'' @ show_uint port
      | Memory port \<Rightarrow> ''/memory/'' @ show_uint port
      | NoiseIK pubkey \<Rightarrow> ''/noise-ik/'' @ to_encoded_string (\<lambda>k. k) pubkey
      | Handshake version \<Rightarrow> ''/handshake/'' @ show_uint version)"

definition show_address :: "net_text \<Rightarrow> network_address \<Rightarrow> string" where
  "show_address nt a = concat (map (show_protocol nt) a)"

text \<open>\<open>parse_one\<close> takes the next argument and parses it; the parser is that of the type wanted.\<close>

definition parse_one :: "(string \<Rightarrow> address_error + 'a) \<Rightarrow> string list \<Rightarrow> address_error + 'a \<times> string list" where
  "parse_one parse args =
     (case args of [] \<Rightarrow> Inl UnexpectedEnd | arg # rest \<Rightarrow> and_then (parse arg) (\<lambda>x. Inr (x, rest)))"

definition protocol_parse :: "net_text \<Rightarrow> string \<Rightarrow> string list \<Rightarrow> address_error + protocol \<times> string list" where
  "protocol_parse nt protocol_type args =
     (if protocol_type = ''ip4'' then parse_one (\<lambda>s. and_then (ok_or ParseAddrError (parse_ip4 nt s)) (\<lambda>x. Inr (Ip4 x))) args
      else if protocol_type = ''ip6'' then parse_one (\<lambda>s. and_then (ok_or ParseAddrError (parse_ip6 nt s)) (\<lambda>x. Inr (Ip6 x))) args
      else if protocol_type = ''dns'' then parse_one (\<lambda>s. and_then (dns_from_str s) (\<lambda>x. Inr (Dns x))) args
      else if protocol_type = ''dns4'' then parse_one (\<lambda>s. and_then (dns_from_str s) (\<lambda>x. Inr (Dns4 x))) args
      else if protocol_type = ''dns6'' then parse_one (\<lambda>s. and_then (dns_from_str s) (\<lambda>x. Inr (Dns6 x))) args
      else if protocol_type = ''tcp'' then parse_one (\<lambda>s. and_then (ok_or ParseIntError (parse_uint s)) (\<lambda>x. Inr (Tcp x))) args
      else if protocol_type = ''memory'' then parse_one (\<lambda>s. and_then (ok_or ParseIntError (parse_uint s)) (\<lambda>x. Inr (Memory x))) args
      else if protocol_type = ''noise-ik'' then
        parse_one (\<lambda>s. and_then (map_err ParseX25519PubkeyError (from_encoded_string (hex_decode nt) x25519_public_try_from s))
          (\<lambda>x. Inr (NoiseIK x))) args
      else if protocol_type = ''handshake'' then
        parse_one (\<lambda>s. and_then (ok_or ParseIntError (parse_uint s)) (\<lambda>x. Inr (Handshake x))) args
      else Inl (UnknownProtocolType protocol_type))"

lemma protocol_parse_rest:
  assumes "protocol_parse nt ty args = Inr (p, rest)"
  shows "length rest < length args"
proof -
  have "parse_one f args = Inr (p, rest) \<Longrightarrow> length rest < length args" for f
    by (auto simp: parse_one_def and_then_eq_Inr_iff split: list.splits)
  then show ?thesis using assms by (auto simp: protocol_parse_def split: if_splits)
qed

text \<open>The loop over the parts; empty parts between protocols are skipped.\<close>

function parse_protocols :: "net_text \<Rightarrow> string list \<Rightarrow> address_error + protocol list" where
  "parse_protocols nt [] = Inr []"
| "parse_protocols nt (protocol_type # parts) =
     (if protocol_type = [] then parse_protocols nt parts
      else case protocol_parse nt protocol_type parts of
             Inl e \<Rightarrow> Inl e
           | Inr (p, rest) \<Rightarrow> and_then (parse_protocols nt rest) (\<lambda>ps. Inr (p # ps)))"
  by pat_completeness auto
termination
  by (relation "measure (\<lambda>(nt, parts). length parts)") (auto dest: protocol_parse_rest)

definition address_from_str :: "net_text \<Rightarrow> string \<Rightarrow> address_error + network_address" where
  "address_from_str nt s =
     (if s = [] then Inl EmptyProtocolString
      else case split_at (CHR ''/'') s of
        [] \<Rightarrow> Inl InvalidProtocolString
      | first # parts \<Rightarrow>
          if first \<noteq> [] then Inl InvalidProtocolString
          else and_then (parse_protocols nt parts) (\<lambda>protocols.
            if protocols = [] then Inl EmptyProtocolString else from_protocols protocols))"

section \<open>Conversions\<close>

definition address_try_from :: "protocol list \<Rightarrow> address_error + network_address" where
  "address_try_from protocols = (if protocols = [] then Inl EmptyProtocolString else from_protocols protocols)"

definition address_from_protocol :: "protocol \<Rightarrow> network_address outcome" where
  "address_from_protocol p = expect_ok (from_protocols [p])"

definition protocol_from_ip :: "ip_addr \<Rightarrow> protocol" where
  "protocol_from_ip a = (case a of V4 ip \<Rightarrow> Ip4 ip | V6 ip \<Rightarrow> Ip6 ip)"

definition address_from_socket :: "ip_addr \<times> u16 \<Rightarrow> network_address outcome" where
  "address_from_socket sockaddr =
     (case sockaddr of (ip, port) \<Rightarrow> expect_ok (from_protocols [protocol_from_ip ip, Tcp port]))"

text \<open>The binary form is the \<^verbatim>\<open>bcs\<close> encoding of the protocols, the human-readable one the text; the codec is an argument.\<close>

definition serialize_address :: "net_text \<Rightarrow> (protocol list \<Rightarrow> bytes) \<Rightarrow> bool \<Rightarrow> network_address \<Rightarrow> string + bytes" where
  "serialize_address nt to_bytes human_readable a = (if human_readable then Inl (show_address nt a) else Inr (to_bytes a))"

definition deserialize_address ::
  "net_text \<Rightarrow> (bytes \<Rightarrow> protocol list option) \<Rightarrow> string + bytes \<Rightarrow> address_error + network_address" where
  "deserialize_address nt from_bytes v =
     (case v of
        Inl s \<Rightarrow> address_from_str nt s
      | Inr bs \<Rightarrow> and_then (ok_or BCSError (from_bytes bs)) address_try_from)"

section \<open>Partial parsers\<close>

definition parse_memory :: "protocol list \<Rightarrow> (u16 \<times> protocol list) option" where
  "parse_memory protos = (case protos of Memory port # suffix \<Rightarrow> Some (port, suffix) | _ \<Rightarrow> None)"

definition parse_ip_tcp :: "protocol list \<Rightarrow> ((ip_addr \<times> u16) \<times> protocol list) option" where
  "parse_ip_tcp protos =
     (case protos of
        Ip4 ip # Tcp port # suffix \<Rightarrow> Some ((V4 ip, port), suffix)
      | Ip6 ip # Tcp port # suffix \<Rightarrow> Some ((V6 ip, port), suffix)
      | _ \<Rightarrow> None)"

datatype ip_filter = AnyIp | OnlyIp4 | OnlyIp6

definition filter_matches :: "ip_filter \<Rightarrow> ip_addr \<Rightarrow> bool" where
  "filter_matches f ip =
     (case f of AnyIp \<Rightarrow> True | OnlyIp4 \<Rightarrow> (case ip of V4 _ \<Rightarrow> True | V6 _ \<Rightarrow> False) | OnlyIp6 \<Rightarrow> (case ip of V4 _ \<Rightarrow> False | V6 _ \<Rightarrow> True))"

definition parse_dns_tcp :: "protocol list \<Rightarrow> ((ip_filter \<times> string \<times> u16) \<times> protocol list) option" where
  "parse_dns_tcp protos =
     (case protos of
        Dns name # Tcp port # suffix \<Rightarrow> Some ((AnyIp, name, port), suffix)
      | Dns4 name # Tcp port # suffix \<Rightarrow> Some ((OnlyIp4, name, port), suffix)
      | Dns6 name # Tcp port # suffix \<Rightarrow> Some ((OnlyIp6, name, port), suffix)
      | _ \<Rightarrow> None)"

definition parse_tcp :: "net_text \<Rightarrow> protocol list \<Rightarrow> ((string \<times> u16) \<times> protocol list) option" where
  "parse_tcp nt protos =
     (case protos of
        Ip4 ip # Tcp port # suffix \<Rightarrow> Some ((show_ip4 nt ip, port), suffix)
      | Ip6 ip # Tcp port # suffix \<Rightarrow> Some ((show_ip6 nt ip, port), suffix)
      | Dns name # Tcp port # suffix \<Rightarrow> Some ((name, port), suffix)
      | Dns4 name # Tcp port # suffix \<Rightarrow> Some ((name, port), suffix)
      | Dns6 name # Tcp port # suffix \<Rightarrow> Some ((name, port), suffix)
      | _ \<Rightarrow> None)"

definition parse_noise_ik :: "protocol list \<Rightarrow> (x25519_public \<times> protocol list) option" where
  "parse_noise_ik protos = (case protos of NoiseIK pubkey # suffix \<Rightarrow> Some (pubkey, suffix) | _ \<Rightarrow> None)"

definition parse_handshake :: "protocol list \<Rightarrow> u8 option" where
  "parse_handshake protos =
     (if protos = [] then None else case last protos of Handshake version \<Rightarrow> Some version | _ \<Rightarrow> None)"

text \<open>Outside of tests \<^verbatim>\<open>cfg!(test)\<close> is false, so the memory transport is not tried.\<close>

definition parse_olnet_protos :: "protocol list \<Rightarrow> protocol list option" where
  "parse_olnet_protos protos =
     Option.bind (case map_option snd (parse_ip_tcp protos) of
                    Some suffix \<Rightarrow> Some suffix
                  | None \<Rightarrow> map_option snd (parse_dns_tcp protos)) (\<lambda>transport_suffix.
     Option.bind (map_option snd (parse_noise_ik transport_suffix)) (\<lambda>auth_suffix.
     Option.bind (parse_handshake auth_suffix) (\<lambda>_. Some protos)))"

definition is_olnet_addr :: "network_address \<Rightarrow> bool" where
  "is_olnet_addr a \<longleftrightarrow> parse_olnet_protos a \<noteq> None"

text \<open>\<open>resolve\<close> looks up a host and port; it may fail.\<close>

definition to_socket_addrs ::
  "(string \<Rightarrow> u16 \<Rightarrow> 'e + (ip_addr \<times> u16) list) \<Rightarrow> network_address \<Rightarrow> 'e + (ip_addr \<times> u16) list" where
  "to_socket_addrs resolve a =
     (case parse_ip_tcp a of
        Some ((ipaddr, port), _) \<Rightarrow> Inr [(ipaddr, port)]
      | None \<Rightarrow>
         (case parse_dns_tcp a of
            Some ((ip_filter, dns_name, port), _) \<Rightarrow>
              and_then (resolve dns_name port) (\<lambda>v. Inr (filter (\<lambda>addr. filter_matches ip_filter (fst addr)) v))
          | None \<Rightarrow> Inr []))"

section \<open>Parsing what was printed\<close>

text \<open>The documented behaviour of the packages: text that was printed is read back, and no address prints a slash.\<close>

definition net_text_ok :: "net_text \<Rightarrow> bool" where
  "net_text_ok nt \<longleftrightarrow>
     (\<forall>a. parse_ip4 nt (show_ip4 nt a) = Some a \<and> CHR ''/'' \<notin> set (show_ip4 nt a)) \<and>
     (\<forall>a. parse_ip6 nt (show_ip6 nt a) = Some a \<and> CHR ''/'' \<notin> set (show_ip6 nt a)) \<and>
     (\<forall>bs. hex_decode nt (to_hex bs) = Some bs)"

definition proto_ok :: "protocol \<Rightarrow> bool" where
  "proto_ok p =
     (case p of
        Dns s \<Rightarrow> dns_validate s = Inr () | Dns4 s \<Rightarrow> dns_validate s = Inr () | Dns6 s \<Rightarrow> dns_validate s = Inr ()
      | NoiseIK k \<Rightarrow> length k = PUBLIC_KEY_SIZE | _ \<Rightarrow> True)"

definition proto_name :: "protocol \<Rightarrow> string" where
  "proto_name p =
     (case p of Ip4 _ \<Rightarrow> ''ip4'' | Ip6 _ \<Rightarrow> ''ip6'' | Dns _ \<Rightarrow> ''dns'' | Dns4 _ \<Rightarrow> ''dns4'' | Dns6 _ \<Rightarrow> ''dns6'' | Tcp _ \<Rightarrow> ''tcp''
      | Memory _ \<Rightarrow> ''memory'' | NoiseIK _ \<Rightarrow> ''noise-ik'' | Handshake _ \<Rightarrow> ''handshake'')"

definition proto_arg :: "net_text \<Rightarrow> protocol \<Rightarrow> string" where
  "proto_arg nt p =
     (case p of Ip4 a \<Rightarrow> show_ip4 nt a | Ip6 a \<Rightarrow> show_ip6 nt a | Dns s \<Rightarrow> s | Dns4 s \<Rightarrow> s | Dns6 s \<Rightarrow> s | Tcp n \<Rightarrow> show_uint n
      | Memory n \<Rightarrow> show_uint n | NoiseIK k \<Rightarrow> to_encoded_string (\<lambda>k. k) k | Handshake v \<Rightarrow> show_uint v)"

lemma show_protocol_parts: "show_protocol nt p = CHR ''/'' # proto_name p @ CHR ''/'' # proto_arg nt p"
  by (cases p) (simp_all add: show_protocol_def proto_name_def proto_arg_def)

lemma proto_name_props: "proto_name p \<noteq> []" "CHR ''/'' \<notin> set (proto_name p)"
  by (cases p; simp add: proto_name_def)+

lemma dns_no_slash: "dns_validate s = Inr () \<Longrightarrow> CHR ''/'' \<notin> set s"
  by (simp add: dns_validate_def split: if_splits)

lemma proto_arg_no_slash: "net_text_ok nt \<Longrightarrow> proto_ok p \<Longrightarrow> CHR ''/'' \<notin> set (proto_arg nt p)"
  by (cases p)
    (simp_all add: proto_arg_def proto_ok_def net_text_ok_def dns_no_slash show_uint_no to_encoded_string_def to_hex_no)

lemma protocol_parse_show:
  assumes "net_text_ok nt" and "proto_ok p"
  shows "protocol_parse nt (proto_name p) (proto_arg nt p # rest) = Inr (p, rest)"
proof (cases p)
  case (NoiseIK k)
  then have "length k = PUBLIC_KEY_SIZE" using assms(2) by (simp add: proto_ok_def)
  then have "from_encoded_string (hex_decode nt) x25519_public_try_from (to_encoded_string (\<lambda>k. k) k) = Inr k"
    using assms(1) by (intro from_to_encoded_string) (simp_all add: net_text_ok_def x25519_public_try_from_def)
  then show ?thesis using NoiseIK by (simp add: protocol_parse_def proto_name_def proto_arg_def parse_one_def)
qed (use assms in \<open>simp_all add: net_text_ok_def protocol_parse_def proto_name_def proto_arg_def parse_one_def proto_ok_def dns_from_str_def\<close>)

lemma parse_protocols_show:
  assumes "net_text_ok nt" and "list_all proto_ok ps"
  shows "parse_protocols nt (concat (map (\<lambda>p. [proto_name p, proto_arg nt p]) ps)) = Inr ps"
  using assms(2) by (induction ps) (simp_all add: proto_name_props protocol_parse_show [OF assms(1)])

lemma show_address_parts:
  "show_address nt ps = concat (map ((#) (CHR ''/'')) (concat (map (\<lambda>p. [proto_name p, proto_arg nt p]) ps)))"
  by (induction ps) (simp_all add: show_address_def show_protocol_parts)

lemma from_str_show:
  assumes "net_text_ok nt" and "list_all proto_ok ps" and "ps \<noteq> []"
  shows "address_from_str nt (show_address nt ps) = from_protocols ps"
proof -
  have "split_at (CHR ''/'') (show_address nt ps) = [] # concat (map (\<lambda>p. [proto_name p, proto_arg nt p]) ps)"
    unfolding show_address_parts
  proof (rule split_at_parts)
    fix s assume "s \<in> set (concat (map (\<lambda>p. [proto_name p, proto_arg nt p]) ps))"
    then obtain p where "p \<in> set ps" "s = proto_name p \<or> s = proto_arg nt p" by auto
    with assms show "CHR ''/'' \<notin> set s" using proto_name_props proto_arg_no_slash by (auto simp: list_all_iff)
  qed
  moreover have "show_address nt ps \<noteq> []" using assms(3) by (cases ps) (simp_all add: show_address_def show_protocol_parts)
  ultimately show ?thesis
    using parse_protocols_show [OF assms(1,2)] assms(3) by (simp add: address_from_str_def)
qed

lemma protocol_parse_ok:
  assumes "protocol_parse nt ty args = Inr (p, rest)"
  shows "proto_ok p"
proof -
  have one: "parse_one (\<lambda>s. and_then (f s) (\<lambda>x. Inr (g x))) args = Inr (p, rest) \<Longrightarrow> \<exists>s x. f s = Inr x \<and> p = g x"
    for f :: "string \<Rightarrow> address_error + 'b" and g
    by (auto simp: parse_one_def and_then_eq_Inr_iff split: list.splits)
  have dns: "dns_from_str s = Inr x \<Longrightarrow> dns_validate x = Inr ()" for s x
    by (auto simp: dns_from_str_def and_then_eq_Inr_iff)
  have key: "map_err ParseX25519PubkeyError (from_encoded_string d x25519_public_try_from s) = Inr k \<Longrightarrow> length k = PUBLIC_KEY_SIZE" for d s k
    by (auto simp: map_err_eq_Inr_iff from_encoded_string_def x25519_public_try_from_def Let_def split: option.splits if_splits)
  show ?thesis using assms unfolding protocol_parse_def
    by (auto split: if_splits dest!: one simp: proto_ok_def dns key)
qed

lemma parse_protocols_ok: "parse_protocols nt parts = Inr ps \<Longrightarrow> list_all proto_ok ps"
proof (induction nt parts arbitrary: ps rule: parse_protocols.induct)
  case (2 nt ty parts)
  then show ?case
    by (auto split: if_splits sum.splits prod.splits simp: and_then_eq_Inr_iff protocol_parse_ok)
qed simp

lemma from_protocols_id: "from_protocols ps = Inr a \<Longrightarrow> a = ps"
  by (auto simp: from_protocols_def session_and_handshake_def split: if_splits prod.splits)

text \<open>The layers in order: a network layer with or without TCP, then Noise, then the handshake; each may be missing at the end.\<close>

lemma from_protocols_cases:
  assumes "from_protocols ps = Inr a"
  obtains "a = []"
  | net rest where "a = net # rest" "is_network_layer (Some net)" "\<not> is_memory (Some net)"
      "rest = [] \<or> (\<exists>port upper. rest = Tcp port # upper \<and> (upper = [] \<or> (\<exists>k. upper = [NoiseIK k]) \<or> (\<exists>k v. upper = [NoiseIK k, Handshake v])))"
  | port upper where "a = Memory port # upper" "upper = [] \<or> (\<exists>k. upper = [NoiseIK k]) \<or> (\<exists>k v. upper = [NoiseIK k, Handshake v])"
proof -
  have upper: "upper = [] \<or> (\<exists>k. upper = [NoiseIK k]) \<or> (\<exists>k v. upper = [NoiseIK k, Handshake v])"
    if "session_and_handshake ps upper = Inr a" for upper
    using that by (cases upper; cases "tl upper"; cases "tl (tl upper)")
      (auto simp: session_and_handshake_def is_session_layer_def is_handshake_layer_def split: protocol.splits if_splits)
  have a: "a = ps" by (rule from_protocols_id [OF assms])
  show thesis
  proof (cases ps)
    case Nil
    with a that(1) show ?thesis by simp
  next
    case (Cons net rest)
    show ?thesis
    proof (cases "is_memory (Some net)")
      case True
      then obtain port where "net = Memory port" by (auto simp: is_memory_def split: protocol.splits)
      with Cons assms that(3) [of port rest] upper [of rest] a show ?thesis
        by (simp add: from_protocols_def is_network_layer_def is_memory_def)
    next
      case False
      with Cons assms have "is_network_layer (Some net)" by (auto simp: from_protocols_def split: if_splits)
      moreover have "rest = [] \<or> (\<exists>port upper. rest = Tcp port # upper \<and> session_and_handshake ps upper = Inr a)"
        using Cons assms False by (cases rest)
          (auto simp: from_protocols_def is_transport_layer_def split: if_splits protocol.splits)
      ultimately show ?thesis using that(2) [of net rest] Cons a False upper by blast
    qed
  qed
qed

text \<open>
  C38. Whatever text a network address was parsed from, printing the address gives text that parses to the same
  address, and the same holds for its serialised forms. What parsing accepts is not empty, has valid DNS names and keys,
  and has its layers in order, so building it again from its protocols succeeds.
\<close>
theorem network_address_roundtrip:
  assumes "net_text_ok nt" and "from_bytes (to_bytes a) = Some a" and "address_from_str nt s = Inr a"
  shows "address_from_str nt (show_address nt a) = Inr a
    \<and> deserialize_address nt from_bytes (serialize_address nt to_bytes human_readable a) = Inr a
    \<and> a \<noteq> [] \<and> list_all proto_ok a \<and> from_protocols a = Inr a"
proof -
  obtain ps where "from_protocols ps = Inr a" "ps \<noteq> []" "list_all proto_ok ps"
    using assms(3)
    by (auto simp: address_from_str_def and_then_eq_Inr_iff parse_protocols_ok split: if_splits list.splits)
  then have a: "a \<noteq> []" "list_all proto_ok a" "from_protocols a = Inr a" using from_protocols_id by metis+
  with from_str_show [OF assms(1) a(2,1)] assms(2) show ?thesis
    by (simp add: serialize_address_def deserialize_address_def address_try_from_def)
qed

text \<open>
  C39. Of the addresses that \<^verbatim>\<open>from_protocols\<close> accepts, exactly the complete ones are 0LNet addresses: an IP or DNS
  protocol, TCP, Noise and a handshake. But the check looks only at the first three protocols and at the last one, so it
  also accepts a complete address to which production protocols are appended again, which \<^verbatim>\<open>from_protocols\<close> rejects.
\<close>
theorem is_olnet_addr_iff:
  assumes "from_protocols ps = Inr a"
  shows "(is_olnet_addr a \<longleftrightarrow> length a = 4)
    \<and> (is_olnet_addr (append_prod_protos a k v) \<longleftrightarrow> 2 \<le> length a \<and> \<not> is_memory (Some (hd a)))
    \<and> (from_protocols (append_prod_protos a k v) = Inr (append_prod_protos a k v)
         \<longleftrightarrow> length a = 2 \<and> \<not> is_memory (Some (hd a)) \<or> length a = 1 \<and> is_memory (Some (hd a)))"
  using assms
proof (cases rule: from_protocols_cases)
  case (2 net rest)
  then show ?thesis
    by (cases net)
      (auto simp: is_olnet_addr_def parse_olnet_protos_def append_prod_protos_def parse_ip_tcp_def parse_dns_tcp_def
        parse_noise_ik_def parse_handshake_def is_memory_def is_network_layer_def from_protocols_def is_transport_layer_def
        session_and_handshake_def is_session_layer_def is_handshake_layer_def)
next
  case (3 port upper)
  then show ?thesis
    by (auto simp: is_olnet_addr_def parse_olnet_protos_def append_prod_protos_def parse_ip_tcp_def parse_dns_tcp_def
        is_memory_def is_network_layer_def from_protocols_def
        session_and_handshake_def is_session_layer_def is_handshake_layer_def)
qed (simp add: is_olnet_addr_def parse_olnet_protos_def append_prod_protos_def parse_ip_tcp_def parse_dns_tcp_def
    from_protocols_def is_network_layer_def)

section \<open>Examples\<close>

text \<open>Addresses printed as plain numbers.\<close>

definition plain_text :: net_text where
  "plain_text = \<lparr>show_ip4 = show_uint, parse_ip4 = parse_uint, show_ip6 = show_uint, parse_ip6 = parse_uint, hex_decode = unhex\<rparr>"

lemma plain_text_ok: "net_text_ok plain_text"
  by (simp add: net_text_ok_def plain_text_def unhex_to_hex show_uint_no)

definition example_address :: network_address where
  "example_address = [Dns ''a.io'', Tcp 6180, NoiseIK (replicate 32 7), Handshake 1]"

lemma example_parsed: "address_from_str plain_text (show_address plain_text example_address) = Inr example_address"
proof -
  have "list_all proto_ok example_address" by code_simp
  moreover have "from_protocols example_address = Inr example_address" by code_simp
  ultimately show ?thesis using from_str_show [OF plain_text_ok, of example_address] by (simp add: example_address_def)
qed

theorem network_address_roundtrip_witness:
  "net_text_ok plain_text \<and> address_from_str plain_text (show_address plain_text example_address) = Inr example_address
   \<and> take 10 (show_address plain_text example_address) = ''/dns/a.io/''
   \<and> deserialize_address plain_text (\<lambda>_. Some example_address) (serialize_address plain_text (\<lambda>_. []) True example_address)
       = Inr example_address"
  using network_address_roundtrip [OF plain_text_ok _ example_parsed, of "\<lambda>_. Some example_address" "\<lambda>_. []" True]
    plain_text_ok example_parsed
  by (simp add: show_address_def show_protocol_def example_address_def)

theorem is_olnet_addr_iff_witness:
  "from_protocols example_address = Inr example_address \<and> is_olnet_addr example_address
   \<and> is_olnet_addr (append_prod_protos example_address [] 2)
   \<and> from_protocols (append_prod_protos example_address [] 2) \<noteq> Inr (append_prod_protos example_address [] 2)"
proof -
  have h: "from_protocols example_address = Inr example_address" by code_simp
  show ?thesis using is_olnet_addr_iff [OF h, of "[]" 2] h by (simp add: example_address_def is_memory_def)
qed

end
