(* ===== verification/Noise.thy ===== *)
theory Noise
  imports CryptoKeys
begin

text \<open>
  The secure channel between nodes (\<^verbatim>\<open>crates/ol-crypto/src/noise.rs\<close>): the two messages of the Noise IK handshake, seen
  from both sides, and the sessions they end in, which encrypt messages with counting nonces. SHA-256, HKDF, AES-GCM and
  X25519 are arguments. The random numbers used for ephemeral keys are replaced by the ephemeral key itself.
\<close>

section \<open>Constants, errors and primitives\<close>

definition MAX_SIZE_NOISE_MSG :: nat where
  "MAX_SIZE_NOISE_MSG = 65535"

definition AES_GCM_TAGLEN :: nat where
  "AES_GCM_TAGLEN = 16"

definition PROTOCOL_NAME :: bytes where
  "PROTOCOL_NAME = map (\<lambda>c. word_of_nat (of_char c)) ''Noise_IK_25519_AESGCM_SHA256'' @ [0, 0, 0, 0]"

definition AES_NONCE_SIZE :: nat where
  "AES_NONCE_SIZE = 12"

definition encrypted_len :: "nat \<Rightarrow> nat" where
  "encrypted_len plaintext_len = plaintext_len + AES_GCM_TAGLEN"

definition decrypted_len :: "nat \<Rightarrow> nat outcome" where
  "decrypted_len ciphertext_len = usize_sub ciphertext_len AES_GCM_TAGLEN"

definition handshake_init_msg_len :: "nat \<Rightarrow> nat" where
  "handshake_init_msg_len payload_len = PUBLIC_KEY_SIZE + encrypted_len PUBLIC_KEY_SIZE + encrypted_len payload_len"

definition handshake_resp_msg_len :: "nat \<Rightarrow> nat" where
  "handshake_resp_msg_len payload_len = PUBLIC_KEY_SIZE + encrypted_len payload_len"

datatype noise_error =
  MsgTooShort | Hkdf | Encrypt | Decrypt | WrongPublicKeyReceived | SessionClosed | PayloadTooLarge | ReceivedMsgTooLarge
| ResponseBufferTooSmall | NonceOverflow

text \<open>
  The primitives. Sealing takes a key, a nonce, associated data and a plaintext to the ciphertext and the tag; opening
  takes the ciphertext followed by the tag.
\<close>

record 'sk noise_crypto =
  sha256 :: "bytes \<Rightarrow> bytes"
  hkdf_pkg :: hkdf_package
  aead_seal :: "bytes \<Rightarrow> bytes \<Rightarrow> bytes \<Rightarrow> bytes \<Rightarrow> (bytes \<times> bytes) option"
  aead_open :: "bytes \<Rightarrow> bytes \<Rightarrow> bytes \<Rightarrow> bytes \<Rightarrow> bytes option"
  x_public :: "'sk \<Rightarrow> x25519_public"
  x_dh :: "'sk \<Rightarrow> x25519_public \<Rightarrow> bytes"

definition aes_key :: "bytes \<Rightarrow> bytes outcome" where
  "aes_key key = assert_that (length key = 32) key"

definition noise_hkdf :: "'sk noise_crypto \<Rightarrow> bytes \<Rightarrow> bytes option \<Rightarrow> (noise_error + bytes \<times> bytes) outcome" where
  "noise_hkdf nc ck dh_output =
     (let dh_output = (case dh_output of None \<Rightarrow> [] | Some d \<Rightarrow> d);
          hkdf_output = (if dh_output = [] then extract_then_expand_no_ikm (hkdf_pkg nc) (Some ck) None 64
                         else extract_then_expand (hkdf_pkg nc) (Some ck) dh_output None 64) in
      case hkdf_output of
        Inl _ \<Rightarrow> Ret (Inl Hkdf)
      | Inr okm \<Rightarrow> if 32 \<le> length okm then Ret (Inr (take 32 okm, drop 32 okm)) else Panic)"

definition mix_hash :: "'sk noise_crypto \<Rightarrow> bytes \<Rightarrow> bytes \<Rightarrow> bytes" where
  "mix_hash nc h data = sha256 nc (h @ data)"

text \<open>The new chaining key and the derived key.\<close>

definition mix_key :: "'sk noise_crypto \<Rightarrow> bytes \<Rightarrow> bytes \<Rightarrow> (noise_error + bytes \<times> bytes) outcome" where
  "mix_key nc ck dh_output = noise_hkdf nc ck (Some dh_output)"

definition zero_nonce :: bytes where
  "zero_nonce = replicate AES_NONCE_SIZE 0"

definition seal_append_tag :: "'sk noise_crypto \<Rightarrow> bytes \<Rightarrow> bytes \<Rightarrow> bytes \<Rightarrow> (noise_error + bytes) outcome" where
  "seal_append_tag nc key aad in_out =
     out_bind (aes_key key) (\<lambda>k.
       Ret (case aead_seal nc k zero_nonce aad in_out of None \<Rightarrow> Inl Encrypt | Some (c, t) \<Rightarrow> Inr (c @ t)))"

definition open_in_place :: "'sk noise_crypto \<Rightarrow> bytes \<Rightarrow> bytes \<Rightarrow> bytes \<Rightarrow> (noise_error + bytes) outcome" where
  "open_in_place nc key aad in_out =
     out_bind (aes_key key) (\<lambda>k. Ret (ok_or Decrypt (aead_open nc k zero_nonce aad in_out)))"

text \<open>Writing into a fixed buffer at a cursor, and reading exactly so many bytes.\<close>

definition cursor_write :: "bytes \<times> nat \<Rightarrow> bytes \<Rightarrow> bytes \<times> nat" where
  "cursor_write cursor data =
     (case cursor of (buf, pos) \<Rightarrow>
        let n = min (length data) (length buf - pos) in (take pos buf @ take n data @ drop (pos + n) buf, pos + n))"

definition read_exact :: "nat \<Rightarrow> bytes \<Rightarrow> noise_error + bytes \<times> bytes" where
  "read_exact n message = (if n \<le> length message then Inr (take n message, drop n message) else Inl MsgTooShort)"

section \<open>Handshake\<close>

record 'sk noise_config =
  private_key :: 'sk
  public_key :: x25519_public

record 'sk initiator_state =
  is_h :: bytes
  is_ck :: bytes
  is_e :: 'sk
  is_rs :: x25519_public

record responder_state =
  rs_h :: bytes
  rs_ck :: bytes
  rs_rs :: x25519_public
  rs_re :: x25519_public

record noise_session =
  valid :: bool
  remote_public_key :: x25519_public
  write_key :: bytes
  write_nonce :: u64
  read_key :: bytes
  read_nonce :: u64

definition noise_config_new :: "'sk noise_crypto \<Rightarrow> 'sk \<Rightarrow> 'sk noise_config" where
  "noise_config_new nc sk = \<lparr>private_key = sk, public_key = x_public nc sk\<rparr>"

definition session_new :: "bytes \<Rightarrow> bytes \<Rightarrow> x25519_public \<Rightarrow> noise_session" where
  "session_new wk rk remote =
     \<lparr>valid = True, remote_public_key = remote, write_key = wk, write_nonce = 0, read_key = rk, read_nonce = 0\<rparr>"

definition get_remote_static :: "noise_session \<Rightarrow> x25519_public" where
  "get_remote_static s = remote_public_key s"

text \<open>
  The first message, written into the caller's buffer. The result carries the buffer when the call succeeds; what is left in
  it after an error is not part of the model.
\<close>

definition initiate_connection ::
  "'sk noise_crypto \<Rightarrow> 'sk noise_config \<Rightarrow> 'sk \<Rightarrow> bytes \<Rightarrow> x25519_public \<Rightarrow> bytes option \<Rightarrow> bytes
     \<Rightarrow> (noise_error + 'sk initiator_state \<times> bytes) outcome" where
  "initiate_connection nc cfg e prologue remote_public payload response_buffer =
     (let payload_len = (case payload of None \<Rightarrow> 0 | Some p \<Rightarrow> length p);
          buffer_size_required = handshake_init_msg_len payload_len in
      if buffer_size_required > MAX_SIZE_NOISE_MSG then Ret (Inl PayloadTooLarge)
      else if length response_buffer < buffer_size_required then Ret (Inl ResponseBufferTooSmall)
      else
        let rs = remote_public;
            h = mix_hash nc (mix_hash nc PROTOCOL_NAME prologue) rs;
            e_pub = x_public nc e;
            h = mix_hash nc h e_pub;
            buf = cursor_write (response_buffer, 0) e_pub in
        out_try (mix_key nc PROTOCOL_NAME (x_dh nc e rs)) (\<lambda>(ck, k).
        out_try (seal_append_tag nc k h (public_key cfg)) (\<lambda>in_out.
        let h = mix_hash nc h in_out;
            buf = cursor_write buf in_out in
        out_try (mix_key nc ck (x_dh nc (private_key cfg) rs)) (\<lambda>(ck, k).
        out_try (seal_append_tag nc k h (case payload of None \<Rightarrow> [] | Some p \<Rightarrow> p)) (\<lambda>in_out.
        let h = mix_hash nc h in_out;
            buf = cursor_write buf in_out in
        Ret (Inr (\<lparr>is_h = h, is_ck = ck, is_e = e, is_rs = rs\<rparr>, fst buf)))))))"

text \<open>The initiator reads the answer.\<close>

definition finalize_connection ::
  "'sk noise_crypto \<Rightarrow> 'sk noise_config \<Rightarrow> 'sk initiator_state \<Rightarrow> bytes \<Rightarrow> (noise_error + bytes \<times> noise_session) outcome" where
  "finalize_connection nc cfg st received_message =
     (if length received_message > MAX_SIZE_NOISE_MSG then Ret (Inl ReceivedMsgTooLarge)
      else
        out_try (Ret (read_exact PUBLIC_KEY_SIZE received_message)) (\<lambda>(re, rest).
        let h = mix_hash nc (is_h st) re in
        out_try (mix_key nc (is_ck st) (x_dh nc (is_e st) re)) (\<lambda>(ck, _).
        out_try (mix_key nc ck (x_dh nc (private_key cfg) re)) (\<lambda>(ck, k).
        out_try (open_in_place nc k h rest) (\<lambda>plaintext.
        out_try (noise_hkdf nc ck None) (\<lambda>(k1, k2).
        Ret (Inr (plaintext, session_new k1 k2 (is_rs st)))))))))"

text \<open>The responder reads the first message.\<close>

definition parse_client_init_message ::
  "'sk noise_crypto \<Rightarrow> 'sk noise_config \<Rightarrow> bytes \<Rightarrow> bytes \<Rightarrow> (noise_error + x25519_public \<times> responder_state \<times> bytes) outcome" where
  "parse_client_init_message nc cfg prologue received_message =
     (if length received_message > MAX_SIZE_NOISE_MSG then Ret (Inl ReceivedMsgTooLarge)
      else
        let h = mix_hash nc (mix_hash nc PROTOCOL_NAME prologue) (public_key cfg) in
        out_try (Ret (read_exact PUBLIC_KEY_SIZE received_message)) (\<lambda>(re, rest).
        let h = mix_hash nc h re in
        out_try (mix_key nc PROTOCOL_NAME (x_dh nc (private_key cfg) re)) (\<lambda>(ck, k).
        out_try (Ret (read_exact (PUBLIC_KEY_SIZE + AES_GCM_TAGLEN) rest)) (\<lambda>(encrypted_remote_static, rest).
        out_try (open_in_place nc k h encrypted_remote_static) (\<lambda>rs.
        out_try (Ret (map_err (\<lambda>_. WrongPublicKeyReceived) (x25519_public_try_from rs))) (\<lambda>rs.
        let h = mix_hash nc h encrypted_remote_static in
        out_try (mix_key nc ck (x_dh nc (private_key cfg) rs)) (\<lambda>(ck, k).
        out_try (open_in_place nc k h rest) (\<lambda>received_payload.
        let h = mix_hash nc h rest in
        Ret (Inr (rs, \<lparr>rs_h = h, rs_ck = ck, rs_rs = rs, rs_re = re\<rparr>, received_payload))))))))))"

text \<open>The second message.\<close>

definition respond_to_client ::
  "'sk noise_crypto \<Rightarrow> 'sk \<Rightarrow> responder_state \<Rightarrow> bytes option \<Rightarrow> bytes \<Rightarrow> (noise_error + noise_session \<times> bytes) outcome" where
  "respond_to_client nc e st payload response_buffer =
     (let payload_len = (case payload of None \<Rightarrow> 0 | Some p \<Rightarrow> length p);
          buffer_size_required = handshake_resp_msg_len payload_len in
      if buffer_size_required > MAX_SIZE_NOISE_MSG then Ret (Inl PayloadTooLarge)
      else if length response_buffer < buffer_size_required then Ret (Inl ResponseBufferTooSmall)
      else
        let e_pub = x_public nc e;
            h = mix_hash nc (rs_h st) e_pub;
            buf = cursor_write (response_buffer, 0) e_pub in
        out_try (mix_key nc (rs_ck st) (x_dh nc e (rs_re st))) (\<lambda>(ck, _).
        out_try (mix_key nc ck (x_dh nc e (rs_rs st))) (\<lambda>(ck, k).
        out_try (seal_append_tag nc k h (case payload of None \<Rightarrow> [] | Some p \<Rightarrow> p)) (\<lambda>in_out.
        let buf = cursor_write buf in_out in
        out_try (noise_hkdf nc ck None) (\<lambda>(k1, k2).
        Ret (Inr (session_new k2 k1 (rs_rs st), fst buf)))))))"

definition respond_to_client_and_finalize ::
  "'sk noise_crypto \<Rightarrow> 'sk noise_config \<Rightarrow> 'sk \<Rightarrow> bytes \<Rightarrow> bytes \<Rightarrow> bytes option \<Rightarrow> bytes
     \<Rightarrow> (noise_error + bytes \<times> noise_session \<times> bytes) outcome" where
  "respond_to_client_and_finalize nc cfg e prologue received_message payload response_buffer =
     out_try (parse_client_init_message nc cfg prologue received_message) (\<lambda>(_, st, received_payload).
     out_try (respond_to_client nc e st payload response_buffer) (\<lambda>(session, buf).
     Ret (Inr (received_payload, session, buf))))"

section \<open>Sessions\<close>

definition be_bytes :: "u64 \<Rightarrow> bytes" where
  "be_bytes n = rev (le_encode 8 (unat n))"

definition session_nonce :: "u64 \<Rightarrow> bytes outcome" where
  "session_nonce n = (let nonce = replicate 4 0 @ be_bytes n in assert_that (length nonce = 12) nonce)"

text \<open>Encrypts in place: the result is the tag, with the session and the message afterwards.\<close>

definition write_message_in_place ::
  "'sk noise_crypto \<Rightarrow> noise_session \<Rightarrow> bytes \<Rightarrow> ((noise_error + bytes) \<times> noise_session \<times> bytes) outcome" where
  "write_message_in_place nc s message =
     (if \<not> valid s then Ret (Inl SessionClosed, s, message)
      else if length message > MAX_SIZE_NOISE_MSG - AES_GCM_TAGLEN then Ret (Inl PayloadTooLarge, s, message)
      else out_bind (aes_key (write_key s)) (\<lambda>key. out_bind (session_nonce (write_nonce s)) (\<lambda>nonce.
        case aead_seal nc key nonce [] message of
          None \<Rightarrow> Ret (Inl Encrypt, s, message)
        | Some (c, tag) \<Rightarrow>
            if write_nonce s = - 1 then Ret (Inl NonceOverflow, s, c)
            else Ret (Inr tag, s\<lparr>write_nonce := write_nonce s + 1\<rparr>, c))))"

text \<open>Decrypts in place: the result is the plaintext, with the session afterwards.\<close>

definition read_message_in_place ::
  "'sk noise_crypto \<Rightarrow> noise_session \<Rightarrow> bytes \<Rightarrow> ((noise_error + bytes) \<times> noise_session) outcome" where
  "read_message_in_place nc s message =
     (if \<not> valid s then Ret (Inl SessionClosed, s)
      else if length message > MAX_SIZE_NOISE_MSG then Ret (Inl ReceivedMsgTooLarge, s\<lparr>valid := False\<rparr>)
      else if length message < AES_GCM_TAGLEN then Ret (Inl ResponseBufferTooSmall, s\<lparr>valid := False\<rparr>)
      else out_bind (aes_key (read_key s)) (\<lambda>key. out_bind (session_nonce (read_nonce s)) (\<lambda>nonce.
        case aead_open nc key nonce [] message of
          None \<Rightarrow> Ret (Inl Decrypt, s\<lparr>valid := False\<rparr>)
        | Some plaintext \<Rightarrow>
            if read_nonce s = - 1 then Ret (Inl NonceOverflow, s)
            else Ret (Inr plaintext, s\<lparr>read_nonce := read_nonce s + 1\<rparr>))))"

section \<open>What is documented of the primitives\<close>

text \<open>
  Both sides of a Diffie-Hellman exchange compute the same 32 bytes, public keys have 32 bytes, sealing a message of
  admissible length under a key of 32 bytes gives a ciphertext as long as the message and a tag of 16 bytes that open to
  the message, and HKDF expands every extracted key to 64 bytes.
\<close>

definition dh_laws :: "'sk noise_crypto \<Rightarrow> bool" where
  "dh_laws nc \<longleftrightarrow>
     (\<forall>a b. x_dh nc a (x_public nc b) = x_dh nc b (x_public nc a)) \<and>
     (\<forall>a p. length (x_dh nc a p) = SHARED_SECRET_SIZE) \<and> (\<forall>a. length (x_public nc a) = PUBLIC_KEY_SIZE)"

definition aead_laws :: "'sk noise_crypto \<Rightarrow> bool" where
  "aead_laws nc \<longleftrightarrow>
     (\<forall>k n aad m. length k = 32 \<longrightarrow> length n = AES_NONCE_SIZE \<longrightarrow> length m \<le> MAX_SIZE_NOISE_MSG \<longrightarrow>
        (\<exists>c t. aead_seal nc k n aad m = Some (c, t) \<and> length c = length m \<and> length t = AES_GCM_TAGLEN \<and>
               aead_open nc k n aad (c @ t) = Some m))"

definition hkdf_laws :: "'sk noise_crypto \<Rightarrow> bool" where
  "hkdf_laws nc \<longleftrightarrow>
     (\<forall>salt ikm. hk_prk_ok (hkdf_pkg nc) (hk_extract (hkdf_pkg nc) salt ikm)) \<and>
     (\<forall>prk info. hk_prk_ok (hkdf_pkg nc) prk \<longrightarrow> (\<exists>okm. hk_expand (hkdf_pkg nc) prk info 64 = Some okm \<and> length okm = 64))"

named_theorems noise_sizes \<open>the constants of the protocol\<close>

lemmas [noise_sizes] = MAX_SIZE_NOISE_MSG_def AES_GCM_TAGLEN_def AES_NONCE_SIZE_def PUBLIC_KEY_SIZE_def
  SHARED_SECRET_SIZE_def handshake_init_msg_len_def handshake_resp_msg_len_def encrypted_len_def

lemma noise_hkdf_ok:
  assumes "hkdf_laws nc" and "\<And>d. dh = Some d \<Longrightarrow> length d = SHARED_SECRET_SIZE"
  obtains k1 k2 where "noise_hkdf nc ck dh = Ret (Inr (k1, k2))" and "length k1 = 32" and "length k2 = 32"
proof -
  have expand: "\<exists>okm. hkdf_expand (hkdf_pkg nc) (hk_extract (hkdf_pkg nc) (Some ck) ikm) None 64 = Inr okm \<and> length okm = 64"
    for ikm
  proof -
    have "hk_prk_ok (hkdf_pkg nc) (hk_extract (hkdf_pkg nc) (Some ck) ikm)" using assms(1) by (simp add: hkdf_laws_def)
    then obtain okm where "hk_expand (hkdf_pkg nc) (hk_extract (hkdf_pkg nc) (Some ck) ikm) [] 64 = Some okm" "length okm = 64"
      using assms(1) unfolding hkdf_laws_def by blast
    with \<open>hk_prk_ok _ _\<close> show ?thesis by (simp add: hkdf_expand_def ok_or_def)
  qed
  have "\<exists>k1 k2. noise_hkdf nc ck dh = Ret (Inr (k1, k2)) \<and> length k1 = 32 \<and> length k2 = 32"
  proof (cases dh)
    case None
    with expand [of "[]"] show ?thesis
      by (auto simp: noise_hkdf_def extract_then_expand_no_ikm_def extract_no_ikm_check_def Let_def)
  next
    case (Some d)
    with assms(2) have "length d = 32" by (simp add: noise_sizes)
    then have "d \<noteq> []" and "\<not> length d < 16" by auto
    with Some expand [of d] show ?thesis
      by (auto simp: noise_hkdf_def extract_then_expand_def hkdf_extract_def extract_no_ikm_check_def MINIMUM_SEED_LENGTH_def Let_def)
  qed
  then show ?thesis using that by blast
qed

lemma mix_key_ok:
  assumes "hkdf_laws nc" and "dh_laws nc"
  obtains ck' k where "mix_key nc ck (x_dh nc a p) = Ret (Inr (ck', k))" and "length k = 32"
proof -
  have "length (x_dh nc a p) = SHARED_SECRET_SIZE" using assms(2) by (simp add: dh_laws_def)
  then show ?thesis
    using noise_hkdf_ok [OF assms(1), of "Some (x_dh nc a p)" ck] that by (auto simp: mix_key_def)
qed

lemma seal_open_ok:
  assumes "aead_laws nc" and "length k = 32" and "length m \<le> MAX_SIZE_NOISE_MSG"
  obtains w where "seal_append_tag nc k h m = Ret (Inr w)" and "length w = encrypted_len (length m)"
    and "open_in_place nc k h w = Ret (Inr m)"
proof -
  have "length zero_nonce = AES_NONCE_SIZE" by (simp add: zero_nonce_def)
  then obtain c t where "aead_seal nc k zero_nonce h m = Some (c, t)" "length c = length m" "length t = AES_GCM_TAGLEN"
      "aead_open nc k zero_nonce h (c @ t) = Some m"
    using assms unfolding aead_laws_def by blast
  with assms(2) show ?thesis
    by (intro that [of "c @ t"])
      (simp_all add: seal_append_tag_def open_in_place_def aes_key_def assert_that_def encrypted_len_def ok_or_def)
qed

lemma cursor_write_fits:
  assumes "length data \<le> length rest"
  shows "cursor_write (pre @ rest, length pre) data = (pre @ data @ drop (length data) rest, length (pre @ data))"
  using assms by (simp add: cursor_write_def min_def Let_def)

lemma cursor_write_start:
  "length data \<le> length buf \<Longrightarrow> cursor_write (buf, 0) data = (data @ drop (length data) buf, length data)"
  using cursor_write_fits [of data buf "[]"] by simp

section \<open>The handshake agrees\<close>

abbreviation payload_of :: "bytes option \<Rightarrow> bytes" where
  "payload_of p \<equiv> (case p of None \<Rightarrow> [] | Some m \<Rightarrow> m)"

abbreviation payload_len :: "bytes option \<Rightarrow> nat" where
  "payload_len p \<equiv> (case p of None \<Rightarrow> 0 | Some m \<Rightarrow> length m)"

lemma payload_len_of: "payload_len p = length (payload_of p)"
  by (cases p) simp_all

text \<open>The states of the two sides after the first message.\<close>

definition linked :: "'sk noise_crypto \<Rightarrow> 'sk \<Rightarrow> 'sk \<Rightarrow> 'sk \<Rightarrow> 'sk initiator_state \<Rightarrow> responder_state \<Rightarrow> bool" where
  "linked nc a b e ist rst \<longleftrightarrow>
     is_h ist = rs_h rst \<and> is_ck ist = rs_ck rst \<and> is_e ist = e \<and> is_rs ist = x_public nc b \<and>
     rs_rs rst = x_public nc a \<and> rs_re rst = x_public nc e"

lemma first_message:
  assumes laws: "dh_laws nc" "aead_laws nc" "hkdf_laws nc"
    and size: "handshake_init_msg_len (payload_len p) \<le> MAX_SIZE_NOISE_MSG"
      "handshake_init_msg_len (payload_len p) \<le> length buf"
  obtains ist out rst where
    "initiate_connection nc (noise_config_new nc a) e prologue (x_public nc b) p buf = Ret (Inr (ist, out))"
    and "parse_client_init_message nc (noise_config_new nc b) prologue (take (handshake_init_msg_len (payload_len p)) out)
         = Ret (Inr (x_public nc a, rst, payload_of p))"
    and "linked nc a b e ist rst"
proof -
  let ?E = "x_public nc e" and ?A = "x_public nc a" and ?B = "x_public nc b"
  have pub: "length (x_public nc x) = 32" for x using laws(1) by (simp add: dh_laws_def PUBLIC_KEY_SIZE_def)
  have dh: "x_dh nc b ?E = x_dh nc e ?B" "x_dh nc b ?A = x_dh nc a ?B" using laws(1) by (auto simp: dh_laws_def)
  define h0 where "h0 = mix_hash nc (mix_hash nc (mix_hash nc PROTOCOL_NAME prologue) ?B) ?E"
  obtain ck1 k1 where k1: "mix_key nc PROTOCOL_NAME (x_dh nc e ?B) = Ret (Inr (ck1, k1))" "length k1 = 32"
    by (rule mix_key_ok [OF laws(3) laws(1)])
  have "length ?A \<le> MAX_SIZE_NOISE_MSG" by (simp add: pub noise_sizes)
  then obtain w1 where w1: "seal_append_tag nc k1 h0 ?A = Ret (Inr w1)" "length w1 = encrypted_len (length ?A)"
      "open_in_place nc k1 h0 w1 = Ret (Inr ?A)"
    by (rule seal_open_ok [OF laws(2) k1(2)])
  define h1 where "h1 = mix_hash nc h0 w1"
  obtain ck2 k2 where k2: "mix_key nc ck1 (x_dh nc a ?B) = Ret (Inr (ck2, k2))" "length k2 = 32"
    by (rule mix_key_ok [OF laws(3) laws(1)])
  have "length (payload_of p) \<le> MAX_SIZE_NOISE_MSG" using size(1) by (simp add: payload_len_of noise_sizes)
  then obtain w2 where w2: "seal_append_tag nc k2 h1 (payload_of p) = Ret (Inr w2)"
      "length w2 = encrypted_len (length (payload_of p))" "open_in_place nc k2 h1 w2 = Ret (Inr (payload_of p))"
    by (rule seal_open_ok [OF laws(2) k2(2)])
  define msg where "msg = ?E @ w1 @ w2"
  have len: "handshake_init_msg_len (payload_len p) = length msg" "length ?E = 32" "length w1 = 48"
    using w1(2) w2(2) by (simp_all add: msg_def pub payload_len_of noise_sizes)
  define b1 where "b1 = drop 32 buf"
  define b2 where "b2 = drop 48 b1"
  have fits: "length ?E \<le> length buf" "length w1 \<le> length b1" "length w2 \<le> length b2"
    using size(2) len by (simp_all add: b1_def b2_def msg_def)
  have buf: "cursor_write (buf, 0) ?E = (?E @ b1, length ?E)"
      "cursor_write (?E @ b1, length ?E) w1 = ((?E @ w1) @ b2, length (?E @ w1))"
      "cursor_write ((?E @ w1) @ b2, length (?E @ w1)) w2 = ((?E @ w1) @ w2 @ drop (length w2) b2, length ((?E @ w1) @ w2))"
    using cursor_write_start [OF fits(1)] cursor_write_fits [OF fits(2), of ?E] cursor_write_fits [OF fits(3), of "?E @ w1"] len
    by (simp_all add: b1_def b2_def)
  have init: "initiate_connection nc (noise_config_new nc a) e prologue ?B p buf
      = Ret (Inr (\<lparr>is_h = mix_hash nc h1 w2, is_ck = ck2, is_e = e, is_rs = ?B\<rparr>, msg @ drop (length w2) b2))"
    using size k1(1) w1(1) k2(1) w2(1) buf
    by (simp add: initiate_connection_def noise_config_new_def Let_def msg_def flip: h0_def h1_def)
  have parse: "parse_client_init_message nc (noise_config_new nc b) prologue msg
      = Ret (Inr (?A, \<lparr>rs_h = mix_hash nc h1 w2, rs_ck = ck2, rs_rs = ?A, rs_re = ?E\<rparr>, payload_of p))"
    using size(1) len k1(1) w1(3) k2(1) w2(3)
    by (simp add: parse_client_init_message_def noise_config_new_def Let_def msg_def read_exact_def dh pub
        x25519_public_try_from_def map_err_def PUBLIC_KEY_SIZE_def AES_GCM_TAGLEN_def flip: h0_def h1_def)
  show ?thesis
    by (rule that [OF init, of "\<lparr>rs_h = mix_hash nc h1 w2, rs_ck = ck2, rs_rs = ?A, rs_re = ?E\<rparr>"])
      (simp_all add: len(1) parse linked_def)
qed

text \<open>Two sessions with each other's keys, each ready for what the other sends next.\<close>

definition sessions_match :: "noise_session \<Rightarrow> noise_session \<Rightarrow> bool" where
  "sessions_match s t \<longleftrightarrow>
     valid s \<and> valid t \<and> length (write_key s) = 32 \<and> length (read_key s) = 32 \<and>
     write_key s = read_key t \<and> read_key s = write_key t \<and>
     write_nonce s = read_nonce t \<and> read_nonce s = write_nonce t"

lemma second_message:
  assumes laws: "dh_laws nc" "aead_laws nc" "hkdf_laws nc"
    and size: "handshake_resp_msg_len (payload_len p) \<le> MAX_SIZE_NOISE_MSG"
      "handshake_resp_msg_len (payload_len p) \<le> length buf"
    and linked: "linked nc a b e ist rst"
  obtains t out s where
    "respond_to_client nc f rst p buf = Ret (Inr (t, out))"
    and "finalize_connection nc (noise_config_new nc a) ist (take (handshake_resp_msg_len (payload_len p)) out)
         = Ret (Inr (payload_of p, s))"
    and "sessions_match s t" and "write_nonce s = 0" and "read_nonce s = 0"
    and "get_remote_static s = x_public nc b" and "get_remote_static t = x_public nc a"
proof -
  let ?F = "x_public nc f"
  have pub: "length ?F = 32" using laws(1) by (simp add: dh_laws_def PUBLIC_KEY_SIZE_def)
  have dh: "x_dh nc e ?F = x_dh nc f (rs_re rst)" "x_dh nc a ?F = x_dh nc f (rs_rs rst)"
    using laws(1) linked by (auto simp: dh_laws_def linked_def)
  define h where "h = mix_hash nc (rs_h rst) ?F"
  obtain ck1 k1 where k1: "mix_key nc (rs_ck rst) (x_dh nc f (rs_re rst)) = Ret (Inr (ck1, k1))"
    by (rule mix_key_ok [OF laws(3) laws(1)])
  obtain ck2 k2 where k2: "mix_key nc ck1 (x_dh nc f (rs_rs rst)) = Ret (Inr (ck2, k2))" "length k2 = 32"
    by (rule mix_key_ok [OF laws(3) laws(1)])
  have "length (payload_of p) \<le> MAX_SIZE_NOISE_MSG" using size(1) by (simp add: payload_len_of noise_sizes)
  then obtain w where w: "seal_append_tag nc k2 h (payload_of p) = Ret (Inr w)"
      "length w = encrypted_len (length (payload_of p))" "open_in_place nc k2 h w = Ret (Inr (payload_of p))"
    by (rule seal_open_ok [OF laws(2) k2(2)])
  obtain u1 u2 where u: "noise_hkdf nc ck2 None = Ret (Inr (u1, u2))" "length u1 = 32" "length u2 = 32"
    by (rule noise_hkdf_ok [OF laws(3), of None ck2]) simp_all
  have len: "handshake_resp_msg_len (payload_len p) = length (?F @ w)"
    using w(2) by (simp add: pub payload_len_of noise_sizes)
  define b1 where "b1 = drop 32 buf"
  have fits: "length ?F \<le> length buf" "length w \<le> length b1" using size(2) len pub by (simp_all add: b1_def)
  have buf: "cursor_write (buf, 0) ?F = (?F @ b1, length ?F)"
      "cursor_write (?F @ b1, length ?F) w = (?F @ w @ drop (length w) b1, length (?F @ w))"
    using cursor_write_start [OF fits(1)] cursor_write_fits [OF fits(2), of ?F] pub by (simp_all add: b1_def)
  have resp: "respond_to_client nc f rst p buf = Ret (Inr (session_new u2 u1 (rs_rs rst), ?F @ w @ drop (length w) b1))"
    using size k1 k2(1) w(1) u(1) buf by (simp add: respond_to_client_def Let_def flip: h_def)
  have fin: "finalize_connection nc (noise_config_new nc a) ist (?F @ w) = Ret (Inr (payload_of p, session_new u1 u2 (is_rs ist)))"
    using size(1) len k1 k2(1) w(3) u(1) linked pub
    by (simp add: finalize_connection_def noise_config_new_def Let_def read_exact_def dh linked_def PUBLIC_KEY_SIZE_def
        flip: h_def)
  show ?thesis
    by (rule that [OF resp, of "session_new u1 u2 (is_rs ist)"])
      (use linked u in \<open>simp_all add: len pub fin sessions_match_def session_new_def linked_def get_remote_static_def\<close>)
qed

text \<open>
  C11. Between two honest peers, whatever the prologue, the payloads and the ephemeral keys, the handshake completes when the
  payloads fit in a message and the buffers hold them: the responder learns the initiator's static key and its payload, the
  initiator learns the responder's payload, and both end with sessions whose keys and nonces match crosswise.
\<close>

theorem noise_handshake_agrees:
  assumes "dh_laws nc" and "aead_laws nc" and "hkdf_laws nc"
    and "handshake_init_msg_len (payload_len p) \<le> MAX_SIZE_NOISE_MSG"
    and "handshake_init_msg_len (payload_len p) \<le> length buf"
    and "handshake_resp_msg_len (payload_len q) \<le> MAX_SIZE_NOISE_MSG"
    and "handshake_resp_msg_len (payload_len q) \<le> length buf'"
  shows "\<exists>ist out t out' s.
    initiate_connection nc (noise_config_new nc a) e prologue (x_public nc b) p buf = Ret (Inr (ist, out)) \<and>
    respond_to_client_and_finalize nc (noise_config_new nc b) f prologue
      (take (handshake_init_msg_len (payload_len p)) out) q buf' = Ret (Inr (payload_of p, t, out')) \<and>
    finalize_connection nc (noise_config_new nc a) ist (take (handshake_resp_msg_len (payload_len q)) out')
      = Ret (Inr (payload_of q, s)) \<and>
    sessions_match s t \<and> write_nonce s = 0 \<and> read_nonce s = 0 \<and>
    get_remote_static s = x_public nc b \<and> get_remote_static t = x_public nc a"
proof -
  obtain ist out rst where first:
    "initiate_connection nc (noise_config_new nc a) e prologue (x_public nc b) p buf = Ret (Inr (ist, out))"
    "parse_client_init_message nc (noise_config_new nc b) prologue (take (handshake_init_msg_len (payload_len p)) out)
       = Ret (Inr (x_public nc a, rst, payload_of p))"
    "linked nc a b e ist rst"
    by (rule first_message [OF assms(1-5)])
  obtain t out' s where second:
    "respond_to_client nc f rst q buf' = Ret (Inr (t, out'))"
    "finalize_connection nc (noise_config_new nc a) ist (take (handshake_resp_msg_len (payload_len q)) out')
       = Ret (Inr (payload_of q, s))"
    "sessions_match s t" "write_nonce s = 0" "read_nonce s = 0" "get_remote_static s = x_public nc b"
    "get_remote_static t = x_public nc a"
    by (rule second_message [OF assms(1-3) assms(6,7) first(3)])
  have "respond_to_client_and_finalize nc (noise_config_new nc b) f prologue
      (take (handshake_init_msg_len (payload_len p)) out) q buf' = Ret (Inr (payload_of p, t, out'))"
    by (simp add: respond_to_client_and_finalize_def first(2) second(1))
  with first(1) second show ?thesis by blast
qed

text \<open>
  An instance with the documented laws, on which the theorems can be evaluated: keys are padded to 32 bytes and exchanged by
  adding them, the tag is the padded nonce.
\<close>

definition pad_to :: "nat \<Rightarrow> bytes \<Rightarrow> bytes" where
  "pad_to n bs = take n (bs @ replicate n 0)"

definition sample_crypto :: "bytes noise_crypto" where
  "sample_crypto =
     \<lparr>sha256 = pad_to 32,
      hkdf_pkg = \<lparr>hk_extract = (\<lambda>_ ikm. pad_to 32 ikm), hk_prk_ok = (\<lambda>prk. 32 \<le> length prk),
                  hk_expand = (\<lambda>prk _ n. Some (pad_to n prk))\<rparr>,
      aead_seal = (\<lambda>_ n _ m. Some (m, pad_to 16 n)),
      aead_open = (\<lambda>_ n _ c. if 16 \<le> length c \<and> drop (length c - 16) c = pad_to 16 n
                              then Some (take (length c - 16) c) else None),
      x_public = pad_to 32,
      x_dh = (\<lambda>a p. map2 (+) (pad_to 32 a) (pad_to 32 p))\<rparr>"

lemma length_pad_to [simp]: "length (pad_to n bs) = n"
  by (simp add: pad_to_def)

lemma pad_to_idem [simp]: "pad_to n (pad_to n bs) = pad_to n bs"
  by (simp add: pad_to_def)

lemma map2_add_commute: "map2 (+) (xs :: bytes) ys = map2 (+) ys xs"
  by (induction xs ys rule: list_induct2') (simp_all add: add.commute)

lemma sample_laws: "dh_laws sample_crypto" "aead_laws sample_crypto" "hkdf_laws sample_crypto"
  by (simp_all add: dh_laws_def aead_laws_def hkdf_laws_def sample_crypto_def noise_sizes map2_add_commute)

theorem noise_handshake_agrees_witness:
  "\<exists>ist out t out' s.
    initiate_connection sample_crypto (noise_config_new sample_crypto [1]) [2] [7] (x_public sample_crypto [3]) (Some [5, 6])
      (replicate 200 0) = Ret (Inr (ist, out)) \<and>
    respond_to_client_and_finalize sample_crypto (noise_config_new sample_crypto [3]) [4] [7]
      (take (handshake_init_msg_len 2) out) None (replicate 48 9) = Ret (Inr ([5, 6], t, out')) \<and>
    finalize_connection sample_crypto (noise_config_new sample_crypto [1]) ist (take (handshake_resp_msg_len 0) out')
      = Ret (Inr ([], s)) \<and>
    sessions_match s t \<and> get_remote_static t = x_public sample_crypto [1]"
  using noise_handshake_agrees [OF sample_laws, where p = "Some [5, 6]" and q = None and buf = "replicate 200 0"
      and buf' = "replicate 48 9" and a = "[1]" and b = "[3]" and e = "[2]" and f = "[4]" and prologue = "[7]"]
  by (simp add: noise_sizes) blast

section \<open>One direction of a session as a channel\<close>

text \<open>
  The writing session of one peer, the reading session of the other, what has been sealed so far (nonce, message and
  ciphertext with tag), and what has been received. The network may deliver any bytes, in any order and any number of times.
  The last step stands for the messages of the opposite direction, which use the other keys and nonces of the two sessions
  and can close them.
\<close>

record channel =
  ch_writer :: noise_session
  ch_reader :: noise_session
  ch_sent :: "(bytes \<times> bytes \<times> bytes) list"
  ch_received :: "bytes list"

abbreviation nonce_bytes :: "u64 \<Rightarrow> bytes" where
  "nonce_bytes n \<equiv> replicate 4 0 @ be_bytes n"

text \<open>Bytes are authentic when they open under a nonce only if they were sealed under that nonce.\<close>

definition authentic :: "'sk noise_crypto \<Rightarrow> channel \<Rightarrow> bytes \<Rightarrow> bool" where
  "authentic nc c wire \<longleftrightarrow>
     (\<forall>n p. length n = AES_NONCE_SIZE \<longrightarrow> aead_open nc (read_key (ch_reader c)) n [] wire = Some p \<longrightarrow>
        (\<exists>m. (n, m, wire) \<in> set (ch_sent c)))"

inductive channel_step :: "'sk noise_crypto \<Rightarrow> channel \<Rightarrow> channel \<Rightarrow> bool" for nc where
  chan_write: "write_message_in_place nc (ch_writer c) m = Ret (Inr tag, w, ct) \<Longrightarrow>
    channel_step nc c (c\<lparr>ch_writer := w, ch_sent := ch_sent c @ [(nonce_bytes (write_nonce (ch_writer c)), m, ct @ tag)]\<rparr>)"
| chan_write_error: "write_message_in_place nc (ch_writer c) m = Ret (Inl err, w, ct) \<Longrightarrow>
    channel_step nc c (c\<lparr>ch_writer := w\<rparr>)"
| chan_read: "authentic nc c wire \<Longrightarrow> read_message_in_place nc (ch_reader c) wire = Ret (Inr p, r) \<Longrightarrow>
    channel_step nc c (c\<lparr>ch_reader := r, ch_received := ch_received c @ [p]\<rparr>)"
| chan_read_error: "read_message_in_place nc (ch_reader c) wire = Ret (Inl err, r) \<Longrightarrow>
    channel_step nc c (c\<lparr>ch_reader := r\<rparr>)"
| chan_reverse: "write_key w = write_key (ch_writer c) \<Longrightarrow> write_nonce w = write_nonce (ch_writer c) \<Longrightarrow>
    read_key r = read_key (ch_reader c) \<Longrightarrow> read_nonce r = read_nonce (ch_reader c) \<Longrightarrow>
    (valid r \<longrightarrow> valid (ch_reader c)) \<Longrightarrow> channel_step nc c (c\<lparr>ch_writer := w, ch_reader := r\<rparr>)"

definition channel_init :: "'sk noise_crypto \<Rightarrow> channel \<Rightarrow> bool" where
  "channel_init nc c \<longleftrightarrow>
     aead_laws nc \<and> sessions_match (ch_writer c) (ch_reader c) \<and> write_nonce (ch_writer c) = 0 \<and> ch_sent c = [] \<and> ch_received c = []"

text \<open>What the reader's cipher makes of what was sent.\<close>

definition sent_ok :: "'sk noise_crypto \<Rightarrow> bytes \<Rightarrow> nat \<Rightarrow> bytes \<times> bytes \<times> bytes \<Rightarrow> bool" where
  "sent_ok nc k i x \<longleftrightarrow>
     (case x of (n, m, wire) \<Rightarrow> n = nonce_bytes (word_of_nat i) \<and> aead_open nc k n [] wire = Some m \<and>
        length wire = length m + AES_GCM_TAGLEN \<and> length wire \<le> MAX_SIZE_NOISE_MSG)"

definition channel_inv :: "'sk noise_crypto \<Rightarrow> channel \<Rightarrow> bool" where
  "channel_inv nc c \<longleftrightarrow>
     aead_laws nc \<and> write_key (ch_writer c) = read_key (ch_reader c) \<and> length (read_key (ch_reader c)) = 32 \<and>
     length (ch_sent c) = unat (write_nonce (ch_writer c)) \<and> length (ch_received c) = unat (read_nonce (ch_reader c)) \<and>
     (\<forall>i < length (ch_sent c). sent_ok nc (read_key (ch_reader c)) i (ch_sent c ! i)) \<and>
     length (ch_received c) \<le> length (ch_sent c) \<and>
     take (unat (read_nonce (ch_reader c))) (map (fst \<circ> snd) (ch_sent c)) = ch_received c"

lemma session_nonce_Ret [simp]: "session_nonce n = Ret (nonce_bytes n)"
  by (simp add: session_nonce_def be_bytes_def)

lemma length_nonce_bytes: "length (nonce_bytes n) = AES_NONCE_SIZE"
  by (simp add: be_bytes_def AES_NONCE_SIZE_def)

lemma nonce_bytes_inj: "nonce_bytes a = nonce_bytes b \<longleftrightarrow> a = b"
proof
  assume "nonce_bytes a = nonce_bytes b"
  then have "le_decode (le_encode 8 (unat a)) = le_decode (le_encode 8 (unat b))" by (simp add: be_bytes_def)
  moreover have "unat x mod 256 ^ 8 = unat x" for x :: u64
    by (rule mod_less, rule order_less_le_trans [OF unsigned_less]) simp
  ultimately show "a = b" by (simp add: le_decode_encode word_unat_eq_iff)
qed simp

lemma unat_next: "(n :: u64) \<noteq> - 1 \<Longrightarrow> unat (n + 1) = Suc (unat n)"
  by (metis Suc_eq_plus1 add.commute add_eq_0_iff unatSuc)

lemma write_message_okD:
  assumes "write_message_in_place nc s m = Ret (Inr tag, w, ct)"
  shows "w = s\<lparr>write_nonce := write_nonce s + 1\<rparr>" and "write_nonce s \<noteq> - 1" and "length m + AES_GCM_TAGLEN \<le> MAX_SIZE_NOISE_MSG"
    and "aead_seal nc (write_key s) (nonce_bytes (write_nonce s)) [] m = Some (ct, tag)"
  using assms
  by (auto simp: write_message_in_place_def aes_key_def assert_that_def noise_sizes
      split: if_splits option.splits prod.splits)

lemma write_message_errorD:
  "write_message_in_place nc s m = Ret (Inl err, w, ct) \<Longrightarrow> w = s"
  by (auto simp: write_message_in_place_def aes_key_def assert_that_def split: if_splits option.splits prod.splits)

lemma read_message_okD:
  assumes "read_message_in_place nc s wire = Ret (Inr p, r)"
  shows "r = s\<lparr>read_nonce := read_nonce s + 1\<rparr>" and "read_nonce s \<noteq> - 1" and "valid s"
    and "aead_open nc (read_key s) (nonce_bytes (read_nonce s)) [] wire = Some p"
  using assms
  by (auto simp: read_message_in_place_def aes_key_def assert_that_def split: if_splits option.splits)

lemma read_message_errorD:
  "read_message_in_place nc s wire = Ret (Inl err, r) \<Longrightarrow>
   read_key r = read_key s \<and> read_nonce r = read_nonce s \<and> (valid r \<longrightarrow> valid s) \<and> (err \<noteq> NonceOverflow \<longrightarrow> \<not> valid r)"
  by (auto simp: read_message_in_place_def aes_key_def assert_that_def split: if_splits option.splits)

lemma write_sent_ok:
  assumes "aead_laws nc" and "length (write_key s) = 32" and "write_message_in_place nc s m = Ret (Inr tag, w, ct)"
  shows "sent_ok nc (write_key s) (unat (write_nonce s)) (nonce_bytes (write_nonce s), m, ct @ tag)"
proof -
  have "length (nonce_bytes (write_nonce s)) = AES_NONCE_SIZE" by (rule length_nonce_bytes)
  moreover have "length m \<le> MAX_SIZE_NOISE_MSG" using write_message_okD(3) [OF assms(3)] by simp
  ultimately obtain c t where "aead_seal nc (write_key s) (nonce_bytes (write_nonce s)) [] m = Some (c, t)"
      "length c = length m" "length t = AES_GCM_TAGLEN"
      "aead_open nc (write_key s) (nonce_bytes (write_nonce s)) [] (c @ t) = Some m"
    using assms(1,2) unfolding aead_laws_def by blast
  with write_message_okD [OF assms(3)] show ?thesis by (simp add: sent_ok_def of_nat_unat)
qed

lemma inv_write:
  assumes "channel_inv nc c" and "write_message_in_place nc (ch_writer c) m = Ret (Inr tag, w, ct)"
  shows "channel_inv nc (c\<lparr>ch_writer := w, ch_sent := ch_sent c @ [(nonce_bytes (write_nonce (ch_writer c)), m, ct @ tag)]\<rparr>)"
proof -
  have "sent_ok nc (read_key (ch_reader c)) (length (ch_sent c)) (nonce_bytes (write_nonce (ch_writer c)), m, ct @ tag)"
    using write_sent_ok [OF _ _ assms(2)] assms(1) by (simp add: channel_inv_def)
  with assms(1) write_message_okD [OF assms(2)] show ?thesis
    by (simp add: channel_inv_def unat_next nth_append less_Suc_eq)
qed

text \<open>What an authentic delivery can be: the message sealed under the nonce the reader expects.\<close>

lemma authentic_next:
  assumes inv: "channel_inv nc c" and "authentic nc c wire"
    and "aead_open nc (read_key (ch_reader c)) (nonce_bytes (read_nonce (ch_reader c))) [] wire = Some p"
  shows "length (ch_received c) < length (ch_sent c)" and "p = fst (snd (ch_sent c ! length (ch_received c)))"
proof -
  obtain i m where i: "i < length (ch_sent c)" "ch_sent c ! i = (nonce_bytes (read_nonce (ch_reader c)), m, wire)"
    using assms(2,3) length_nonce_bytes unfolding authentic_def by (metis in_set_conv_nth)
  with inv have ok: "sent_ok nc (read_key (ch_reader c)) i (nonce_bytes (read_nonce (ch_reader c)), m, wire)"
    unfolding channel_inv_def by metis
  then have "read_nonce (ch_reader c) = word_of_nat i" and "p = m"
    using assms(3) by (simp_all add: sent_ok_def be_bytes_def [symmetric] nonce_bytes_inj [simplified])
  moreover have "i < unat (write_nonce (ch_writer c))" using i(1) inv by (simp add: channel_inv_def)
  then have "i < 2 ^ LENGTH(64)" by (rule less_trans [OF _ unsigned_less])
  ultimately have "unat (read_nonce (ch_reader c)) = i" by (simp add: unat_of_nat)
  with inv have "length (ch_received c) = i" by (simp add: channel_inv_def)
  with i \<open>p = m\<close> show "length (ch_received c) < length (ch_sent c)"
    and "p = fst (snd (ch_sent c ! length (ch_received c)))" by simp_all
qed

lemma inv_read:
  assumes inv: "channel_inv nc c" and "authentic nc c wire"
    and "read_message_in_place nc (ch_reader c) wire = Ret (Inr p, r)"
  shows "channel_inv nc (c\<lparr>ch_reader := r, ch_received := ch_received c @ [p]\<rparr>)"
proof -
  note read = read_message_okD [OF assms(3)]
  note next_msg = authentic_next [OF inv assms(2) read(4)]
  have "take (Suc (length (ch_received c))) (map (fst \<circ> snd) (ch_sent c)) = ch_received c @ [p]"
    using inv next_msg by (simp add: channel_inv_def take_Suc_conv_app_nth)
  with inv next_msg(1) read show ?thesis by (simp add: channel_inv_def unat_next)
qed

interpretation noise_channel: invariant_system "channel_init nc" "channel_step nc" "channel_inv nc"
  for nc :: "'sk noise_crypto"
proof
  show "channel_init nc c \<Longrightarrow> channel_inv nc c" for c by (auto simp: channel_init_def channel_inv_def sessions_match_def)
next
  fix c d
  assume inv: "channel_inv nc c" and "channel_step nc c d"
  from this(2) show "channel_inv nc d"
  proof cases
    case (chan_write m tag w ct)
    with inv show ?thesis by (simp add: inv_write)
  next
    case (chan_write_error m err w ct)
    from write_message_errorD [OF this(2)] inv this(1) show ?thesis by simp
  next
    case (chan_read wire p r)
    with inv show ?thesis by (simp add: inv_read)
  next
    case (chan_read_error wire err r)
    from read_message_errorD [OF this(2)] inv this(1) show ?thesis by (simp add: channel_inv_def)
  next
    case (chan_reverse w r)
    with inv show ?thesis by (simp add: channel_inv_def)
  qed
qed

lemma next_delivery_accepted:
  assumes inv: "channel_inv nc c" and "valid (ch_reader c)" and less: "length (ch_received c) < length (ch_sent c)"
    and sent: "ch_sent c ! length (ch_received c) = (n, m, wire)"
  shows "read_message_in_place nc (ch_reader c) wire
    = Ret (Inr m, (ch_reader c)\<lparr>read_nonce := read_nonce (ch_reader c) + 1\<rparr>)"
proof -
  have "sent_ok nc (read_key (ch_reader c)) (length (ch_received c)) (n, m, wire)"
    using inv less sent unfolding channel_inv_def by metis
  moreover have received: "length (ch_received c) = unat (read_nonce (ch_reader c))" using inv by (simp add: channel_inv_def)
  ultimately have ok: "aead_open nc (read_key (ch_reader c)) (nonce_bytes (read_nonce (ch_reader c))) [] wire = Some m"
      "\<not> length wire < AES_GCM_TAGLEN" "\<not> MAX_SIZE_NOISE_MSG < length wire"
    by (auto simp: sent_ok_def of_nat_unat)
  have "unat (read_nonce (ch_reader c)) < unat (write_nonce (ch_writer c))" using inv less by (simp add: channel_inv_def)
  then have "read_nonce (ch_reader c) \<noteq> - 1" by (metis word_less_nat_alt word_n1_ge linorder_not_le)
  with ok assms(2) inv show ?thesis
    by (simp add: read_message_in_place_def aes_key_def assert_that_def channel_inv_def)
qed

text \<open>
  C12. In every state of a channel whose cipher cannot be forged, what the reader has accepted is an initial part of what the
  writer sent, in order and without repetition, whatever the network delivered; the next message sent, delivered as it is to
  an open session, is accepted; and a session that has been closed by a bad delivery refuses everything from then on.
\<close>

theorem noise_channel_in_order:
  assumes "reachable (channel_init nc) (channel_step nc) c"
  shows "ch_received c = take (length (ch_received c)) (map (fst \<circ> snd) (ch_sent c)) \<and>
    (valid (ch_reader c) \<longrightarrow> length (ch_received c) < length (ch_sent c) \<longrightarrow>
       read_message_in_place nc (ch_reader c) (snd (snd (ch_sent c ! length (ch_received c))))
         = Ret (Inr (fst (snd (ch_sent c ! length (ch_received c)))),
                (ch_reader c)\<lparr>read_nonce := read_nonce (ch_reader c) + 1\<rparr>)) \<and>
    (\<not> valid (ch_reader c) \<longrightarrow> read_message_in_place nc (ch_reader c) wire = Ret (Inl SessionClosed, ch_reader c))"
proof -
  have inv: "channel_inv nc c" by (rule noise_channel.reachable_inv [OF assms])
  obtain n m w where "ch_sent c ! length (ch_received c) = (n, m, w)" by (metis prod_cases3)
  with inv next_delivery_accepted [OF inv] have "valid (ch_reader c) \<longrightarrow> length (ch_received c) < length (ch_sent c) \<longrightarrow>
       read_message_in_place nc (ch_reader c) (snd (snd (ch_sent c ! length (ch_received c))))
         = Ret (Inr (fst (snd (ch_sent c ! length (ch_received c)))),
                (ch_reader c)\<lparr>read_nonce := read_nonce (ch_reader c) + 1\<rparr>)" by simp
  moreover have "ch_received c = take (length (ch_received c)) (map (fst \<circ> snd) (ch_sent c))"
    using inv by (simp add: channel_inv_def)
  ultimately show ?thesis by (simp add: read_message_in_place_def)
qed

text \<open>A channel after one message has been sent and delivered.\<close>

definition sample_session :: noise_session where
  "sample_session = session_new (replicate 32 1) (replicate 32 1) [3]"

definition sample_wire :: bytes where
  "sample_wire = [5, 6] @ replicate 16 0"

definition sample_sent :: channel where
  "sample_sent =
     \<lparr>ch_writer = sample_session\<lparr>write_nonce := 1\<rparr>, ch_reader = sample_session,
      ch_sent = [(nonce_bytes 0, [5, 6], sample_wire)], ch_received = []\<rparr>"

definition sample_channel :: channel where
  "sample_channel = sample_sent\<lparr>ch_reader := sample_session\<lparr>read_nonce := 1\<rparr>, ch_received := [[5, 6]]\<rparr>"

lemma le_encode_0: "le_encode n 0 = replicate n 0"
  by (induction n) simp_all

lemma pad_nonce_0: "pad_to 16 (nonce_bytes 0) = replicate 16 0"
  by (simp add: pad_to_def be_bytes_def le_encode_0 flip: replicate_add)

lemma sample_sent_reachable: "reachable (channel_init sample_crypto) (channel_step sample_crypto) sample_sent"
proof -
  let ?c = "\<lparr>ch_writer = sample_session, ch_reader = sample_session, ch_sent = [], ch_received = []\<rparr>"
  have "channel_init sample_crypto ?c"
    by (simp add: channel_init_def sample_laws sessions_match_def sample_session_def session_new_def)
  then have r: "reachable (channel_init sample_crypto) (channel_step sample_crypto) ?c" by (rule reach_init)
  have "write_message_in_place sample_crypto sample_session [5, 6]
      = Ret (Inr (replicate 16 0), sample_session\<lparr>write_nonce := 1\<rparr>, [5, 6])"
    using pad_nonce_0
    by (simp add: write_message_in_place_def sample_session_def session_new_def aes_key_def assert_that_def sample_crypto_def
        noise_sizes)
  from chan_write [of sample_crypto ?c, simplified, OF this] have "channel_step sample_crypto ?c sample_sent"
    by (simp add: sample_sent_def sample_wire_def sample_session_def session_new_def)
  with r show ?thesis by (rule reach_step)
qed

lemma sample_authentic: "authentic sample_crypto sample_sent sample_wire"
proof -
  have "n = nonce_bytes 0" if "length n = 12" and "pad_to 16 n = replicate 16 0" for n
  proof -
    have "n = take 12 (pad_to 16 n)" using that(1) by (simp add: pad_to_def)
    also have "\<dots> = nonce_bytes 0" by (simp add: that(2) be_bytes_def le_encode_0 flip: replicate_add)
    finally show ?thesis .
  qed
  then show ?thesis
    by (auto simp: authentic_def sample_crypto_def sample_sent_def sample_wire_def AES_NONCE_SIZE_def)
qed

lemma sample_channel_reachable: "reachable (channel_init sample_crypto) (channel_step sample_crypto) sample_channel"
proof -
  have "read_message_in_place sample_crypto (ch_reader sample_sent) sample_wire
      = Ret (Inr [5, 6], sample_session\<lparr>read_nonce := 1\<rparr>)"
    using pad_nonce_0
    by (simp add: read_message_in_place_def sample_sent_def sample_wire_def sample_session_def session_new_def aes_key_def
        assert_that_def sample_crypto_def noise_sizes)
  from chan_read [OF sample_authentic this] have "channel_step sample_crypto sample_sent sample_channel"
    by (simp add: sample_channel_def sample_sent_def)
  with sample_sent_reachable show ?thesis by (rule reach_step)
qed

theorem noise_channel_in_order_witness:
  "ch_received sample_channel = take 1 (map (fst \<circ> snd) (ch_sent sample_channel)) \<and> ch_received sample_channel = [[5, 6]]"
  using noise_channel_in_order [OF sample_channel_reachable, of "[]"]
  by (simp add: sample_channel_def sample_sent_def)

end
