(* ===== verification/MultiEd25519.thy ===== *)
theory MultiEd25519
  imports BitVec CryptoKeys
begin

text \<open>
  Threshold signatures (\<^verbatim>\<open>crates/ol-crypto/src/multi_ed25519.rs\<close>): keys with a threshold, signatures with a bitmap of the
  keys that made them, their byte forms and their verification. The Ed25519 keys and signatures themselves are
  arguments. Private and public keys share their representation and checks, so one polymorphic type models both.
\<close>

unbundle bit_operations_syntax

section \<open>Data and bitmaps\<close>

definition MAX_NUM_OF_KEYS :: nat where
  "MAX_NUM_OF_KEYS = 32"

definition BITMAP_NUM_OF_BYTES :: nat where
  "BITMAP_NUM_OF_BYTES = 4"

record 'k multi_key =
  keys :: "'k list"
  threshold :: u8

record 'sg multi_signature =
  signatures :: "'sg list"
  key_bitmap :: bytes

definition bitmap_set_bit :: "bytes \<Rightarrow> nat \<Rightarrow> bytes outcome" where
  "bitmap_set_bit input idx =
     (let bucket = idx div 8; bucket_pos = idx - bucket * 8 in
      out_bind (index input bucket) (\<lambda>b. Ret (input[bucket := b OR drop_bit bucket_pos 128])))"

definition bitmap_get_bit :: "bytes \<Rightarrow> nat \<Rightarrow> bool outcome" where
  "bitmap_get_bit input idx =
     (let bucket = idx div 8; bucket_pos = idx - bucket * 8 in
      out_bind (index input bucket) (\<lambda>b. Ret (b AND drop_bit bucket_pos 128 \<noteq> 0)))"

definition bitmap_count_ones :: "bytes \<Rightarrow> nat" where
  "bitmap_count_ones input = sum_list (map byte_ones input)"

definition bitmap_last_set_bit :: "bytes \<Rightarrow> u8 option" where
  "bitmap_last_set_bit input =
     map_option (\<lambda>(i, byte). word_of_nat (8 * (BITMAP_NUM_OF_BYTES - i) - byte_trailing_zeros byte - 1))
       (List.find (\<lambda>(i, byte). byte \<noteq> 0) (enumerate 0 (rev input)))"

section \<open>Keys\<close>

definition multi_key_new :: "'k list \<Rightarrow> u8 \<Rightarrow> crypto_material_error + 'k multi_key" where
  "multi_key_new ks t =
     (let num_of_keys = length ks in
      if t = 0 \<or> num_of_keys < unat t then Inl ValidationError
      else if num_of_keys > MAX_NUM_OF_KEYS then Inl WrongLengthError
      else Inr \<lparr>keys = ks, threshold = t\<rparr>)"

definition keys_to_bytes :: "('k \<Rightarrow> bytes) \<Rightarrow> 'k multi_key \<Rightarrow> bytes" where
  "keys_to_bytes to_bytes k = concat (map to_bytes (keys k)) @ [threshold k]"

definition check_and_get_threshold :: "bytes \<Rightarrow> nat \<Rightarrow> crypto_material_error + u8" where
  "check_and_get_threshold bs key_size =
     (let payload_length = length bs in
      if bs = [] then Inl WrongLengthError
      else
        let threshold_num_of_bytes = payload_length mod key_size;
            num_of_keys = payload_length div key_size;
            threshold_byte = last bs in
        if num_of_keys = 0 \<or> num_of_keys > MAX_NUM_OF_KEYS \<or> threshold_num_of_bytes \<noteq> 1 then Inl WrongLengthError
        else if threshold_byte = 0 \<or> threshold_byte > word_of_nat num_of_keys then Inl ValidationError
        else Inr threshold_byte)"

text \<open>Slices cut into chunks of equal size without the remainder, and iterators of results collected.\<close>

definition chunks_exact :: "nat \<Rightarrow> bytes \<Rightarrow> bytes list" where
  "chunks_exact n bs = map (\<lambda>i. take n (drop (i * n) bs)) [0..<length bs div n]"

fun collect_results :: "('e + 'a) list \<Rightarrow> 'e + 'a list" where
  "collect_results [] = Inr []"
| "collect_results (r # rs) = and_then r (\<lambda>x. and_then (collect_results rs) (\<lambda>xs. Inr (x # xs)))"

definition multi_key_try_from ::
  "(bytes \<Rightarrow> crypto_material_error + 'k) \<Rightarrow> nat \<Rightarrow> bytes \<Rightarrow> crypto_material_error + 'k multi_key" where
  "multi_key_try_from try_from key_size bs =
     (if bs = [] then Inl WrongLengthError
      else and_then (check_and_get_threshold bs key_size) (\<lambda>t.
             and_then (collect_results (map try_from (chunks_exact key_size bs))) (\<lambda>ks.
               Inr \<lparr>keys = ks, threshold = t\<rparr>)))"

definition public_of_private :: "('sk \<Rightarrow> 'pk) \<Rightarrow> 'sk multi_key \<Rightarrow> 'pk multi_key" where
  "public_of_private public_key k = \<lparr>keys = map public_key (keys k), threshold = threshold k\<rparr>"

text \<open>\<open>decompress\<close> reads a point of the curve, \<open>small_order\<close> is the small subgroup check.\<close>

fun validate_chunks :: "(bytes \<Rightarrow> 'pt option) \<Rightarrow> ('pt \<Rightarrow> bool) \<Rightarrow> bytes list \<Rightarrow> nat \<Rightarrow> nat \<Rightarrow> bool \<times> nat \<times> nat" where
  "validate_chunks decompress small_order [] nd ns = (True, nd, ns)"
| "validate_chunks decompress small_order (chunk # chunks) nd ns =
     (case decompress chunk of
        None \<Rightarrow> (False, nd + 1, ns)
      | Some point \<Rightarrow> if small_order point then (False, nd + 1, ns + 1)
                      else validate_chunks decompress small_order chunks (nd + 1) (ns + 1))"

definition validate_bytes_and_count_checks ::
  "(bytes \<Rightarrow> 'pt option) \<Rightarrow> ('pt \<Rightarrow> bool) \<Rightarrow> nat \<Rightarrow> bytes \<Rightarrow> bool \<times> nat \<times> nat" where
  "validate_bytes_and_count_checks decompress small_order key_size bs =
     (if bs = [] then (False, 0, 0)
      else case check_and_get_threshold bs key_size of
             Inl _ \<Rightarrow> (False, 0, 0)
           | Inr _ \<Rightarrow> validate_chunks decompress small_order (chunks_exact key_size bs) 0 0)"

section \<open>Signatures\<close>

fun sign_loop :: "('sk \<Rightarrow> 'm \<Rightarrow> 'e + 'sg) \<Rightarrow> 'm \<Rightarrow> (nat \<times> 'sk) list \<Rightarrow> 'sg multi_signature \<Rightarrow> ('e + 'sg multi_signature) outcome" where
  "sign_loop sign message [] sg = Ret (Inr sg)"
| "sign_loop sign message ((i, k) # ks) sg =
     out_bind (bitmap_set_bit (key_bitmap sg) i) (\<lambda>bm.
       out_try (Ret (sign k message)) (\<lambda>s.
         sign_loop sign message ks \<lparr>signatures = signatures sg @ [s], key_bitmap = bm\<rparr>))"

definition multi_sign :: "('sk \<Rightarrow> 'm \<Rightarrow> 'e + 'sg) \<Rightarrow> 'sk multi_key \<Rightarrow> 'm \<Rightarrow> ('e + 'sg multi_signature) outcome" where
  "multi_sign sign k message =
     sign_loop sign message (enumerate 0 (take (unat (threshold k)) (keys k)))
       \<lparr>signatures = [], key_bitmap = replicate BITMAP_NUM_OF_BYTES 0\<rparr>"

fun mark_indexes :: "u8 list \<Rightarrow> bytes \<Rightarrow> (crypto_material_error + bytes) outcome" where
  "mark_indexes [] bm = Ret (Inr bm)"
| "mark_indexes (i # is') bm =
     (if i < word_of_nat MAX_NUM_OF_KEYS
      then out_bind (bitmap_get_bit bm (unat i)) (\<lambda>b.
             if b then Ret (Inl (BitVecError ''Duplicate signature index''))
             else out_bind (bitmap_set_bit bm (unat i)) (\<lambda>bm. mark_indexes is' bm))
      else Ret (Inl (BitVecError ''Signature index is out of range'')))"

definition multi_signature_new :: "('sg \<times> u8) list \<Rightarrow> (crypto_material_error + 'sg multi_signature) outcome" where
  "multi_signature_new sigs =
     (let num_of_sigs = length sigs in
      if num_of_sigs = 0 \<or> num_of_sigs > MAX_NUM_OF_KEYS then Ret (Inl ValidationError)
      else
        let sorted_signatures = sort_key snd sigs in
        out_try (mark_indexes (map snd sorted_signatures) (replicate BITMAP_NUM_OF_BYTES 0)) (\<lambda>bm.
          Ret (Inr \<lparr>signatures = map fst sorted_signatures, key_bitmap = bm\<rparr>)))"

definition new_with_signatures_and_bitmap :: "'sg list \<Rightarrow> bytes \<Rightarrow> 'sg multi_signature" where
  "new_with_signatures_and_bitmap sigs bm = \<lparr>signatures = sigs, key_bitmap = bm\<rparr>"

definition multi_signature_to_bytes :: "('sg \<Rightarrow> bytes) \<Rightarrow> 'sg multi_signature \<Rightarrow> bytes" where
  "multi_signature_to_bytes to_bytes sg = concat (map to_bytes (signatures sg)) @ key_bitmap sg"

definition multi_signature_try_from ::
  "(bytes \<Rightarrow> crypto_material_error + 'sg) \<Rightarrow> nat \<Rightarrow> bytes \<Rightarrow> crypto_material_error + 'sg multi_signature" where
  "multi_signature_try_from try_from sig_size bs =
     (let len = length bs;
          bitmap_num_of_bytes = len mod sig_size;
          num_of_sigs = len div sig_size in
      if num_of_sigs = 0 \<or> num_of_sigs > MAX_NUM_OF_KEYS \<or> bitmap_num_of_bytes \<noteq> BITMAP_NUM_OF_BYTES then Inl WrongLengthError
      else
        let bm = drop (len - BITMAP_NUM_OF_BYTES) bs in
        if bitmap_count_ones bm \<noteq> num_of_sigs then Inl DeserializationError
        else and_then (collect_results (map try_from (chunks_exact sig_size bs))) (\<lambda>sigs.
               Inr \<lparr>signatures = sigs, key_bitmap = bm\<rparr>))"

datatype verify_error = MaterialError crypto_material_error | SignatureError string

text \<open>The inner loop of verification: from here on, the next set bit. Past the last byte the indexing panics.\<close>

function seek_bit :: "bytes \<Rightarrow> nat \<Rightarrow> nat outcome" where
  "seek_bit bm i =
     (case bitmap_get_bit bm i of
        Panic \<Rightarrow> Panic
      | Ret b \<Rightarrow> if b then Ret i else seek_bit bm (i + 1))"
  by auto
termination
  by (relation "measure (\<lambda>(bm, i). 8 * length bm - i)")
    (auto simp: bitmap_get_bit_def Let_def index_def split: if_splits)

declare seek_bit.simps [simp del]

fun verify_loop :: "('sg \<Rightarrow> bytes \<Rightarrow> 'pk \<Rightarrow> string + unit) \<Rightarrow> bytes \<Rightarrow> 'pk list \<Rightarrow> bytes \<Rightarrow> nat \<Rightarrow> 'sg list
    \<Rightarrow> (verify_error + unit) outcome" where
  "verify_loop verify message pks bm bitmap_index [] = Ret (Inr ())"
| "verify_loop verify message pks bm bitmap_index (sg # sgs) =
     out_bind (seek_bit bm bitmap_index) (\<lambda>bitmap_index.
     out_bind (index pks bitmap_index) (\<lambda>pk.
     out_try (Ret (map_err SignatureError (verify sg message pk))) (\<lambda>_.
       verify_loop verify message pks bm (bitmap_index + 1) sgs)))"

definition multi_verify_arbitrary_msg ::
  "('sg \<Rightarrow> bytes \<Rightarrow> 'pk \<Rightarrow> string + unit) \<Rightarrow> 'sg multi_signature \<Rightarrow> bytes \<Rightarrow> 'pk multi_key \<Rightarrow> (verify_error + unit) outcome" where
  "multi_verify_arbitrary_msg verify sg message pk =
     (if (case bitmap_last_set_bit (key_bitmap sg) of None \<Rightarrow> True | Some last_bit \<Rightarrow> \<not> unat last_bit < length (keys pk))
      then Ret (Inl (MaterialError (BitVecError ''Signature index is out of range'')))
      else if bitmap_count_ones (key_bitmap sg) < unat (threshold pk)
      then Ret (Inl (MaterialError (BitVecError ''Not enough signatures to meet the threshold'')))
      else verify_loop verify message (keys pk) (key_bitmap sg) 0 (signatures sg))"

definition multi_verify ::
  "('sg \<Rightarrow> bytes \<Rightarrow> 'pk \<Rightarrow> string + unit) \<Rightarrow> bytes \<Rightarrow> ('m \<Rightarrow> bytes option) \<Rightarrow> 'sg multi_signature \<Rightarrow> 'm \<Rightarrow> 'pk multi_key
     \<Rightarrow> (verify_error + unit) outcome" where
  "multi_verify verify seed serialize_msg sg message pk =
     (case serialize_msg message of
        None \<Rightarrow> Ret (Inl (MaterialError SerializationError))
      | Some m \<Rightarrow> multi_verify_arbitrary_msg verify sg (seed @ m) pk)"

section \<open>The bitmap as a set of key positions\<close>

abbreviation positions :: "bytes \<Rightarrow> nat list" where
  "positions bm \<equiv> filter (bit_at bm) [0..<8 * length bm]"

lemma small_u16: "i < 32 \<Longrightarrow> unat (word_of_nat i :: u16) = i"
  by (simp add: unat_of_nat)

lemma get_bit_at:
  assumes "length bm = BITMAP_NUM_OF_BYTES" and "i < 32"
  shows "bitmap_get_bit bm i = Ret (bit_at bm i)"
proof -
  have "i div 8 < length bm" using assms by (simp add: BITMAP_NUM_OF_BYTES_def)
  then have "bitmap_get_bit bm i = Ret (is_set bm (word_of_nat i))"
    using assms(2) by (simp add: bitmap_get_bit_def is_set_def small_u16 BUCKET_SIZE_def Let_def)
  then show ?thesis using assms(2) by (simp add: is_set_bit small_u16)
qed

lemma get_bit_beyond: "length bm = BITMAP_NUM_OF_BYTES \<Longrightarrow> 32 \<le> i \<Longrightarrow> bitmap_get_bit bm i = Panic"
  by (simp add: bitmap_get_bit_def index_def BITMAP_NUM_OF_BYTES_def Let_def)

lemma set_bit_at:
  assumes "length bm = BITMAP_NUM_OF_BYTES" and "i < 32"
  obtains bm' where "bitmap_set_bit bm i = Ret bm'" and "length bm' = BITMAP_NUM_OF_BYTES"
    and "\<And>j. bit_at bm' j \<longleftrightarrow> j = i \<or> bit_at bm j"
proof
  have "i div 8 < length bm" using assms by (simp add: BITMAP_NUM_OF_BYTES_def)
  with assms(2) show "bitmap_set_bit bm i = Ret (bv_set bm (word_of_nat i))" and "length (bv_set bm (word_of_nat i)) = BITMAP_NUM_OF_BYTES"
    using assms(1) by (simp_all add: bitmap_set_bit_def bv_set_def small_u16 BUCKET_SIZE_def Let_def)
  show "bit_at (bv_set bm (word_of_nat i)) j \<longleftrightarrow> j = i \<or> bit_at bm j" for j
    using assms(2) by (simp add: bit_at_set small_u16)
qed

lemma count_positions: "bitmap_count_ones bm = length (positions bm)"
  using count_ones_bits [of bm] by (simp add: bitmap_count_ones_def bv_count_ones_def)

lemma last_set_bit_position:
  assumes "length bm = BITMAP_NUM_OF_BYTES"
  shows "case bitmap_last_set_bit bm of None \<Rightarrow> positions bm = []
    | Some p \<Rightarrow> bit_at bm (unat p) \<and> (\<forall>i. bit_at bm i \<longrightarrow> i \<le> unat p)"
proof -
  have max: "case last_set_bit bm of None \<Rightarrow> \<forall>i. \<not> bit_at bm i
    | Some p \<Rightarrow> bit_at bm (unat p) \<and> (\<forall>i. bit_at bm i \<longrightarrow> i \<le> unat p)"
    using last_set_bit_max assms by (simp add: MAX_BUCKETS_def BITMAP_NUM_OF_BYTES_def)
  show ?thesis
  proof (cases "List.find (\<lambda>(i, byte). byte \<noteq> 0) (enumerate 0 (rev bm))")
    case None
    with max show ?thesis by (simp add: bitmap_last_set_bit_def last_set_bit_def)
  next
    case (Some x)
    obtain i b where x: "x = (i, b)" by (cases x)
    let ?n = "8 * (4 - i) - byte_trailing_zeros b - 1"
    have "?n < 32" by simp
    then have "unat (word_of_nat ?n :: u8) = ?n" "unat (word_of_nat ?n :: u16) = ?n" by (simp_all add: unat_of_nat)
    with max Some x assms show ?thesis
      by (simp add: bitmap_last_set_bit_def last_set_bit_def BITMAP_NUM_OF_BYTES_def)
  qed
qed

lemma seek_bit_finds:
  assumes "length bm = BITMAP_NUM_OF_BYTES" and "i \<le> p" and "bit_at bm p" and "\<And>j. i \<le> j \<Longrightarrow> j < p \<Longrightarrow> \<not> bit_at bm j"
  shows "seek_bit bm i = Ret p"
  using assms(2,4)
proof (induction "p - i" arbitrary: i)
  case 0
  then have "i = p" by simp
  moreover have "p < 32" using bit_at_bound [OF assms(3)] assms(1) by (simp add: BITMAP_NUM_OF_BYTES_def)
  ultimately show ?case using assms(1,3) by (simp add: get_bit_at seek_bit.simps [of bm p])
next
  case (Suc d)
  then have "i < p" by simp
  moreover have "p < 32" using bit_at_bound [OF assms(3)] assms(1) by (simp add: BITMAP_NUM_OF_BYTES_def)
  ultimately have "bitmap_get_bit bm i = Ret False" using Suc.prems assms(1) by (simp add: get_bit_at)
  moreover have "seek_bit bm (Suc i) = Ret p" using Suc by (intro Suc.hyps(1)) auto
  ultimately show ?case by (simp add: seek_bit.simps [of bm i])
qed

lemma filter_upt_ConsD:
  "filter P [i..<n] = q # qs \<Longrightarrow> i \<le> q \<and> P q \<and> (\<forall>j. i \<le> j \<longrightarrow> j < q \<longrightarrow> \<not> P j) \<and> qs = filter P [Suc q..<n]"
proof (induction "n - i" arbitrary: i)
  case (Suc d)
  then have upt: "[i..<n] = i # [Suc i..<n]" by (simp add: upt_conv_Cons)
  show ?case
  proof (cases "P i")
    case True
    with Suc.prems upt show ?thesis by auto
  next
    case False
    with Suc.prems upt have "filter P [Suc i..<n] = q # qs" by simp
    moreover have "d = n - Suc i" using Suc.hyps(2) by simp
    ultimately have "Suc i \<le> q \<and> P q \<and> (\<forall>j. Suc i \<le> j \<longrightarrow> j < q \<longrightarrow> \<not> P j) \<and> qs = filter P [Suc q..<n]"
      by (intro Suc.hyps(1))
    with False show ?thesis by (metis Suc_leD Suc_leI le_neq_implies_less)
  qed
qed simp

lemma verify_loop_iff:
  assumes "length bm = BITMAP_NUM_OF_BYTES" and "filter (bit_at bm) [i..<8 * length bm] = ps"
    and "length sgs = length ps" and "\<forall>p\<in>set ps. p < length pks"
  shows "verify_loop verify m pks bm i sgs \<noteq> Panic \<and>
    (verify_loop verify m pks bm i sgs = Ret (Inr ()) \<longleftrightarrow> list_all2 (\<lambda>sg p. verify sg m (pks ! p) = Inr ()) sgs ps)"
  using assms(2-)
proof (induction sgs arbitrary: i ps)
  case (Cons sg sgs)
  then obtain q qs where ps: "ps = q # qs" by (cases ps) auto
  note q = filter_upt_ConsD [OF Cons.prems(1) [unfolded ps]]
  have "seek_bit bm i = Ret q" using q by (intro seek_bit_finds [OF assms(1)]) auto
  moreover have "q < length pks" using Cons.prems(3) ps by simp
  moreover note Cons.IH [of "Suc q" qs]
  ultimately show ?case using q Cons.prems ps
    by (cases "verify sg m (pks ! q)") (simp_all add: map_err_def)
qed simp

section \<open>Signatures that were checked when they were made\<close>

definition wf_signature :: "'sg multi_signature \<Rightarrow> bool" where
  "wf_signature sg \<longleftrightarrow>
     length (key_bitmap sg) = BITMAP_NUM_OF_BYTES \<and> signatures sg \<noteq> [] \<and>
     length (signatures sg) = length (positions (key_bitmap sg))"

lemma collect_results_length: "collect_results rs = Inr xs \<Longrightarrow> length xs = length rs"
  by (induction rs arbitrary: xs) (auto simp: and_then_eq_Inr_iff)

lemma length_chunks_exact [simp]: "length (chunks_exact n bs) = length bs div n"
  by (simp add: chunks_exact_def)

lemma try_from_wf:
  assumes "multi_signature_try_from try_from sig_size bs = Inr sg" and "BITMAP_NUM_OF_BYTES < sig_size"
  shows "wf_signature sg"
proof -
  have "BITMAP_NUM_OF_BYTES \<le> length bs" if "length bs mod sig_size = BITMAP_NUM_OF_BYTES"
    using that mod_less_eq_dividend [of "length bs" sig_size] by simp
  with assms(1) show ?thesis
    by (auto simp: multi_signature_try_from_def wf_signature_def and_then_eq_Inr_iff Let_def count_positions
        dest: collect_results_length split: if_splits)
qed

lemma mark_indexes_ok:
  assumes "length bm = BITMAP_NUM_OF_BYTES"
  shows "mark_indexes ix bm \<noteq> Panic \<and>
    (\<forall>bm'. mark_indexes ix bm = Ret (Inr bm') \<longrightarrow>
       length bm' = BITMAP_NUM_OF_BYTES \<and> distinct ix \<and> (\<forall>i\<in>set ix. unat i < 32 \<and> \<not> bit_at bm (unat i)) \<and>
       (\<forall>j. bit_at bm' j \<longleftrightarrow> bit_at bm j \<or> j \<in> unat ` set ix))"
  using assms
proof (induction ix arbitrary: bm)
  case (Cons i ix)
  show ?case
  proof (cases "i < word_of_nat MAX_NUM_OF_KEYS")
    case True
    then have i: "unat i < 32" by (simp add: MAX_NUM_OF_KEYS_def word_less_nat_alt)
    obtain bm1 where bm1: "bitmap_set_bit bm (unat i) = Ret bm1" "length bm1 = BITMAP_NUM_OF_BYTES"
        "\<And>j. bit_at bm1 j \<longleftrightarrow> j = unat i \<or> bit_at bm j"
      using set_bit_at [OF Cons.prems i] by blast
    show ?thesis
      using Cons.IH [OF bm1(2)] Cons.prems True i bm1(1,3) by (auto simp: get_bit_at)
  qed simp
qed simp

lemma bit_at_zero: "\<not> bit_at (replicate n 0) i"
  by (simp add: bit_at_def)

text \<open>The bits set by construction are the sorted indexes, so signature and key meet.\<close>

lemma new_positions:
  assumes "multi_signature_new sigs = Ret (Inr sg)"
  shows "wf_signature sg" and "positions (key_bitmap sg) = map unat (map snd (sort_key snd sigs))"
proof -
  let ?ix = "map snd (sort_key snd sigs)"
  obtain bm where bm: "mark_indexes ?ix (replicate BITMAP_NUM_OF_BYTES 0) = Ret (Inr bm)"
      and sg: "sg = \<lparr>signatures = map fst (sort_key snd sigs), key_bitmap = bm\<rparr>" and ne: "sigs \<noteq> []"
    using assms by (auto simp: multi_signature_new_def Let_def out_try_ok split: if_splits)
  have m: "length bm = BITMAP_NUM_OF_BYTES" "distinct ?ix" "\<forall>i\<in>set ?ix. unat i < 32"
      "\<And>j. bit_at bm j \<longleftrightarrow> j \<in> unat ` set ?ix"
    using mark_indexes_ok [of "replicate BITMAP_NUM_OF_BYTES 0" ?ix] bm by (simp_all add: bit_at_zero)
  have "sorted (map unat ?ix)"
    using sorted_sort_key [of snd sigs] by (simp add: sorted_map word_le_nat_alt del: sorted_sort_key)
  moreover have "distinct (map unat ?ix)"
    using m(2) unfolding distinct_map [of unat] by (simp add: inj_on_def word_unat_eq_iff)
  moreover have "set (positions bm) = set (map unat ?ix)"
    using m by (auto simp: BITMAP_NUM_OF_BYTES_def)
  ultimately have pos: "positions bm = map unat ?ix"
    by (intro sorted_distinct_set_unique) (simp_all add: sorted_wrt_filter)
  then show "positions (key_bitmap sg) = map unat ?ix" using sg by simp
  have "length (positions bm) = length sigs" by (simp add: pos)
  moreover have "sort_key snd sigs \<noteq> []" using ne by (metis length_0_conv length_sort)
  ultimately show "wf_signature sg" using sg m(1) by (simp add: wf_signature_def)
qed

section \<open>What verification accepts\<close>

lemma verify_wf_iff:
  assumes "wf_signature sg"
  shows "multi_verify_arbitrary_msg verify sg m pk \<noteq> Panic \<and>
    (multi_verify_arbitrary_msg verify sg m pk = Ret (Inr ()) \<longleftrightarrow>
       unat (threshold pk) \<le> length (positions (key_bitmap sg)) \<and> (\<forall>p\<in>set (positions (key_bitmap sg)). p < length (keys pk)) \<and>
       list_all2 (\<lambda>s p. verify s m (keys pk ! p) = Inr ()) (signatures sg) (positions (key_bitmap sg)))"
proof -
  let ?bm = "key_bitmap sg"
  have len: "length ?bm = BITMAP_NUM_OF_BYTES" "length (signatures sg) = length (positions ?bm)" "positions ?bm \<noteq> []"
    using assms by (auto simp: wf_signature_def)
  obtain l where l: "bitmap_last_set_bit ?bm = Some l" "bit_at ?bm (unat l)" "\<forall>i. bit_at ?bm i \<longrightarrow> i \<le> unat l"
    using last_set_bit_position [OF len(1)] len(3) by (auto split: option.splits)
  have range: "unat l < length (keys pk) \<longleftrightarrow> (\<forall>p\<in>set (positions ?bm). p < length (keys pk))"
    using l(2,3) bit_at_bound [OF l(2)] by (auto intro: le_less_trans)
  show ?thesis
  proof (cases "unat l < length (keys pk)")
    case True
    with range verify_loop_iff [OF len(1) refl len(2), of "keys pk" verify m] l(1) show ?thesis
      by (auto simp: multi_verify_arbitrary_msg_def count_positions)
  next
    case False
    with range l(1) show ?thesis by (simp add: multi_verify_arbitrary_msg_def)
  qed
qed

lemma verified_keys:
  fixes n :: nat
  assumes "distinct ps" and "\<forall>p\<in>set ps. p < n" and "list_all2 V ss ps"
  shows "length ps \<le> card {p. p < n \<and> (\<exists>s\<in>set ss. V s p)}"
proof -
  have "\<exists>s\<in>set ss. V s p" if p: "p \<in> set ps" for p
  proof -
    obtain i where i: "i < length ps" "p = ps ! i" using p by (auto simp: in_set_conv_nth)
    then have "V (ss ! i) p" and "ss ! i \<in> set ss" using assms(3) by (auto simp: list_all2_conv_all_nth)
    then show ?thesis ..
  qed
  with assms(2) have sub: "set ps \<subseteq> {p. p < n \<and> (\<exists>s\<in>set ss. V s p)}" by auto
  have "finite {p. p < n \<and> (\<exists>s\<in>set ss. V s p)}" by (rule finite_subset [of _ "{..<n}"]) auto
  from card_mono [OF this sub] have "card (set ps) \<le> card {p. p < n \<and> (\<exists>s\<in>set ss. V s p)}" .
  with assms(1) show ?thesis by (simp add: distinct_card)
qed

text \<open>
  C13. A signature read from bytes or put together from indexed signatures is verified without a panic, and it is accepted
  exactly when the keys marked in its bitmap exist, are at least as many as the threshold, and each of them verifies its own
  signature of the message; so at least threshold many different keys have signed.
\<close>

theorem multi_signature_threshold:
  assumes "multi_signature_try_from try_from sig_size bs = Inr sg \<or> multi_signature_new sigs = Ret (Inr sg)"
    and "BITMAP_NUM_OF_BYTES < sig_size"
  shows "multi_verify_arbitrary_msg verify sg m pk \<noteq> Panic \<and>
    (multi_verify_arbitrary_msg verify sg m pk = Ret (Inr ()) \<longleftrightarrow>
       unat (threshold pk) \<le> length (positions (key_bitmap sg)) \<and> (\<forall>p\<in>set (positions (key_bitmap sg)). p < length (keys pk)) \<and>
       list_all2 (\<lambda>s p. verify s m (keys pk ! p) = Inr ()) (signatures sg) (positions (key_bitmap sg))) \<and>
    (multi_verify_arbitrary_msg verify sg m pk = Ret (Inr ()) \<longrightarrow>
       unat (threshold pk) \<le> card {p. p < length (keys pk) \<and> (\<exists>s\<in>set (signatures sg). verify s m (keys pk ! p) = Inr ())})"
proof -
  from assms(1) have "wf_signature sg"
  proof
    assume "multi_signature_try_from try_from sig_size bs = Inr sg"
    from this assms(2) show ?thesis by (rule try_from_wf)
  qed (rule new_positions(1))
  note iff = verify_wf_iff [OF this, of verify m pk]
  have count: "unat (threshold pk) \<le> card {p. p < length (keys pk) \<and> (\<exists>s\<in>set (signatures sg). verify s m (keys pk ! p) = Inr ())}"
    if "multi_verify_arbitrary_msg verify sg m pk = Ret (Inr ())"
  proof -
    note ok = iff [THEN conjunct2, THEN iffD1, OF that]
    have "distinct (positions (key_bitmap sg))" by simp
    from verified_keys [OF this ok [THEN conjunct2, THEN conjunct1] ok [THEN conjunct2, THEN conjunct2]] ok [THEN conjunct1]
    show ?thesis by (rule le_trans [rotated])
  qed
  show ?thesis by (rule conjI [OF iff [THEN conjunct1] conjI [OF iff [THEN conjunct2] impI [OF count]]])
qed

text \<open>
  C40. Verification counts the bits of the bitmap, not the signatures: a value that \<^verbatim>\<open>new_with_signatures_and_bitmap\<close> builds
  from no signature at all and a bitmap that marks enough keys is accepted for every message, whatever the keys are.
\<close>

theorem multi_signature_without_signatures:
  assumes "length bm = BITMAP_NUM_OF_BYTES" and "positions bm \<noteq> []" and "unat (threshold pk) \<le> length (positions bm)"
    and "\<forall>p\<in>set (positions bm). p < length (keys pk)"
  shows "multi_verify_arbitrary_msg verify (new_with_signatures_and_bitmap [] bm) m pk = Ret (Inr ())"
proof -
  obtain l where "bitmap_last_set_bit bm = Some l" "bit_at bm (unat l)"
    using last_set_bit_position [OF assms(1)] assms(2) by (auto split: option.splits)
  moreover from this(2) have "unat l < length (keys pk)" using assms(4) bit_at_bound by simp
  ultimately show ?thesis
    using assms(3) by (simp add: multi_verify_arbitrary_msg_def new_with_signatures_and_bitmap_def count_positions)
qed

section \<open>Byte forms\<close>

lemma length_concat_const: "\<forall>x\<in>set xs. length (f x) = n \<Longrightarrow> length (concat (map f xs)) = length xs * n"
  by (induction xs) simp_all

lemma chunks_exact_concat:
  assumes "\<forall>x\<in>set xs. length (f x) = n" and "length rest < n"
  shows "chunks_exact n (concat (map f xs) @ rest) = map f xs"
proof -
  have chunk: "take n (drop (i * n) (concat (map f xs) @ rest)) = f (xs ! i)" if "i < length xs" for i
    using assms(1) that
  proof (induction xs arbitrary: i)
    case (Cons x xs)
    then show ?case by (cases i) simp_all
  qed simp
  have "length (concat (map f xs) @ rest) div n = length xs"
    using length_concat_const [OF assms(1)] assms(2) by simp
  then have "chunks_exact n (concat (map f xs) @ rest) = map (\<lambda>i. f (xs ! i)) [0..<length xs]"
    unfolding chunks_exact_def using chunk by (intro map_cong) simp_all
  also have "\<dots> = map f xs" by (rule nth_equalityI) simp_all
  finally show ?thesis .
qed

lemma collect_results_map: "\<forall>x\<in>set xs. g (f x) = Inr x \<Longrightarrow> collect_results (map g (map f xs)) = Inr xs"
  by (induction xs) simp_all

text \<open>
  Keys made by the checked constructor and signatures put together from indexed signatures are read back from their byte
  forms, when the keys and signatures they consist of have byte forms of fixed sizes that are read back.
\<close>

theorem multi_bytes_roundtrip:
  assumes "multi_key_new ks t = Inr k" and "\<forall>x\<in>set ks. length (key_bytes x) = key_size \<and> key_from (key_bytes x) = Inr x"
    and "1 < key_size"
    and "multi_signature_new sigs = Ret (Inr sg)"
    and "\<forall>x\<in>fst ` set sigs. length (sig_bytes x) = sig_size \<and> sig_from (sig_bytes x) = Inr x"
    and "BITMAP_NUM_OF_BYTES < sig_size"
  shows "multi_key_try_from key_from key_size (keys_to_bytes key_bytes k) = Inr k \<and>
    multi_signature_try_from sig_from sig_size (multi_signature_to_bytes sig_bytes sg) = Inr sg"
proof
  have k: "k = \<lparr>keys = ks, threshold = t\<rparr>" "t \<noteq> 0" "unat t \<le> length ks" "length ks \<le> MAX_NUM_OF_KEYS"
    using assms(1) by (auto simp: multi_key_new_def Let_def split: if_splits)
  have len: "length (concat (map key_bytes ks)) = length ks * key_size" using assms(2) by (intro length_concat_const) simp
  have "\<not> word_of_nat (length ks) < t"
    using k(3,4) by (simp add: word_less_nat_alt unat_of_nat MAX_NUM_OF_KEYS_def)
  moreover have "length ks \<noteq> 0" using k(2,3) by (auto simp: unat_eq_0)
  moreover have "Suc (length ks * key_size) div key_size = length ks"
    using div_mult_self1 [of key_size 1 "length ks"] assms(3) by simp
  ultimately have "check_and_get_threshold (keys_to_bytes key_bytes k) key_size = Inr t"
    using k len assms(3) by (simp add: check_and_get_threshold_def keys_to_bytes_def Let_def mod_Suc)
  moreover have "collect_results (map key_from (chunks_exact key_size (keys_to_bytes key_bytes k))) = Inr ks"
    using k(1) chunks_exact_concat [of ks key_bytes key_size "[t]"] collect_results_map [of ks key_from key_bytes] assms(2,3)
    by (simp add: keys_to_bytes_def)
  ultimately show "multi_key_try_from key_from key_size (keys_to_bytes key_bytes k) = Inr k"
    using k(1) by (simp add: multi_key_try_from_def keys_to_bytes_def)
next
  have wf: "wf_signature sg" by (rule new_positions(1) [OF assms(4)])
  have sub: "set (signatures sg) \<subseteq> fst ` set sigs" "length (signatures sg) \<le> MAX_NUM_OF_KEYS"
    using assms(4) by (auto simp: multi_signature_new_def Let_def out_try_ok split: if_splits)
  have len: "length (concat (map sig_bytes (signatures sg))) = length (signatures sg) * sig_size"
    using assms(5) sub(1) by (intro length_concat_const) auto
  have positions: "positions (key_bitmap sg) \<noteq> []" using wf by (auto simp: wf_signature_def)
  have bm: "length (key_bitmap sg) < sig_size" using wf assms(6) by (simp add: wf_signature_def)
  have "chunks_exact sig_size (multi_signature_to_bytes sig_bytes sg) = map sig_bytes (signatures sg)"
    unfolding multi_signature_to_bytes_def using assms(5) sub(1) bm by (intro chunks_exact_concat) auto
  moreover have "collect_results (map sig_from (map sig_bytes (signatures sg))) = Inr (signatures sg)"
    using assms(5) sub(1) by (intro collect_results_map) auto
  ultimately show "multi_signature_try_from sig_from sig_size (multi_signature_to_bytes sig_bytes sg) = Inr sg"
    using wf sub(2) len bm positions
    by (simp add: multi_signature_try_from_def multi_signature_to_bytes_def wf_signature_def count_positions Let_def
        del: map_map)
qed

section \<open>An example\<close>

text \<open>Keys and signatures are bytes here, and a key verifies the signature equal to it.\<close>

definition byte_verify :: "u8 \<Rightarrow> bytes \<Rightarrow> u8 \<Rightarrow> string + unit" where
  "byte_verify sg m pk = (if sg = pk then Inr () else Inl ''invalid'')"

definition two_of_three :: "u8 multi_key" where
  "two_of_three = \<lparr>keys = [5, 6, 7], threshold = 2\<rparr>"

definition two_signatures :: "u8 multi_signature" where
  "two_signatures = \<lparr>signatures = [5, 7], key_bitmap = [0b10100000, 0, 0, 0]\<rparr>"

lemma two_signatures_new: "multi_signature_new [(7, 2), (5, 0)] = Ret (Inr two_signatures)"
  by code_simp

lemma two_positions: "positions [0b10100000, 0, 0, 0] = [0, 2]"
  by code_simp

theorem multi_signature_threshold_witness:
  "multi_signature_new [(7, 2), (5, 0)] = Ret (Inr two_signatures) \<and>
   multi_verify_arbitrary_msg byte_verify two_signatures [1] two_of_three = Ret (Inr ()) \<and>
   multi_verify_arbitrary_msg byte_verify two_signatures [1] (two_of_three\<lparr>threshold := 3\<rparr>) \<noteq> Ret (Inr ())"
proof -
  note threshold = multi_signature_threshold [OF disjI2 [OF two_signatures_new], of 64 byte_verify "[1]", unfolded BITMAP_NUM_OF_BYTES_def]
  from threshold [of two_of_three] threshold [of "two_of_three\<lparr>threshold := 3\<rparr>"] two_signatures_new show ?thesis
    unfolding two_signatures_def multi_signature.simps two_positions
    by (simp add: two_of_three_def byte_verify_def)
qed

theorem multi_signature_without_signatures_witness:
  "multi_verify_arbitrary_msg byte_verify (new_with_signatures_and_bitmap [] [0b10100000, 0, 0, 0]) [1] two_of_three = Ret (Inr ())"
  by (rule multi_signature_without_signatures [of "[0b10100000, 0, 0, 0]", unfolded two_positions])
    (simp_all add: BITMAP_NUM_OF_BYTES_def two_of_three_def)

theorem multi_bytes_roundtrip_witness:
  "multi_key_try_from (\<lambda>bs. Inr (hd bs)) 32 (keys_to_bytes (replicate 32) two_of_three) = Inr two_of_three \<and>
   multi_signature_try_from (\<lambda>bs. Inr (hd bs)) 64 (multi_signature_to_bytes (replicate 64) two_signatures) = Inr two_signatures"
proof -
  have "multi_key_new [5, 6, 7] 2 = Inr two_of_three"
    by (simp add: multi_key_new_def two_of_three_def MAX_NUM_OF_KEYS_def)
  from multi_bytes_roundtrip [OF this _ _ two_signatures_new, of "replicate 32" 32 "\<lambda>bs. Inr (hd bs)" "replicate 64" 64 "\<lambda>bs. Inr (hd bs)"]
  show ?thesis by (simp add: BITMAP_NUM_OF_BYTES_def)
qed

end
