(* ===== verification/StorageGas.thy ===== *)
theory StorageGas
  imports ChangeSetExt "HOL-Library.Multiset"
begin

text \<open>
  The price of storage and of transactions (\<^verbatim>\<open>language/ol-gas/src/transaction/storage.rs\<close> and \<^verbatim>\<open>transaction/mod.rs\<close>): the two
  pricing schemes for reads and write sets, the limits on the size of a change set, and the intrinsic gas of a transaction.
  Quantities of gas come from the package \<^verbatim>\<open>move_core_types\<close>; their sum, product and checked difference are arguments.
  The byte form and the size of a state key are arguments as well.
\<close>

section \<open>Quantities and parameters\<close>

text \<open>The operations of \<^verbatim>\<open>GasQuantity\<close>, and what is documented of them: sum and product saturate.\<close>

record gas_algebra =
  g_add :: "u64 \<Rightarrow> u64 \<Rightarrow> u64"
  g_mul :: "u64 \<Rightarrow> u64 \<Rightarrow> u64"
  g_checked_sub :: "u64 \<Rightarrow> u64 \<Rightarrow> u64 option"

definition saturate :: "nat \<Rightarrow> u64" where
  "saturate n = word_of_nat (min n (2 ^ 64 - 1))"

definition gas_laws :: "gas_algebra \<Rightarrow> bool" where
  "gas_laws g \<longleftrightarrow>
     (\<forall>a b. g_add g a b = saturate (unat a + unat b)) \<and> (\<forall>a b. g_mul g a b = saturate (unat a * unat b)) \<and>
     (\<forall>a b. g_checked_sub g a b = (if b \<le> a then Some (a - b) else None))"

record txn_gas_params =
  min_transaction_gas_units :: u64
  large_transaction_cutoff :: u64
  intrinsic_gas_per_byte :: u64
  gas_unit_scaling_factor :: u64
  load_data_base :: u64
  load_data_per_byte :: u64
  load_data_failure :: u64
  write_data_per_op :: u64
  write_data_per_new_item :: u64
  write_data_per_byte_in_key :: u64
  write_data_per_byte_in_val :: u64
  txn_memory_quota :: u64
  txn_free_write_bytes_quota :: u64
  txn_max_bytes_per_write_op :: u64
  txn_max_bytes_all_write_ops :: u64
  txn_max_bytes_per_event :: u64
  txn_max_bytes_all_events :: u64

definition scaling_factor :: "txn_gas_params \<Rightarrow> u64" where
  "scaling_factor p = (if gas_unit_scaling_factor p = 0 then 1 else gas_unit_scaling_factor p)"

definition calculate_intrinsic_gas :: "gas_algebra \<Rightarrow> txn_gas_params \<Rightarrow> u64 \<Rightarrow> u64 outcome" where
  "calculate_intrinsic_gas g p transaction_size =
     (let min_transaction_fee = min_transaction_gas_units p in
      if transaction_size > large_transaction_cutoff p
      then out_bind (expect (g_checked_sub g transaction_size (large_transaction_cutoff p))) (\<lambda>excess.
             Ret (g_add g min_transaction_fee (g_mul g excess (intrinsic_gas_per_byte p))))
      else Ret min_transaction_fee)"

text \<open>State keys: the byte form, which may fail, and the size.\<close>

record 'k key_info =
  key_encode :: "'k \<Rightarrow> bytes option"
  key_size :: "'k \<Rightarrow> nat"

section \<open>Pricing\<close>

record storage_pricing_v1 =
  v1_per_op :: u64
  v1_per_new_item :: u64
  v1_per_byte_in_key :: u64
  v1_per_byte_in_val :: u64
  v1_load_base :: u64
  v1_load_per_byte :: u64
  v1_load_failure :: u64

definition v1_new :: "txn_gas_params \<Rightarrow> storage_pricing_v1" where
  "v1_new p =
     \<lparr>v1_per_op = write_data_per_op p, v1_per_new_item = write_data_per_new_item p,
      v1_per_byte_in_key = write_data_per_byte_in_key p, v1_per_byte_in_val = write_data_per_byte_in_val p,
      v1_load_base = load_data_base p, v1_load_per_byte = load_data_per_byte p, v1_load_failure = load_data_failure p\<rparr>"

definition v1_calculate_read_gas :: "gas_algebra \<Rightarrow> storage_pricing_v1 \<Rightarrow> u64 option \<Rightarrow> u64" where
  "v1_calculate_read_gas g v loaded =
     g_add g (v1_load_base v)
       (case loaded of Some num_bytes \<Rightarrow> g_mul g (v1_load_per_byte v) num_bytes | None \<Rightarrow> v1_load_failure v)"

text \<open>The counters of operations, new items, key bytes and value bytes.\<close>

fun v1_count :: "gas_algebra \<Rightarrow> 'k key_info \<Rightarrow> storage_pricing_v1 \<Rightarrow> ('k \<times> write_op) list \<Rightarrow> u64 \<times> u64 \<times> u64 \<times> u64
    \<Rightarrow> (u64 \<times> u64 \<times> u64 \<times> u64) outcome" where
  "v1_count g ki v [] c = Ret c"
| "v1_count g ki v ((key, op) # ops) (num_ops, num_new, key_bytes, val_bytes) =
     (let num_ops = g_add g num_ops 1 in
      out_bind (if v1_per_byte_in_key v > 0
                then out_bind (expect (key_encode ki key)) (\<lambda>bs. Ret (g_add g key_bytes (word_of_nat (length bs))))
                else Ret key_bytes) (\<lambda>key_bytes.
        v1_count g ki v ops
          (case op of
             Creation data \<Rightarrow> (num_ops, g_add g num_new 1, key_bytes, g_add g val_bytes (word_of_nat (length data)))
           | Modification data \<Rightarrow> (num_ops, num_new, key_bytes, g_add g val_bytes (word_of_nat (length data)))
           | Deletion \<Rightarrow> (num_ops, num_new, key_bytes, val_bytes))))"

definition v1_calculate_write_set_gas ::
  "gas_algebra \<Rightarrow> 'k key_info \<Rightarrow> storage_pricing_v1 \<Rightarrow> ('k \<times> write_op) list \<Rightarrow> u64 outcome" where
  "v1_calculate_write_set_gas g ki v ops =
     out_bind (v1_count g ki v ops (0, 0, 0, 0)) (\<lambda>(num_ops, num_new_items, num_bytes_key, num_bytes_val).
       let cost_ops = g_mul g (v1_per_op v) num_ops;
           cost_new_items = g_mul g (v1_per_new_item v) num_new_items;
           cost_bytes = g_add g (g_mul g (v1_per_byte_in_key v) num_bytes_key) (g_mul g (v1_per_byte_in_val v) num_bytes_val) in
       Ret (g_add g (g_add g cost_ops cost_new_items) cost_bytes))"

record storage_gas_schedule =
  sched_item_read :: u64
  sched_item_create :: u64
  sched_item_write :: u64
  sched_byte_read :: u64
  sched_byte_create :: u64
  sched_byte_write :: u64

record storage_pricing_v2 =
  v2_feature_version :: u64
  v2_free_write_bytes_quota :: u64
  per_item_read :: u64
  per_item_create :: u64
  per_item_write :: u64
  per_byte_read :: u64
  per_byte_create :: u64
  per_byte_write :: u64

definition v2_new :: "u64 \<Rightarrow> storage_gas_schedule \<Rightarrow> txn_gas_params \<Rightarrow> storage_pricing_v2 outcome" where
  "v2_new feature_version schedule p =
     assert_that (feature_version > 0)
       \<lparr>v2_feature_version = feature_version,
        v2_free_write_bytes_quota =
          (if feature_version \<ge> 5 then txn_free_write_bytes_quota p else if feature_version \<ge> 3 then 1024 else 0),
        per_item_read = sched_item_read schedule, per_item_create = sched_item_create schedule,
        per_item_write = sched_item_write schedule, per_byte_read = sched_byte_read schedule,
        per_byte_create = sched_byte_create schedule, per_byte_write = sched_byte_write schedule\<rparr>"

definition write_op_size :: "gas_algebra \<Rightarrow> 'k key_info \<Rightarrow> storage_pricing_v2 \<Rightarrow> 'k \<Rightarrow> bytes \<Rightarrow> u64 outcome" where
  "write_op_size g ki v key data =
     (let value_size = word_of_nat (length data) in
      if v2_feature_version v \<ge> 3
      then Ret (case g_checked_sub g (g_add g (word_of_nat (key_size ki key)) value_size) (v2_free_write_bytes_quota v) of
                  Some n \<Rightarrow> n | None \<Rightarrow> 0)
      else out_bind (expect (key_encode ki key)) (\<lambda>bs. Ret (g_add g (word_of_nat (length bs)) value_size)))"

definition v2_calculate_read_gas :: "gas_algebra \<Rightarrow> storage_pricing_v2 \<Rightarrow> u64 option \<Rightarrow> u64" where
  "v2_calculate_read_gas g v loaded =
     g_add g (g_mul g (per_item_read v) 1)
       (case loaded of Some num_bytes \<Rightarrow> g_mul g (per_byte_read v) num_bytes | None \<Rightarrow> 0)"

text \<open>The counters of created and written items, and of created and written bytes.\<close>

fun v2_count :: "gas_algebra \<Rightarrow> 'k key_info \<Rightarrow> storage_pricing_v2 \<Rightarrow> ('k \<times> write_op) list \<Rightarrow> u64 \<times> u64 \<times> u64 \<times> u64
    \<Rightarrow> (u64 \<times> u64 \<times> u64 \<times> u64) outcome" where
  "v2_count g ki v [] c = Ret c"
| "v2_count g ki v ((key, Creation data) # ops) (ic, iw, bc, bw) =
     out_bind (write_op_size g ki v key data) (\<lambda>n. v2_count g ki v ops (g_add g ic 1, iw, g_add g bc n, bw))"
| "v2_count g ki v ((key, Modification data) # ops) (ic, iw, bc, bw) =
     out_bind (write_op_size g ki v key data) (\<lambda>n. v2_count g ki v ops (ic, g_add g iw 1, bc, g_add g bw n))"
| "v2_count g ki v ((key, Deletion) # ops) c = v2_count g ki v ops c"

definition v2_calculate_write_set_gas ::
  "gas_algebra \<Rightarrow> 'k key_info \<Rightarrow> storage_pricing_v2 \<Rightarrow> ('k \<times> write_op) list \<Rightarrow> u64 outcome" where
  "v2_calculate_write_set_gas g ki v ops =
     out_bind (v2_count g ki v ops (0, 0, 0, 0)) (\<lambda>(ic, iw, bc, bw).
       Ret (g_add g (g_add g (g_add g (g_mul g ic (per_item_create v)) (g_mul g iw (per_item_write v)))
              (g_mul g bc (per_byte_create v))) (g_mul g bw (per_byte_write v))))"

datatype storage_pricing = PricingV1 storage_pricing_v1 | PricingV2 storage_pricing_v2

fun calculate_read_gas :: "gas_algebra \<Rightarrow> storage_pricing \<Rightarrow> u64 option \<Rightarrow> u64" where
  "calculate_read_gas g (PricingV1 v1) loaded = v1_calculate_read_gas g v1 loaded"
| "calculate_read_gas g (PricingV2 v2) loaded = v2_calculate_read_gas g v2 loaded"

fun calculate_write_set_gas :: "gas_algebra \<Rightarrow> 'k key_info \<Rightarrow> storage_pricing \<Rightarrow> ('k \<times> write_op) list \<Rightarrow> u64 outcome" where
  "calculate_write_set_gas g ki (PricingV1 v1) ops = v1_calculate_write_set_gas g ki v1 ops"
| "calculate_write_set_gas g ki (PricingV2 v2) ops = v2_calculate_write_set_gas g ki v2 ops"

section \<open>Limits of a change set\<close>

record change_set_configs =
  gas_feature_version :: u64
  max_bytes_per_write_op :: u64
  max_bytes_all_write_ops_per_transaction :: u64
  max_bytes_per_event :: u64
  max_bytes_all_events_per_transaction :: u64

definition configs_new_impl :: "u64 \<Rightarrow> u64 \<Rightarrow> u64 \<Rightarrow> u64 \<Rightarrow> u64 \<Rightarrow> change_set_configs" where
  "configs_new_impl version per_op all_ops per_event all_events =
     \<lparr>gas_feature_version = version, max_bytes_per_write_op = per_op, max_bytes_all_write_ops_per_transaction = all_ops,
      max_bytes_per_event = per_event, max_bytes_all_events_per_transaction = all_events\<rparr>"

definition unlimited_at_gas_feature_version :: "u64 \<Rightarrow> change_set_configs" where
  "unlimited_at_gas_feature_version version = configs_new_impl version (- 1) (- 1) (- 1) (- 1)"

definition for_feature_version_3 :: change_set_configs where
  "for_feature_version_3 = (let MB = push_bit 20 1 in configs_new_impl 3 MB (- 1) MB (push_bit 10 MB))"

definition from_gas_params :: "u64 \<Rightarrow> txn_gas_params \<Rightarrow> change_set_configs" where
  "from_gas_params version p =
     configs_new_impl version (txn_max_bytes_per_write_op p) (txn_max_bytes_all_write_ops p) (txn_max_bytes_per_event p)
       (txn_max_bytes_all_events p)"

definition configs_new :: "u64 \<Rightarrow> txn_gas_params \<Rightarrow> change_set_configs" where
  "configs_new feature_version p =
     (if feature_version \<ge> 5 then from_gas_params feature_version p
      else if feature_version \<ge> 3 then for_feature_version_3
      else unlimited_at_gas_feature_version feature_version)"

definition creation_as_modification :: "change_set_configs \<Rightarrow> bool" where
  "creation_as_modification c \<longleftrightarrow> gas_feature_version c < 3"

definition write_limit_error :: string where
  "write_limit_error = ''STORAGE_WRITE_LIMIT_REACHED''"

fun check_write_ops :: "change_set_configs \<Rightarrow> ('k \<Rightarrow> nat) \<Rightarrow> u64 \<Rightarrow> ('k \<times> write_op) list \<Rightarrow> (string + unit) outcome" where
  "check_write_ops c ksize write_set_size [] = Ret (Inr ())"
| "check_write_ops c ksize write_set_size ((key, op) # ops) =
     out_try
       (case op of
          Deletion \<Rightarrow> Ret (Inr write_set_size)
        | Creation data \<Rightarrow>
            let n = word_of_nat (length data + ksize key) in
            if n > max_bytes_per_write_op c then Ret (Inl write_limit_error)
            else out_bind (word_add write_set_size n) (\<lambda>s. Ret (Inr s))
        | Modification data \<Rightarrow>
            let n = word_of_nat (length data + ksize key) in
            if n > max_bytes_per_write_op c then Ret (Inl write_limit_error)
            else out_bind (word_add write_set_size n) (\<lambda>s. Ret (Inr s)))
       (\<lambda>write_set_size.
          if write_set_size > max_bytes_all_write_ops_per_transaction c then Ret (Inl write_limit_error)
          else check_write_ops c ksize write_set_size ops)"

fun check_events :: "change_set_configs \<Rightarrow> ('ev \<Rightarrow> bytes) \<Rightarrow> u64 \<Rightarrow> 'ev list \<Rightarrow> (string + unit) outcome" where
  "check_events c event_data total_event_size [] = Ret (Inr ())"
| "check_events c event_data total_event_size (event # events) =
     (let n = word_of_nat (length (event_data event)) in
      if n > max_bytes_per_event c then Ret (Inl write_limit_error)
      else out_bind (word_add total_event_size n) (\<lambda>total_event_size.
             if total_event_size > max_bytes_all_events_per_transaction c then Ret (Inl write_limit_error)
             else check_events c event_data total_event_size events))"

definition check_change_set ::
  "('k \<Rightarrow> nat) \<Rightarrow> ('ev \<Rightarrow> bytes) \<Rightarrow> change_set_configs \<Rightarrow> ('k, 'ev) change_set \<Rightarrow> (string + unit) outcome" where
  "check_change_set ksize event_data c cs =
     out_try (check_write_ops c ksize 0 (into_mut (cs_write_set cs))) (\<lambda>_.
       check_events c event_data 0 (cs_events cs))"

section \<open>All parameters of storage\<close>

record storage_gas_parameters =
  pricing :: storage_pricing
  change_set_limits :: change_set_configs

definition LATEST_GAS_FEATURE_VERSION :: u64 where
  "LATEST_GAS_FEATURE_VERSION = 6"

definition storage_gas_parameters_new ::
  "u64 \<Rightarrow> txn_gas_params option \<Rightarrow> storage_gas_schedule option \<Rightarrow> storage_gas_parameters option outcome" where
  "storage_gas_parameters_new feature_version gas_params schedule =
     (case gas_params of
        None \<Rightarrow> Ret None
      | Some p \<Rightarrow>
          if feature_version = 0 then Ret None
          else out_bind (case schedule of
                           Some sch \<Rightarrow> out_bind (v2_new feature_version sch p) (\<lambda>v. Ret (PricingV2 v))
                         | None \<Rightarrow> Ret (PricingV1 (v1_new p)))
                 (\<lambda>pr. Ret (Some \<lparr>pricing = pr, change_set_limits = configs_new feature_version p\<rparr>)))"

definition schedule_zeros :: storage_gas_schedule where
  "schedule_zeros =
     \<lparr>sched_item_read = 0, sched_item_create = 0, sched_item_write = 0, sched_byte_read = 0, sched_byte_create = 0,
      sched_byte_write = 0\<rparr>"

definition txn_zeros :: txn_gas_params where
  "txn_zeros =
     \<lparr>min_transaction_gas_units = 0, large_transaction_cutoff = 0, intrinsic_gas_per_byte = 0, gas_unit_scaling_factor = 0,
      load_data_base = 0, load_data_per_byte = 0, load_data_failure = 0, write_data_per_op = 0, write_data_per_new_item = 0,
      write_data_per_byte_in_key = 0, write_data_per_byte_in_val = 0, txn_memory_quota = 0, txn_free_write_bytes_quota = 0,
      txn_max_bytes_per_write_op = 0, txn_max_bytes_all_write_ops = 0, txn_max_bytes_per_event = 0,
      txn_max_bytes_all_events = 0\<rparr>"

definition free_and_unlimited :: "storage_gas_parameters outcome" where
  "free_and_unlimited =
     out_bind (v2_new LATEST_GAS_FEATURE_VERSION schedule_zeros txn_zeros) (\<lambda>v.
       Ret \<lparr>pricing = PricingV2 v, change_set_limits = unlimited_at_gas_feature_version LATEST_GAS_FEATURE_VERSION\<rparr>)"

section \<open>What the limits admit\<close>

definition write_size :: "('k \<Rightarrow> nat) \<Rightarrow> 'k \<times> write_op \<Rightarrow> nat" where
  "write_size ksize x = (case x of (key, op) \<Rightarrow>
     case op of Creation data \<Rightarrow> length data + ksize key | Modification data \<Rightarrow> length data + ksize key | Deletion \<Rightarrow> 0)"

abbreviation write_sizes :: "('k \<Rightarrow> nat) \<Rightarrow> ('k \<times> write_op) list \<Rightarrow> nat list" where
  "write_sizes ksize ops \<equiv> map (write_size ksize) ops"

abbreviation event_sizes :: "('ev \<Rightarrow> bytes) \<Rightarrow> 'ev list \<Rightarrow> nat list" where
  "event_sizes event_data events \<equiv> map (\<lambda>ev. length (event_data ev)) events"

definition sizes_within :: "u64 \<Rightarrow> u64 \<Rightarrow> nat list \<Rightarrow> bool" where
  "sizes_within each all ns \<longleftrightarrow> (\<forall>n\<in>set ns. n \<le> unat each) \<and> sum_list ns \<le> unat all"

text \<open>One step of either loop: a size is compared with the limit for one item, then the sum with the limit for all.\<close>

lemma add_size:
  fixes s :: u64
  assumes "unat s + n < 2 ^ 64"
  shows "unat (word_of_nat n :: u64) = n" and "word_add s (word_of_nat n) = Ret (s + word_of_nat n)"
    and "unat (s + word_of_nat n) = unat s + n"
proof -
  show n: "unat (word_of_nat n :: u64) = n" using assms by (simp add: unat_of_nat)
  then show "unat (s + word_of_nat n) = unat s + n" using assms by (simp add: unat_word_ariths)
  then show "word_add s (word_of_nat n) = Ret (s + word_of_nat n)" using n assms by (simp add: word_add_def)
qed

lemma check_write_ops_iff:
  assumes "unat s + sum_list (write_sizes ksize ops) < 2 ^ 64"
    and "unat s \<le> unat (max_bytes_all_write_ops_per_transaction c)"
  shows "check_write_ops c ksize s ops =
    Ret (if (\<forall>n\<in>set (write_sizes ksize ops). n \<le> unat (max_bytes_per_write_op c))
            \<and> unat s + sum_list (write_sizes ksize ops) \<le> unat (max_bytes_all_write_ops_per_transaction c)
         then Inr () else Inl write_limit_error)"
  using assms
proof (induction ops arbitrary: s)
  case (Cons x ops)
  obtain key op where x: "x = (key, op)" by (cases x)
  let ?n = "write_size ksize x"
  have small: "unat s + ?n < 2 ^ 64" using Cons.prems(1) by simp
  note add = add_size [OF small]
  have step: "check_write_ops c ksize s (x # ops) =
    (if unat (max_bytes_per_write_op c) < ?n then Ret (Inl write_limit_error)
     else if unat (max_bytes_all_write_ops_per_transaction c) < unat s + ?n then Ret (Inl write_limit_error)
     else check_write_ops c ksize (s + word_of_nat ?n) ops)"
    using add Cons.prems(2) by (cases op) (simp_all add: x write_size_def word_less_nat_alt Let_def)
  show ?case
  proof (cases "unat (max_bytes_per_write_op c) < ?n \<or> unat (max_bytes_all_write_ops_per_transaction c) < unat s + ?n")
    case True
    then show ?thesis unfolding step by auto
  next
    case False
    with Cons.IH [of "s + word_of_nat ?n"] Cons.prems(1) add(3) show ?thesis unfolding step by (simp add: add.assoc)
  qed
qed simp

lemma check_events_iff:
  assumes "unat s + sum_list (event_sizes event_data events) < 2 ^ 64"
    and "unat s \<le> unat (max_bytes_all_events_per_transaction c)"
  shows "check_events c event_data s events =
    Ret (if (\<forall>n\<in>set (event_sizes event_data events). n \<le> unat (max_bytes_per_event c))
            \<and> unat s + sum_list (event_sizes event_data events) \<le> unat (max_bytes_all_events_per_transaction c)
         then Inr () else Inl write_limit_error)"
  using assms
proof (induction events arbitrary: s)
  case (Cons ev events)
  let ?n = "length (event_data ev)"
  have small: "unat s + ?n < 2 ^ 64" using Cons.prems(1) by simp
  note add = add_size [OF small]
  have step: "check_events c event_data s (ev # events) =
    (if unat (max_bytes_per_event c) < ?n then Ret (Inl write_limit_error)
     else if unat (max_bytes_all_events_per_transaction c) < unat s + ?n then Ret (Inl write_limit_error)
     else check_events c event_data (s + word_of_nat ?n) events)"
    using add by (simp add: word_less_nat_alt Let_def)
  show ?case
  proof (cases "unat (max_bytes_per_event c) < ?n \<or> unat (max_bytes_all_events_per_transaction c) < unat s + ?n")
    case True
    then show ?thesis unfolding step by auto
  next
    case False
    with Cons.IH [of "s + word_of_nat ?n"] Cons.prems(1) add(3) show ?thesis unfolding step by (simp add: add.assoc)
  qed
qed simp

text \<open>The limits as the checker of a change set.\<close>

definition limits_checker :: "('k \<Rightarrow> nat) \<Rightarrow> ('ev \<Rightarrow> bytes) \<Rightarrow> change_set_configs \<Rightarrow> ('k, 'ev) checker" where
  "limits_checker ksize event_data c cs =
     (case check_change_set ksize event_data c cs of Ret r \<Rightarrow> r | Panic \<Rightarrow> Inl ''panic'')"

text \<open>
  C34. The check of a change set against the limits never panics when the sizes of its writes and of its events each add up to
  less than 2 to the 64, and it accepts exactly the change sets in which each write and each event, and all writes and all
  events together, stay within their limits; so \<^verbatim>\<open>ChangeSet::new\<close> with this check builds exactly those change sets.
\<close>

theorem change_set_limits_iff:
  assumes "sum_list (write_sizes ksize (into_mut ws)) < 2 ^ 64" and "sum_list (event_sizes event_data events) < 2 ^ 64"
  shows "(check_change_set ksize event_data c \<lparr>cs_write_set = ws, cs_events = events\<rparr> =
      Ret (if sizes_within (max_bytes_per_write_op c) (max_bytes_all_write_ops_per_transaction c) (write_sizes ksize (into_mut ws))
              \<and> sizes_within (max_bytes_per_event c) (max_bytes_all_events_per_transaction c) (event_sizes event_data events)
           then Inr () else Inl ''STORAGE_WRITE_LIMIT_REACHED'')) \<and>
    (change_set_new ws events (limits_checker ksize event_data c) =
      (if sizes_within (max_bytes_per_write_op c) (max_bytes_all_write_ops_per_transaction c) (write_sizes ksize (into_mut ws))
          \<and> sizes_within (max_bytes_per_event c) (max_bytes_all_events_per_transaction c) (event_sizes event_data events)
       then Inr \<lparr>cs_write_set = ws, cs_events = events\<rparr> else Inl ''STORAGE_WRITE_LIMIT_REACHED''))"
  using check_write_ops_iff [of 0 ksize "into_mut ws" c] check_events_iff [of 0 event_data events c] assms
  by (simp add: check_change_set_def sizes_within_def change_set_new_def limits_checker_def write_limit_error_def Let_def)

theorem change_set_limits_iff_witness:
  "change_set_new (V0 [(1 :: nat, Creation [1, 2, 3]), (2, Deletion)]) [[7 :: u8]] (limits_checker (\<lambda>_. 2) (\<lambda>ev. ev) (configs_new_impl 5 5 5 1 1))
     = Inr \<lparr>cs_write_set = V0 [(1, Creation [1, 2, 3]), (2, Deletion)], cs_events = [[7]]\<rparr> \<and>
   change_set_new (V0 [(1 :: nat, Creation [1, 2, 3]), (2, Deletion)]) [[7 :: u8], [8]] (limits_checker (\<lambda>_. 2) (\<lambda>ev. ev) (configs_new_impl 5 5 5 1 1))
     = Inl ''STORAGE_WRITE_LIMIT_REACHED''"
  using change_set_limits_iff [of "\<lambda>_. 2" "V0 [(1 :: nat, Creation [1, 2, 3]), (2, Deletion)]" "\<lambda>ev. ev" "[[7 :: u8]]" "configs_new_impl 5 5 5 1 1"]
    change_set_limits_iff [of "\<lambda>_. 2" "V0 [(1 :: nat, Creation [1, 2, 3]), (2, Deletion)]" "\<lambda>ev. ev" "[[7 :: u8], [8]]" "configs_new_impl 5 5 5 1 1"]
  by (simp add: sizes_within_def write_size_def configs_new_impl_def)

section \<open>What a write set costs\<close>

lemma unat_saturate: "unat (saturate n) = min n (2 ^ 64 - 1)"
  by (simp add: saturate_def unat_of_nat)

lemma saturate_0 [simp]: "saturate 0 = 0"
  by (simp add: saturate_def)

lemma saturate_unat [simp]: "saturate (unat a) = a"
proof -
  have "unat a < 2 ^ LENGTH(64)" by (rule unsigned_less)
  then show ?thesis by (simp add: saturate_def min_absorb1 of_nat_unat)
qed

lemma saturate_add: "saturate (unat (saturate a) + unat (saturate b)) = saturate (a + b)"
  unfolding unat_saturate by (simp add: saturate_def min_def)

lemma saturate_mul: "saturate (unat (saturate a) * b) = saturate (a * b)"
proof (cases "a \<le> 2 ^ 64 - 1")
  case True
  then show ?thesis by (simp add: unat_saturate min_absorb1)
next
  case False
  show ?thesis
  proof (cases "b = 0")
    case False
    with \<open>\<not> a \<le> 2 ^ 64 - 1\<close> have "2 ^ 64 - 1 \<le> (2 ^ 64 - 1) * b" and "2 ^ 64 - 1 \<le> a * b"
      by (simp, metis mult.right_neutral mult_le_mono nat_le_linear less_one not_le)
    with \<open>\<not> a \<le> 2 ^ 64 - 1\<close> show ?thesis unfolding unat_saturate by (simp add: saturate_def)
  qed simp
qed

lemmas saturated = gas_laws_def unat_saturate saturate_add saturate_mul

text \<open>What a single operation costs, and the count of an operation in each of the counters.\<close>

definition size_counted :: "gas_algebra \<Rightarrow> 'k key_info \<Rightarrow> storage_pricing_v2 \<Rightarrow> 'k \<Rightarrow> bytes \<Rightarrow> nat" where
  "size_counted g ki v key data = (case write_op_size g ki v key data of Ret n \<Rightarrow> unat n | Panic \<Rightarrow> 0)"

fun op_gas :: "gas_algebra \<Rightarrow> 'k key_info \<Rightarrow> storage_pricing_v2 \<Rightarrow> 'k \<times> write_op \<Rightarrow> nat" where
  "op_gas g ki v (key, Creation data) = unat (per_item_create v) + size_counted g ki v key data * unat (per_byte_create v)"
| "op_gas g ki v (key, Modification data) = unat (per_item_write v) + size_counted g ki v key data * unat (per_byte_write v)"
| "op_gas g ki v (key, Deletion) = 0"

fun counts :: "gas_algebra \<Rightarrow> 'k key_info \<Rightarrow> storage_pricing_v2 \<Rightarrow> ('k \<times> write_op) list \<Rightarrow> nat \<times> nat \<times> nat \<times> nat" where
  "counts g ki v [] = (0, 0, 0, 0)"
| "counts g ki v ((key, Creation data) # ops) =
     (case counts g ki v ops of (a, b, c, d) \<Rightarrow> (a + 1, b, c + size_counted g ki v key data, d))"
| "counts g ki v ((key, Modification data) # ops) =
     (case counts g ki v ops of (a, b, c, d) \<Rightarrow> (a, b + 1, c, d + size_counted g ki v key data))"
| "counts g ki v ((key, Deletion) # ops) = counts g ki v ops"

definition keys_encode :: "'k key_info \<Rightarrow> storage_pricing_v2 \<Rightarrow> ('k \<times> write_op) list \<Rightarrow> bool" where
  "keys_encode ki v ops \<longleftrightarrow> v2_feature_version v \<ge> 3 \<or> (\<forall>x\<in>set ops. key_encode ki (fst x) \<noteq> None)"

lemma write_op_size_ok:
  assumes "keys_encode ki v ((key, op) # ops)"
  shows "write_op_size g ki v key data = Ret (saturate (size_counted g ki v key data))"
proof -
  have "\<exists>n. write_op_size g ki v key data = Ret n"
    using assms by (cases "v2_feature_version v \<ge> 3") (auto simp: write_op_size_def keys_encode_def Let_def)
  then show ?thesis by (auto simp: size_counted_def)
qed

lemma g_add_saturate:
  assumes "gas_laws g"
  shows "g_add g (saturate a) (saturate b) = saturate (a + b)" and "g_add g (saturate a) 1 = saturate (a + 1)"
    and "g_mul g (saturate a) p = saturate (a * unat p)"
proof -
  show add: "g_add g (saturate a) (saturate b) = saturate (a + b)" for b
    using assms by (simp add: gas_laws_def saturate_add)
  have "(1 :: u64) = saturate 1" by (simp add: saturate_def)
  then show "g_add g (saturate a) 1 = saturate (a + 1)" using add [of 1] by simp
  show "g_mul g (saturate a) p = saturate (a * unat p)" using assms by (simp add: gas_laws_def saturate_mul)
qed

lemma v2_count_ok:
  assumes "gas_laws g" and "keys_encode ki v ops" and "counts g ki v ops = (a, b, c, d)"
  shows "v2_count g ki v ops (saturate i, saturate j, saturate m, saturate n)
    = Ret (saturate (i + a), saturate (j + b), saturate (m + c), saturate (n + d))"
  using assms(2,3)
proof (induction ops arbitrary: i j m n a b c d)
  case (Cons x ops)
  obtain key op where x: "x = (key, op)" by (cases x)
  obtain a' b' c' d' where rest: "counts g ki v ops = (a', b', c', d')" by (metis prod_cases4)
  have "keys_encode ki v ops" using Cons.prems(1) by (auto simp: keys_encode_def)
  note IH = Cons.IH [OF this rest]
  note size = write_op_size_ok [OF Cons.prems(1) [unfolded x], of g]
  show ?case
    using Cons.prems(2) IH rest size
    by (cases op) (simp_all add: x g_add_saturate [OF assms(1)] del: One_nat_def, auto simp: algebra_simps)
qed simp

lemma counts_gas:
  "counts g ki v ops = (a, b, c, d) \<Longrightarrow>
   a * unat (per_item_create v) + b * unat (per_item_write v) + c * unat (per_byte_create v) + d * unat (per_byte_write v)
     = sum_list (map (op_gas g ki v) ops)"
proof (induction ops arbitrary: a b c d)
  case (Cons x ops)
  obtain key op where x: "x = (key, op)" by (cases x)
  obtain a' b' c' d' where rest: "counts g ki v ops = (a', b', c', d')" by (metis prod_cases4)
  show ?case using Cons.prems Cons.IH [OF rest] rest
    by (cases op) (auto simp: x algebra_simps)
qed simp

text \<open>
  C35. Under the second pricing scheme a write set costs the sum of what its operations cost, capped at the largest quantity
  of gas: a creation or modification pays for the item and for the bytes beyond the free quota, a deletion pays nothing.
  So the price does not depend on the order of the operations, and it is zero for a write set of deletions.
\<close>

theorem write_set_gas_is_capped_sum:
  assumes "gas_laws g" and "keys_encode ki v ops" and "mset ops' = mset ops"
  shows "calculate_write_set_gas g ki (PricingV2 v) ops = Ret (saturate (\<Sum>x\<leftarrow>ops. op_gas g ki v x)) \<and>
    calculate_write_set_gas g ki (PricingV2 v) ops' = calculate_write_set_gas g ki (PricingV2 v) ops \<and>
    (list_all (\<lambda>x. is_deletion (snd x)) ops \<longrightarrow> calculate_write_set_gas g ki (PricingV2 v) ops = Ret 0)"
proof -
  have gas: "calculate_write_set_gas g ki (PricingV2 v) xs = Ret (saturate (\<Sum>x\<leftarrow>xs. op_gas g ki v x))"
    if "keys_encode ki v xs" for xs
  proof -
    obtain a b c d where counts: "counts g ki v xs = (a, b, c, d)" by (metis prod_cases4)
    have "(0 :: u64) = saturate 0" by (simp add: saturate_def)
    with v2_count_ok [OF assms(1) that counts, of 0 0 0 0] counts_gas [OF counts] show ?thesis
      by (simp add: v2_calculate_write_set_gas_def g_add_saturate [OF assms(1)])
  qed
  moreover have "keys_encode ki v ops'"
    using assms(2,3) by (simp add: keys_encode_def set_mset_mset [symmetric] del: set_mset_mset)
  moreover have "(\<Sum>x\<leftarrow>ops'. op_gas g ki v x) = (\<Sum>x\<leftarrow>ops. op_gas g ki v x)"
    using assms(3) by (metis mset_map sum_mset_sum_list)
  moreover have "(\<Sum>x\<leftarrow>ops. op_gas g ki v x) = 0" if "list_all (\<lambda>x. is_deletion (snd x)) ops"
    using that by (induction ops) (auto elim!: is_deletion.elims)
  ultimately show ?thesis using assms(2) by (simp del: sum_list_eq_0_iff)
qed

text \<open>The saturating operations themselves.\<close>

definition saturating_algebra :: gas_algebra where
  "saturating_algebra =
     \<lparr>g_add = (\<lambda>a b. saturate (unat a + unat b)), g_mul = (\<lambda>a b. saturate (unat a * unat b)),
      g_checked_sub = (\<lambda>a b. if b \<le> a then Some (a - b) else None)\<rparr>"

lemma saturating_laws: "gas_laws saturating_algebra"
  by (simp add: gas_laws_def saturating_algebra_def)

definition sample_pricing :: storage_pricing_v2 where
  "sample_pricing =
     \<lparr>v2_feature_version = 5, v2_free_write_bytes_quota = 4, per_item_read = 1, per_item_create = 50, per_item_write = 20,
      per_byte_read = 1, per_byte_create = 3, per_byte_write = 2\<rparr>"

definition sample_keys :: "nat key_info" where
  "sample_keys = \<lparr>key_encode = (\<lambda>k. None), key_size = (\<lambda>k. k)\<rparr>"

theorem write_set_gas_is_capped_sum_witness:
  "calculate_write_set_gas saturating_algebra sample_keys (PricingV2 sample_pricing)
     [(1, Deletion), (2, Modification [9, 9]), (3, Creation [1, 1, 1])] = Ret 76 \<and>
   calculate_write_set_gas saturating_algebra sample_keys (PricingV2 sample_pricing)
     [(3, Creation [1, 1, 1]), (2, Modification [9, 9]), (1, Deletion)] = Ret 76"
proof -
  let ?ops = "[(1, Deletion), (2, Modification [9, 9]), (3, Creation [1, 1, 1])] :: (nat \<times> write_op) list"
  have keys: "keys_encode sample_keys sample_pricing ?ops" by (simp add: keys_encode_def sample_pricing_def)
  have "(\<Sum>x\<leftarrow>?ops. op_gas saturating_algebra sample_keys sample_pricing x) = 76"
    by (simp add: size_counted_def write_op_size_def sample_pricing_def sample_keys_def saturating_algebra_def saturate_def)
  with write_set_gas_is_capped_sum [OF saturating_laws keys, of "rev ?ops"] show ?thesis
    by (simp add: saturate_def)
qed

end
