(* ===== verification/GasMeter.thy ===== *)
theory GasMeter
  imports StorageGas
begin

text \<open>
  The gas meter of the virtual machine (\<^verbatim>\<open>language/ol-gas/src/gas_meter.rs\<close>): the balance, the memory quota and what each
  call of the \<^verbatim>\<open>GasMeter\<close> interface charges. The sizes of Move values (\<^verbatim>\<open>misc.rs\<close> over the value views of the Move virtual
  machine) and the price of the simple instructions (\<^verbatim>\<open>instr.rs\<close>) are arguments.
\<close>

section \<open>State\<close>

text \<open>The fields of \<^verbatim>\<open>InstructionGasParameters\<close> the meter itself reads; all are quantities of gas.\<close>

datatype instr_field =
  F_pop | F_call_base | F_call_per_arg | F_call_per_local
| F_call_generic_base | F_call_generic_per_ty_arg | F_call_generic_per_arg | F_call_generic_per_local
| F_ld_const_base | F_ld_const_per_byte | F_copy_loc_base | F_copy_loc_per_abs_val_unit | F_move_loc_base | F_st_loc_base
| F_pack_base | F_pack_per_field | F_pack_generic_base | F_pack_generic_per_field
| F_unpack_base | F_unpack_per_field | F_unpack_generic_base | F_unpack_generic_per_field
| F_read_ref_base | F_read_ref_per_abs_val_unit | F_write_ref_base
| F_eq_base | F_eq_per_abs_val_unit | F_neq_base | F_neq_per_abs_val_unit
| F_imm_borrow_global_base | F_imm_borrow_global_generic_base | F_mut_borrow_global_base | F_mut_borrow_global_generic_base
| F_exists_base | F_exists_generic_base | F_move_from_base | F_move_from_generic_base | F_move_to_base | F_move_to_generic_base
| F_vec_pack_base | F_vec_pack_per_elem | F_vec_unpack_base | F_vec_unpack_per_expected_elem
| F_vec_len_base | F_vec_imm_borrow_base | F_vec_mut_borrow_base | F_vec_push_back_base | F_vec_pop_back_base | F_vec_swap_base

record ('v, 'i, 'a) meter_env =
  algebra :: gas_algebra
  to_unit :: "u64 \<Rightarrow> u64 \<Rightarrow> u64"
  to_unit_round_down :: "u64 \<times> u64 \<Rightarrow> u64 \<Rightarrow> u64"
  abstract_heap_size :: "'v \<Rightarrow> u64 \<Rightarrow> u64"
  abstract_stack_size :: "'v \<Rightarrow> u64 \<Rightarrow> u64"
  abstract_stack_and_heap :: "'v \<Rightarrow> u64 \<Rightarrow> u64 \<times> u64"
  abstract_packed_size :: "'v \<Rightarrow> u64"
  abstract_size_dereferenced :: "'v \<Rightarrow> u64 \<Rightarrow> u64"
  simple_instr_cost :: "'i \<Rightarrow> string + u64"
  core_code_address :: 'a

record gas_meter =
  m_feature_version :: u64
  m_txn :: txn_gas_params
  m_instr :: "instr_field \<Rightarrow> u64"
  m_storage :: storage_gas_parameters
  m_balance :: u64
  m_quota :: u64
  leak_for_native :: bool

definition meter_new ::
  "('v, 'i, 'a) meter_env \<Rightarrow> u64 \<Rightarrow> txn_gas_params \<Rightarrow> (instr_field \<Rightarrow> u64) \<Rightarrow> storage_gas_parameters \<Rightarrow> u64 \<Rightarrow> gas_meter" where
  "meter_new env version txn ip storage balance =
     \<lparr>m_feature_version = version, m_txn = txn, m_instr = ip, m_storage = storage,
      m_balance = to_unit env (scaling_factor txn) balance, m_quota = txn_memory_quota txn, leak_for_native = False\<rparr>"

definition meter_balance :: "('v, 'i, 'a) meter_env \<Rightarrow> gas_meter \<Rightarrow> u64" where
  "meter_balance env m = to_unit_round_down env (1, scaling_factor (m_txn m)) (m_balance m)"

section \<open>Charging\<close>

type_synonym charged = "(string + unit) \<times> gas_meter"

definition charge :: "gas_algebra \<Rightarrow> u64 \<Rightarrow> gas_meter \<Rightarrow> charged" where
  "charge g amount m =
     (case g_checked_sub g (m_balance m) amount of
        Some new_balance \<Rightarrow> (Inr (), m\<lparr>m_balance := new_balance\<rparr>)
      | None \<Rightarrow> (Inl ''OUT_OF_GAS'', m\<lparr>m_balance := 0\<rparr>))"

definition use_heap_memory :: "gas_algebra \<Rightarrow> u64 \<Rightarrow> gas_meter \<Rightarrow> charged" where
  "use_heap_memory g amount m =
     (if m_feature_version m \<ge> 3
      then case g_checked_sub g (m_quota m) amount of
             Some remaining_quota \<Rightarrow> (Inr (), m\<lparr>m_quota := remaining_quota\<rparr>)
           | None \<Rightarrow> (Inl ''MEMORY_LIMIT_EXCEEDED'', m\<lparr>m_quota := 0\<rparr>)
      else (Inr (), m))"

definition release_heap_memory :: "gas_algebra \<Rightarrow> u64 \<Rightarrow> gas_meter \<Rightarrow> gas_meter" where
  "release_heap_memory g amount m =
     (if m_feature_version m \<ge> 3 then m\<lparr>m_quota := g_add g (m_quota m) amount\<rparr> else m)"

text \<open>The question mark after a charge: the rest runs when it succeeded.\<close>

definition and_charge :: "charged \<Rightarrow> (gas_meter \<Rightarrow> charged) \<Rightarrow> charged" where
  "and_charge r f = (case r of (Inr _, m) \<Rightarrow> f m | (Inl e, m) \<Rightarrow> (Inl e, m))"

definition add_sizes :: "gas_algebra \<Rightarrow> ('v \<Rightarrow> u64) \<Rightarrow> 'v list \<Rightarrow> u64" where
  "add_sizes g f vals = foldl (\<lambda>acc val. g_add g acc (f val)) 0 vals"

text \<open>The calls of the interface, with the arguments that the meter looks at.\<close>

datatype ('v, 'i, 'a) meter_call =
  SimpleInstr 'i | NativeBefore "'v list" | NativeFunction u64 "'v list option" | LoadResource "(u64 \<times> 'v) option"
| PopVal 'v | Call nat u64 | CallGeneric "'a \<times> string" nat nat u64 | LdConst u64 | LdConstAfter 'v | CopyLoc 'v | MoveLoc
| StoreLoc | Pack bool "'v list" | Unpack bool "'v list" | ReadRef 'v | WriteRef 'v | EqVals 'v 'v | NeqVals 'v 'v
| BorrowGlobal bool bool | ExistsRes bool | MoveFrom bool | MoveTo bool | VecPack "'v list" | VecUnpack u64 "'v list" | VecLen
| VecBorrow bool | VecPushBack 'v | VecPopBack "'v option" | VecSwap | DropFrame "'v list"

fun meter_step :: "('v, 'i, 'a) meter_env \<Rightarrow> ('v, 'i, 'a) meter_call \<Rightarrow> gas_meter \<Rightarrow> charged" where
  "meter_step env (SimpleInstr i) m =
     (case simple_instr_cost env i of Inl e \<Rightarrow> (Inl e, m) | Inr cost \<Rightarrow> charge (algebra env) cost m)"
| "meter_step env (NativeBefore args) m =
     (if leak_for_native m then (Inr (), m)
      else (Inr (), release_heap_memory (algebra env)
              (add_sizes (algebra env) (\<lambda>v. abstract_heap_size env v (m_feature_version m)) args) m))"
| "meter_step env (NativeFunction amount ret_vals) m =
     and_charge (case ret_vals of
                   None \<Rightarrow> (Inr (), m)
                 | Some vals \<Rightarrow> use_heap_memory (algebra env)
                     (add_sizes (algebra env) (\<lambda>v. abstract_heap_size env v (m_feature_version m)) vals) m)
       (charge (algebra env) amount)"
| "meter_step env (LoadResource loaded) m =
     and_charge (case loaded of
                   Some (_, val) \<Rightarrow>
                     if m_feature_version m \<noteq> 0
                     then use_heap_memory (algebra env) (abstract_heap_size env val (m_feature_version m)) m
                     else (Inr (), m)
                 | None \<Rightarrow> (Inr (), m))
       (charge (algebra env) (calculate_read_gas (algebra env) (pricing (m_storage m)) (map_option fst loaded)))"
| "meter_step env (PopVal val) m =
     charge (algebra env) (m_instr m F_pop)
       (release_heap_memory (algebra env) (abstract_heap_size env val (m_feature_version m)) m)"
| "meter_step env (Call num_args num_locals) m =
     (let g = algebra env; p = m_instr m;
          cost = g_add g (p F_call_base) (g_mul g (p F_call_per_arg) (word_of_nat num_args));
          cost = (if m_feature_version m \<ge> 3 then g_add g cost (g_mul g (p F_call_per_local) num_locals) else cost) in
      charge g cost m)"
| "meter_step env (CallGeneric module_id num_ty_args num_args num_locals) m =
     (let g = algebra env; p = m_instr m;
          leak = (fst module_id = core_code_address env \<and> snd module_id = ''table'' \<or>
                  m_feature_version m \<ge> 4 \<and> fst module_id = core_code_address env \<and> snd module_id = ''event'');
          cost = g_add g (g_add g (p F_call_generic_base) (g_mul g (p F_call_generic_per_ty_arg) (word_of_nat num_ty_args)))
                   (g_mul g (p F_call_generic_per_arg) (word_of_nat num_args));
          cost = (if m_feature_version m \<ge> 3 then g_add g cost (g_mul g (p F_call_generic_per_local) num_locals) else cost) in
      charge g cost (m\<lparr>leak_for_native := leak\<rparr>))"
| "meter_step env (LdConst n) m =
     charge (algebra env)
       (g_add (algebra env) (m_instr m F_ld_const_base) (g_mul (algebra env) (m_instr m F_ld_const_per_byte) n)) m"
| "meter_step env (LdConstAfter val) m =
     use_heap_memory (algebra env) (abstract_heap_size env val (m_feature_version m)) m"
| "meter_step env (CopyLoc val) m =
     (let g = algebra env; (stack, heap) = abstract_stack_and_heap env val (m_feature_version m) in
      and_charge (use_heap_memory g heap m)
        (charge g (g_add g (m_instr m F_copy_loc_base) (g_mul g (m_instr m F_copy_loc_per_abs_val_unit) (g_add g stack heap)))))"
| "meter_step env MoveLoc m = charge (algebra env) (m_instr m F_move_loc_base) m"
| "meter_step env StoreLoc m = charge (algebra env) (m_instr m F_st_loc_base) m"
| "meter_step env (Pack is_generic args) m =
     (let g = algebra env; n = word_of_nat (length args); p = m_instr m in
      and_charge (use_heap_memory g (add_sizes g (\<lambda>v. abstract_stack_size env v (m_feature_version m)) args) m)
        (charge g (if is_generic then g_add g (p F_pack_generic_base) (g_mul g (p F_pack_generic_per_field) n)
                   else g_add g (p F_pack_base) (g_mul g (p F_pack_per_field) n))))"
| "meter_step env (Unpack is_generic args) m =
     (let g = algebra env; n = word_of_nat (length args); p = m_instr m in
      charge g (if is_generic then g_add g (p F_unpack_generic_base) (g_mul g (p F_unpack_generic_per_field) n)
                else g_add g (p F_unpack_base) (g_mul g (p F_unpack_per_field) n))
        (release_heap_memory g (add_sizes g (\<lambda>v. abstract_stack_size env v (m_feature_version m)) args) m))"
| "meter_step env (ReadRef val) m =
     (let g = algebra env; (stack, heap) = abstract_stack_and_heap env val (m_feature_version m) in
      and_charge (use_heap_memory g heap m)
        (charge g (g_add g (m_instr m F_read_ref_base) (g_mul g (m_instr m F_read_ref_per_abs_val_unit) (g_add g stack heap)))))"
| "meter_step env (WriteRef old_val) m =
     charge (algebra env) (m_instr m F_write_ref_base)
       (release_heap_memory (algebra env) (abstract_heap_size env old_val (m_feature_version m)) m)"
| "meter_step env (EqVals lhs rhs) m =
     (let g = algebra env; fv = m_feature_version m;
          m' = release_heap_memory g (abstract_heap_size env rhs fv) (release_heap_memory g (abstract_heap_size env lhs fv) m) in
      charge g (g_add g (m_instr m F_eq_base) (g_mul g (m_instr m F_eq_per_abs_val_unit)
                  (g_add g (abstract_size_dereferenced env lhs fv) (abstract_size_dereferenced env rhs fv)))) m')"
| "meter_step env (NeqVals lhs rhs) m =
     (let g = algebra env; fv = m_feature_version m;
          m' = release_heap_memory g (abstract_heap_size env rhs fv) (release_heap_memory g (abstract_heap_size env lhs fv) m) in
      charge g (g_add g (m_instr m F_neq_base) (g_mul g (m_instr m F_neq_per_abs_val_unit)
                  (g_add g (abstract_size_dereferenced env lhs fv) (abstract_size_dereferenced env rhs fv)))) m')"
| "meter_step env (BorrowGlobal is_mut is_generic) m =
     charge (algebra env)
       (m_instr m (if is_mut then (if is_generic then F_mut_borrow_global_generic_base else F_mut_borrow_global_base)
                   else (if is_generic then F_imm_borrow_global_generic_base else F_imm_borrow_global_base))) m"
| "meter_step env (ExistsRes is_generic) m =
     charge (algebra env) (m_instr m (if is_generic then F_exists_generic_base else F_exists_base)) m"
| "meter_step env (MoveFrom is_generic) m =
     charge (algebra env) (m_instr m (if is_generic then F_move_from_generic_base else F_move_from_base)) m"
| "meter_step env (MoveTo is_generic) m =
     charge (algebra env) (m_instr m (if is_generic then F_move_to_generic_base else F_move_to_base)) m"
| "meter_step env (VecPack args) m =
     (let g = algebra env in
      and_charge (use_heap_memory g (add_sizes g (abstract_packed_size env) args) m)
        (charge g (g_add g (m_instr m F_vec_pack_base) (g_mul g (m_instr m F_vec_pack_per_elem) (word_of_nat (length args))))))"
| "meter_step env (VecUnpack expect_num_elements elems) m =
     (let g = algebra env in
      charge g (g_add g (m_instr m F_vec_unpack_base) (g_mul g (m_instr m F_vec_unpack_per_expected_elem) expect_num_elements))
        (release_heap_memory g (add_sizes g (abstract_packed_size env) elems) m))"
| "meter_step env VecLen m = charge (algebra env) (m_instr m F_vec_len_base) m"
| "meter_step env (VecBorrow is_mut) m =
     charge (algebra env) (m_instr m (if is_mut then F_vec_mut_borrow_base else F_vec_imm_borrow_base)) m"
| "meter_step env (VecPushBack val) m =
     and_charge (use_heap_memory (algebra env) (abstract_packed_size env val) m)
       (charge (algebra env) (m_instr m F_vec_push_back_base))"
| "meter_step env (VecPopBack val) m =
     charge (algebra env) (m_instr m F_vec_pop_back_base)
       (case val of None \<Rightarrow> m | Some v \<Rightarrow> release_heap_memory (algebra env) (abstract_packed_size env v) m)"
| "meter_step env VecSwap m = charge (algebra env) (m_instr m F_vec_swap_base) m"
| "meter_step env (DropFrame locals) m =
     (Inr (), release_heap_memory (algebra env)
        (add_sizes (algebra env) (\<lambda>v. abstract_heap_size env v (m_feature_version m)) locals) m)"

definition charge_intrinsic_gas_for_transaction ::
  "gas_algebra \<Rightarrow> u64 \<Rightarrow> gas_meter \<Rightarrow> charged outcome" where
  "charge_intrinsic_gas_for_transaction g txn_size m =
     out_bind (calculate_intrinsic_gas g (m_txn m) txn_size) (\<lambda>cost. Ret (charge g cost m))"

definition charge_write_set_gas ::
  "gas_algebra \<Rightarrow> 'k key_info \<Rightarrow> ('k \<times> write_op) list \<Rightarrow> gas_meter \<Rightarrow> charged outcome" where
  "charge_write_set_gas g ki ops m =
     out_bind (calculate_write_set_gas g ki (pricing (m_storage m)) ops) (\<lambda>cost. Ret (charge g cost m))"

section \<open>Costs do not depend on the balance\<close>

abbreviation with_balance :: "u64 \<Rightarrow> gas_meter \<Rightarrow> gas_meter" where
  "with_balance b m \<equiv> m\<lparr>m_balance := b\<rparr>"

text \<open>
  Whatever the balance is, an operation either fails with the same error before it charges anything, or charges the same
  amount on the same quota.
\<close>

definition fixed_cost :: "gas_algebra \<Rightarrow> (gas_meter \<Rightarrow> charged) \<Rightarrow> gas_meter \<Rightarrow> bool" where
  "fixed_cost g f m \<longleftrightarrow>
     (\<exists>c q l. \<forall>b. f (with_balance b m) = charge g c (m\<lparr>m_balance := b, m_quota := q, leak_for_native := l\<rparr>)) \<or>
     (\<exists>e q. \<forall>b. f (with_balance b m) = (Inl e, m\<lparr>m_balance := b, m_quota := q\<rparr>))"

lemma fixed_cost_charge:
  "(\<And>b. f (with_balance b m) = charge g c (m\<lparr>m_balance := b, m_quota := q, leak_for_native := l\<rparr>)) \<Longrightarrow> fixed_cost g f m"
  by (auto simp: fixed_cost_def)

lemma fixed_cost_error:
  "(\<And>b. f (with_balance b m) = (Inl e, m\<lparr>m_balance := b, m_quota := q\<rparr>)) \<Longrightarrow> fixed_cost g f m"
  by (auto simp: fixed_cost_def)

lemma charge_nothing: "gas_laws g \<Longrightarrow> charge g 0 m = (Inr (), m)"
  by (simp add: gas_laws_def charge_def)

lemma same_fields: "m\<lparr>m_balance := b, m_quota := m_quota m, leak_for_native := leak_for_native m\<rparr> = with_balance b m"
  by simp

lemma fixed_cost_plain:
  assumes "\<And>b. f (with_balance b m) = charge g c (with_balance b m)"
  shows "fixed_cost g f m"
  by (rule fixed_cost_charge [where c = c and q = "m_quota m" and l = "leak_for_native m"]) (simp add: assms)

lemma fixed_cost_nothing:
  assumes "gas_laws g" and "\<And>b. f (with_balance b m) = (Inr (), release_heap_memory g a (with_balance b m))"
  shows "fixed_cost g f m"
  by (rule fixed_cost_charge [where c = 0 and q = "m_quota (release_heap_memory g a m)" and l = "leak_for_native m"])
    (simp add: assms charge_nothing release_heap_memory_def)

lemma fixed_cost_release:
  assumes "\<And>b. f (with_balance b m) = charge g c (release_heap_memory g a (with_balance b m))"
  shows "fixed_cost g f m"
  by (rule fixed_cost_charge [where c = c and q = "m_quota (release_heap_memory g a m)" and l = "leak_for_native m"])
    (simp add: assms release_heap_memory_def)

lemma fixed_cost_use:
  assumes "\<And>b. f (with_balance b m) = and_charge (use_heap_memory g a (with_balance b m)) (charge g c)"
  shows "fixed_cost g f m"
proof (cases "m_feature_version m \<ge> 3")
  case True
  show ?thesis
  proof (cases "g_checked_sub g (m_quota m) a")
    case None
    with True show ?thesis
      by (intro fixed_cost_error [where q = 0]) (simp add: assms use_heap_memory_def and_charge_def)
  next
    case (Some q)
    with True show ?thesis
      by (intro fixed_cost_charge [where c = c and q = q and l = "leak_for_native m"]) (simp add: assms use_heap_memory_def and_charge_def)
  qed
next
  case False
  then show ?thesis by (intro fixed_cost_plain) (simp add: assms use_heap_memory_def and_charge_def)
qed

lemma fixed_cost_use_only:
  assumes "gas_laws g" and "\<And>b. f (with_balance b m) = use_heap_memory g a (with_balance b m)"
  shows "fixed_cost g f m"
proof (rule fixed_cost_use [of f m g a 0])
  have "charge g 0 = Pair (Inr ())" using charge_nothing [OF assms(1)] by auto
  then show "f (with_balance b m) = and_charge (use_heap_memory g a (with_balance b m)) (charge g 0)" for b
    using assms(2) by (simp add: and_charge_def split: prod.splits sum.splits)
qed

lemma release_twice:
  assumes "\<And>b. f (with_balance b m) = charge g c (release_heap_memory g a (release_heap_memory g a' (with_balance b m)))"
  shows "fixed_cost g f m"
  by (rule fixed_cost_charge [where c = c and q = "m_quota (release_heap_memory g a (release_heap_memory g a' m))" and l = "leak_for_native m"])
    (simp add: assms release_heap_memory_def)

lemma meter_step_fixed_cost:
  assumes laws: "gas_laws (algebra env)"
  shows "fixed_cost (algebra env) (meter_step env call) m"
proof (cases call)
  case (SimpleInstr i)
  then show ?thesis
  proof (cases "simple_instr_cost env i")
    case (Inl e)
    with SimpleInstr show ?thesis by (intro fixed_cost_error [where q = "m_quota m"]) simp
  next
    case (Inr cost)
    with SimpleInstr show ?thesis by (intro fixed_cost_plain) simp
  qed
next
  case (NativeBefore args)
  then show ?thesis
  proof (cases "leak_for_native m")
    case True
    with NativeBefore show ?thesis by (intro fixed_cost_plain [where c = 0]) (simp add: charge_nothing [OF laws])
  qed (auto intro!: fixed_cost_nothing [OF laws] simp: NativeBefore)
next
  case (NativeFunction amount ret_vals)
  then show ?thesis
    by (cases ret_vals) (auto intro: fixed_cost_plain fixed_cost_use simp: and_charge_def)
next
  case (LoadResource loaded)
  then show ?thesis
    by (cases loaded; cases "m_feature_version m = 0") (auto intro: fixed_cost_plain fixed_cost_use simp: and_charge_def)
next
  case (CallGeneric module_id num_ty_args num_args num_locals)
  then show ?thesis by (auto intro!: fixed_cost_charge [where q = "m_quota m"] simp: Let_def)
next
  case (EqVals lhs rhs)
  then show ?thesis by (auto intro!: release_twice simp: Let_def)
next
  case (NeqVals lhs rhs)
  then show ?thesis by (auto intro!: release_twice simp: Let_def)
next
  case (VecPopBack val)
  then show ?thesis by (cases val) (auto intro: fixed_cost_plain fixed_cost_release)
next
  case (DropFrame locals)
  then show ?thesis by (auto intro!: fixed_cost_nothing [OF laws])
next
  case (CopyLoc val)
  then show ?thesis
    by (cases "abstract_stack_and_heap env val (m_feature_version m)") (auto intro!: fixed_cost_use simp: Let_def)
next
  case (ReadRef val)
  then show ?thesis
    by (cases "abstract_stack_and_heap env val (m_feature_version m)") (auto intro!: fixed_cost_use simp: Let_def)
next
  case (LdConstAfter val)
  then show ?thesis by (auto intro!: fixed_cost_use_only [OF laws])
qed (auto intro: fixed_cost_plain fixed_cost_release fixed_cost_use simp: Let_def split: prod.splits)

section \<open>Runs\<close>

text \<open>The calls of an execution, up to the first error.\<close>

fun meter_run :: "('v, 'i, 'a) meter_env \<Rightarrow> ('v, 'i, 'a) meter_call list \<Rightarrow> gas_meter \<Rightarrow> charged" where
  "meter_run env [] m = (Inr (), m)"
| "meter_run env (call # calls) m = and_charge (meter_step env call m) (meter_run env calls)"

lemma charge_cases:
  assumes "gas_laws g"
  shows "charge g c m = (if c \<le> m_balance m then (Inr (), with_balance (m_balance m - c) m) else (Inl ''OUT_OF_GAS'', with_balance 0 m))"
  using assms by (simp add: gas_laws_def charge_def)

text \<open>A successful step: what it charges, and what it does under every other balance.\<close>

lemma meter_step_spends:
  assumes laws: "gas_laws (algebra env)" and step: "meter_step env call m = (Inr (), m')"
  obtains c where "c \<le> m_balance m" and "m_balance m' = m_balance m - c"
    and "\<And>b. meter_step env call (with_balance b m) =
      (if c \<le> b then (Inr (), with_balance (b - c) m') else (Inl ''OUT_OF_GAS'', with_balance 0 m'))"
proof -
  from meter_step_fixed_cost [OF laws, of call m, unfolded fixed_cost_def]
  obtain c q l where f: "\<And>b. meter_step env call (with_balance b m)
      = charge (algebra env) c (m\<lparr>m_balance := b, m_quota := q, leak_for_native := l\<rparr>)"
  proof
    assume "\<exists>e q. \<forall>b. meter_step env call (with_balance b m) = (Inl e, m\<lparr>m_balance := b, m_quota := q\<rparr>)"
    then obtain e q where "meter_step env call (with_balance (m_balance m) m) = (Inl e, m\<lparr>m_balance := m_balance m, m_quota := q\<rparr>)"
      by blast
    with step show ?thesis by simp
  qed (use that in blast)
  have "charge (algebra env) c (m\<lparr>m_balance := m_balance m, m_quota := q, leak_for_native := l\<rparr>) = (Inr (), m')"
    using f [of "m_balance m"] step by simp
  then have c: "c \<le> m_balance m" and m': "m' = m\<lparr>m_balance := m_balance m - c, m_quota := q, leak_for_native := l\<rparr>"
    by (auto simp: charge_cases [OF laws] split: if_splits)
  show ?thesis by (rule that [OF c]) (simp_all add: m' f charge_cases [OF laws])
qed

lemma meter_run_spends:
  assumes laws: "gas_laws (algebra env)" and "meter_run env calls m = (Inr (), m')"
  shows "m_balance m' \<le> m_balance m \<and>
    (\<forall>b. m_balance m - m_balance m' \<le> b \<longrightarrow>
       meter_run env calls (with_balance b m) = (Inr (), with_balance (b - (m_balance m - m_balance m')) m')) \<and>
    (\<forall>b. b < m_balance m - m_balance m' \<longrightarrow>
       (\<exists>m''. meter_run env calls (with_balance b m) = (Inl ''OUT_OF_GAS'', m'') \<and> m_balance m'' = 0))"
  using assms(2)
proof (induction calls arbitrary: m)
  case (Cons call calls)
  obtain m1 where m1: "meter_step env call m = (Inr (), m1)" "meter_run env calls m1 = (Inr (), m')"
    using Cons.prems by (auto simp: and_charge_def split: prod.splits sum.splits)
  obtain c where c: "c \<le> m_balance m" "m_balance m1 = m_balance m - c"
      "\<And>b. meter_step env call (with_balance b m) =
        (if c \<le> b then (Inr (), with_balance (b - c) m1) else (Inl ''OUT_OF_GAS'', with_balance 0 m1))"
    by (rule meter_step_spends [OF laws m1(1)]) blast
  define d where "d = m_balance m1 - m_balance m'"
  note IH = Cons.IH [OF m1(2), folded d_def]
  have sum: "unat (m_balance m - m_balance m') = unat c + unat d" "m_balance m' \<le> m_balance m"
    using c(1,2) IH unfolding d_def by (auto simp: word_le_nat_alt unat_sub)
  have D: "m_balance m - m_balance m' \<le> b \<longleftrightarrow> c \<le> b \<and> d \<le> b - c"
      "c \<le> b \<Longrightarrow> b - c - d = b - (m_balance m - m_balance m')" for b
  proof -
    show "m_balance m - m_balance m' \<le> b \<longleftrightarrow> c \<le> b \<and> d \<le> b - c"
      using sum(1) by (auto simp: word_le_nat_alt unat_sub)
    show "b - c - d = b - (m_balance m - m_balance m')" using c(2) by (simp add: d_def)
  qed
  show ?case
  proof (intro conjI allI impI)
    show "m_balance m' \<le> m_balance m" by (rule sum(2))
  next
    fix b
    assume "m_balance m - m_balance m' \<le> b"
    then have "c \<le> b" and "d \<le> b - c" using D(1) by auto
    then show "meter_run env (call # calls) (with_balance b m) = (Inr (), with_balance (b - (m_balance m - m_balance m')) m')"
      using IH D(2) by (simp add: c(3) and_charge_def)
  next
    fix b
    assume "b < m_balance m - m_balance m'"
    then have less: "\<not> c \<le> b \<or> b - c < d" using D(1) by (auto simp: not_le [symmetric])
    show "\<exists>m''. meter_run env (call # calls) (with_balance b m) = (Inl ''OUT_OF_GAS'', m'') \<and> m_balance m'' = 0"
    proof (cases "c \<le> b")
      case True
      with less IH show ?thesis by (auto simp: c(3) and_charge_def)
    next
      case False
      then show ?thesis by (simp add: c(3) and_charge_def)
    qed
  qed
qed simp

text \<open>
  C33. What an execution costs does not depend on the gas it is given: when a sequence of calls of the meter succeeds, it uses
  up a certain amount; it succeeds with every balance of at least that amount and leaves the difference, with everything
  else the same, and with every smaller balance it ends out of gas with a balance of zero.
\<close>

theorem gas_use_is_fixed:
  assumes "gas_laws (algebra env)" and "meter_run env calls m = (Inr (), m')"
  shows "m_balance m' \<le> m_balance m \<and>
    (m_balance m - m_balance m' \<le> b \<longrightarrow>
       meter_run env calls (m\<lparr>m_balance := b\<rparr>) = (Inr (), m'\<lparr>m_balance := b - (m_balance m - m_balance m')\<rparr>)) \<and>
    (b < m_balance m - m_balance m' \<longrightarrow>
       fst (meter_run env calls (m\<lparr>m_balance := b\<rparr>)) = Inl ''OUT_OF_GAS'' \<and>
       m_balance (snd (meter_run env calls (m\<lparr>m_balance := b\<rparr>))) = 0)"
  using meter_run_spends [OF assms] by fastforce

text \<open>An environment in which every value has size one and every simple instruction costs two.\<close>

definition sample_env :: "(unit, unit, nat) meter_env" where
  "sample_env =
     \<lparr>algebra = saturating_algebra, to_unit = (\<lambda>k n. saturate (unat k * unat n)), to_unit_round_down = (\<lambda>r n. n div snd r),
      abstract_heap_size = (\<lambda>_ _. 1), abstract_stack_size = (\<lambda>_ _. 1), abstract_stack_and_heap = (\<lambda>_ _. (1, 1)),
      abstract_packed_size = (\<lambda>_. 1), abstract_size_dereferenced = (\<lambda>_ _. 1), simple_instr_cost = (\<lambda>_. Inr 2),
      core_code_address = 1\<rparr>"

definition sample_meter :: gas_meter where
  "sample_meter =
     \<lparr>m_feature_version = 5, m_txn = txn_zeros, m_instr = (\<lambda>_. 3),
      m_storage = \<lparr>pricing = PricingV1 (v1_new txn_zeros), change_set_limits = for_feature_version_3\<rparr>,
      m_balance = 100, m_quota = 10, leak_for_native = False\<rparr>"

definition sample_calls :: "(unit, unit, nat) meter_call list" where
  "sample_calls = [SimpleInstr (), VecPushBack (), CallGeneric (1, ''table'') 0 0 0]"

theorem gas_use_is_fixed_witness:
  "meter_run sample_env sample_calls sample_meter = (Inr (), sample_meter\<lparr>m_balance := 92, m_quota := 9, leak_for_native := True\<rparr>) \<and>
   fst (meter_run sample_env sample_calls (sample_meter\<lparr>m_balance := 8\<rparr>)) = Inr () \<and>
   fst (meter_run sample_env sample_calls (sample_meter\<lparr>m_balance := 7\<rparr>)) = Inl ''OUT_OF_GAS''"
proof -
  have laws: "gas_laws (algebra sample_env)" by (simp add: sample_env_def saturating_laws)
  have run: "meter_run sample_env sample_calls sample_meter = (Inr (), sample_meter\<lparr>m_balance := 92, m_quota := 9, leak_for_native := True\<rparr>)"
    by (simp add: sample_calls_def sample_meter_def sample_env_def saturating_algebra_def charge_def and_charge_def use_heap_memory_def
        saturate_def Let_def)
  from gas_use_is_fixed [OF laws run, of 8] gas_use_is_fixed [OF laws run, of 7] run show ?thesis
    by (simp add: sample_meter_def)
qed

end
