(* ===== verification/Spec2Isabelle.thy ===== *)
theory Spec2Isabelle
  imports AggregatorNatives Executor RangeProof SparseMerkle TrustedState NibblePath NetworkAddress Noise MultiEd25519 GasMeter
begin

text \<open>
  A verification library for the open-libra node. Paths below are relative to \<^verbatim>\<open>src/\<close>.

  \<^bold>\<open>Parts and how they interact.\<close> A block of transactions is executed in parallel: a scheduler hands out execution and
  validation tasks, a multi-version map holds what the transactions wrote, reads are recorded and validated, and what is
  committed must be what executing the transactions one after the other gives. The output of a transaction is a change set:
  writes, deltas of aggregators and events. Gas limits what a transaction may do and how large its change set may be. The
  resulting ledger is authenticated by Merkle trees; validators sign ledger infos, and a light client follows the chain of
  epochs from signatures and proofs. Nodes find each other by network addresses and talk over Noise channels.

  \<^bold>\<open>Conventions.\<close> A Rust \<^verbatim>\<open>Result<A, E>\<close> is \<open>'e + 'a\<close> with \<open>Inl\<close> the error; a function that can panic returns an \<open>outcome\<close>
  (\<open>Panic\<close> or \<open>Ret x\<close>). Machine integers are words of their width; the build profile of the repository enables overflow
  checks, so \<open>+\<close>, \<open>-\<close>, \<open>*\<close> and shifts of the source panic on overflow (\<open>word_add\<close> and its relatives in \<open>Prelude\<close>), while
  wrapping, checked and saturating methods are written out. \<^verbatim>\<open>usize\<close> is \<open>nat\<close>. A \<^verbatim>\<open>BTreeMap\<close> is its list of entries in key
  order (theory \<open>BTreeMap\<close>), a \<^verbatim>\<open>HashMap\<close> a map. Code outside the repository is an argument of the definitions that use it:
  hash functions, BLS and Ed25519 signatures, X25519, AES-GCM, HKDF, the serialisation format, the text form of IP addresses,
  the quantities of gas and the Move virtual machine. What is relied on of it is a named hypothesis of the theorems, and a
  witness gives an instance.

  \<^bold>\<open>Change sets and aggregators.\<close> \<open>WriteSet\<close> (\<^verbatim>\<open>types/src/write_set.rs\<close>), \<open>Delta\<close> (\<^verbatim>\<open>language/ol-aggregator/src/delta_change_set.rs\<close>),
  \<open>Aggregator\<close> (\<^verbatim>\<open>aggregator_extension.rs\<close>), \<open>AggregatorNatives\<close> (\<^verbatim>\<open>language/framework/src/natives/aggregator_natives/\<close>) and
  \<open>ChangeSetExt\<close> (\<^verbatim>\<open>types/src/transaction/change_set.rs\<close>, \<^verbatim>\<open>language/ol-aggregator/src/transaction.rs\<close>). Squashing two change sets has
  the effect of applying one after the other; merging deltas is composition; an aggregator that only records a delta behaves
  like one that knows its value.

  \<^bold>\<open>Parallel execution.\<close> \<open>MVHashMap\<close> (\<^verbatim>\<open>language/move-hashmap/src/lib.rs\<close>), and for \<^verbatim>\<open>language/block-executor/src/\<close>: \<open>TxnIO\<close>
  (\<^verbatim>\<open>txn_last_input_output.rs\<close>), \<open>View\<close> (\<^verbatim>\<open>view.rs\<close>), \<open>DeltaResolver\<close> (\<^verbatim>\<open>output_delta_resolver.rs\<close>), \<open>Scheduler\<close> (\<^verbatim>\<open>scheduler.rs\<close>) with
  \<open>SchedulerInv\<close>, \<open>SchedulerSystem\<close> and \<open>SchedulerLive\<close>, and \<open>Executor\<close> (\<^verbatim>\<open>executor.rs\<close>). A read is what sequential execution
  of the lower transactions leaves; an execution that validates repeats with the same result; delta resolution is
  sequential; module races are noticed. The scheduler is a transition system of workers (\<open>world_step\<close>): it never panics, no
  task is handed out twice, no wake-up is lost, what is committed stays committed and is a prefix, and some worker can always
  move until the block is done. Operations on atomics and under a lock are single steps.

  \<^bold>\<open>Gas.\<close> \<open>StorageGas\<close> (\<^verbatim>\<open>language/ol-gas/src/transaction/\<close>) and \<open>GasMeter\<close> (\<^verbatim>\<open>language/ol-gas/src/gas_meter.rs\<close>). The check of a change
  set admits exactly those within the limits; a write set costs the capped sum of its operations in any order; what an
  execution costs does not depend on the balance it starts with.

  \<^bold>\<open>Authenticated data.\<close> For \<^verbatim>\<open>types/src/proof/\<close>: \<open>Position\<close> (\<^verbatim>\<open>position/mod.rs\<close>), \<open>Accumulator\<close> and \<open>Consistency\<close> (\<^verbatim>\<open>accumulator/mod.rs\<close>),
  \<open>MerkleProof\<close>, \<open>RangeProof\<close> and \<open>SparseMerkle\<close> (\<^verbatim>\<open>definition.rs\<close>); \<open>Hash\<close> (\<^verbatim>\<open>crates/ol-crypto/src/hash.rs\<close>) and \<open>NibblePath\<close>
  (\<^verbatim>\<open>types/src/nibble/\<close>). Positions are the nodes of a complete tree, appending is appending to a list of leaves, and proofs are
  accepted exactly for what the tree contains, unless a node of the tree has a second preimage. Nibble paths are lists.

  \<^bold>\<open>Validators and light clients.\<close> \<open>BitVec\<close> (\<^verbatim>\<open>crates/ol-bitvec/src/lib.rs\<close>), \<open>Validators\<close> (\<^verbatim>\<open>types/src/validator_verifier.rs\<close> and the
  types it uses), \<open>Ledger\<close> (\<^verbatim>\<open>types/src/ledger_info.rs\<close>, \<^verbatim>\<open>block_info.rs\<close>, \<^verbatim>\<open>epoch_state.rs\<close>) and \<open>TrustedState\<close>
  (\<^verbatim>\<open>types/src/trusted_state.rs\<close>, \<^verbatim>\<open>epoch_change.rs\<close>, \<^verbatim>\<open>waypoint.rs\<close>, \<^verbatim>\<open>state_proof.rs\<close>). Quorums intersect in more than a third of
  the voting power, a ratcheted state is chained to the old one, and light clients of one start agree.

  \<^bold>\<open>Keys, addresses and channels.\<close> \<open>Text\<close> (numbers and hexadecimal text), \<open>CryptoKeys\<close> (\<^verbatim>\<open>crates/ol-crypto/src/traits.rs\<close>,
  \<^verbatim>\<open>x25519.rs\<close>, \<^verbatim>\<open>hkdf.rs\<close>), \<open>MultiEd25519\<close> (\<^verbatim>\<open>multi_ed25519.rs\<close>), \<open>Noise\<close> (\<^verbatim>\<open>noise.rs\<close>) and \<open>NetworkAddress\<close>
  (\<^verbatim>\<open>types/src/network_address/mod.rs\<close>). A threshold signature that verifies was made by threshold many keys; a handshake
  between honest peers ends in matching sessions; a channel delivers an initial part of what was sent; addresses are read
  back from their text.

  \<^bold>\<open>Bounds and fuel.\<close> The loop of range proofs runs on fuel (\<open>range_fuel\<close>, the number of hashes and siblings), which is
  enough, because every round uses up one of them (lemma \<open>range_loop_rounds\<close>). The
  loops of \<open>next_task\<close> and \<open>skip_common_prefix\<close> are partial functions that return None when they do not end; both are proved to
  return. All other loops are total by their termination proofs.

  \<^bold>\<open>Correspondence.\<close> A loop or an inner piece of a function has a definition of its own next to the definition of the function;
  small pieces and constants are found under the lines of the function that uses them.

  \<^bold>\<open>Not modelled.\<close> The virtual machine adapter (\<^verbatim>\<open>language/ol-vm\<close>) drives Move sessions and modules of a package outside the
  repository, so most of what it does is a call into code that cannot be read here. Natives other than those of
  aggregators, the framework build tools, genesis and the transaction builders are glue around that package or generate
  code. Ed25519 and BLS keys wrap foreign curve code. Transactions, authenticators, accounts, events, state keys and
  on-chain configuration are mostly serialisation formats and accessors. The gas parameter tables are macros over names and
  numbers. Logging, metrics, key generation, procedural macros and test support have no state that the rest relies on. The
  contents of a buffer passed to a handshake that fails, and the memory order of atomics, are outside the models.
\<close>

end
